(* ===== verification/Prelude.thy ===== *)
theory Prelude
  imports Main "HOL-Library.Word"
begin

text \<open>
  Shared vocabulary of the development.

  \<^item> the C integer types of \<^verbatim>\<open>kernel/types.h\<close> as words of their width;
  \<^item> the outcome of a kernel routine: it returns a value and a new state, it calls
    \<^verbatim>\<open>panic\<close> with a message (which never returns), or it does not come back (a spin
    on a lock that nobody releases, a loop that runs out of the fuel of the model);
  \<^item> the combinators in which the routines are written, with their laws;
  \<^item> the fact collections the components fill, and generic facts on words and lists.
\<close>

unbundle bit_operations_syntax

section \<open>C integer types\<close>

type_synonym u8 = "8 word"
type_synonym u16 = "16 word"
type_synonym u32 = "32 word"
type_synonym u64 = "64 word"

section \<open>Fact collections\<close>

named_theorems run_simps "equations that run a routine on a state"
named_theorems mem_simps "reads after writes of the physical memory"
named_theorems frame_simps "state fields a routine leaves alone"
named_theorems pte_simps "page table entries and their flag bits"

section \<open>Arithmetic\<close>

lemma aligned_room: "x + d \<le> n" if "d dvd x" "d dvd n" "x < n" for x d n :: nat
proof -
  from that(1,2) obtain q r where "x = d * q" "n = d * r" by (auto elim!: dvdE)
  with that(3) have "Suc q \<le> r" by (simp add: Suc_le_eq)
  then have "d * Suc q \<le> d * r" by (rule mult_le_mono2)
  then show ?thesis using \<open>x = d * q\<close> \<open>n = d * r\<close> by simp
qed

section \<open>Outcomes and sequencing\<close>

datatype ('a, 's) outcome =
    Ok 'a 's
  | Panic string
  | Diverge

type_synonym ('s, 'a) routine = "'s \<Rightarrow> ('a, 's) outcome"

definition ret :: "'a \<Rightarrow> ('s, 'a) routine" where
  "ret x = (\<lambda>s. Ok x s)"

definition bind :: "('s, 'a) routine \<Rightarrow> ('a \<Rightarrow> ('s, 'b) routine) \<Rightarrow> ('s, 'b) routine" where
  "bind m f = (\<lambda>s. case m s of Ok x t \<Rightarrow> f x t | Panic e \<Rightarrow> Panic e | Diverge \<Rightarrow> Diverge)"

definition sq :: "('s, 'a) routine \<Rightarrow> ('s, 'b) routine \<Rightarrow> ('s, 'b) routine" where
  "sq m n = bind m (\<lambda>_. n)"

definition gets :: "('s \<Rightarrow> 'a) \<Rightarrow> ('s, 'a) routine" where
  "gets f = (\<lambda>s. Ok (f s) s)"

definition modify :: "('s \<Rightarrow> 's) \<Rightarrow> ('s, unit) routine" where
  "modify f = (\<lambda>s. Ok () (f s))"

definition panic :: "string \<Rightarrow> ('s, 'a) routine" where
  "panic e = (\<lambda>s. Panic e)"

definition diverge :: "('s, 'a) routine" where
  "diverge = (\<lambda>s. Diverge)"

definition panic_if :: "bool \<Rightarrow> string \<Rightarrow> ('s, unit) routine" where
  "panic_if b e = (if b then panic e else ret ())"

lemma ret_run [simp, run_simps]: "ret x s = Ok x s"
  by (simp add: ret_def)

lemma gets_run [simp, run_simps]: "gets f s = Ok (f s) s"
  by (simp add: gets_def)

lemma modify_run [simp, run_simps]: "modify f s = Ok () (f s)"
  by (simp add: modify_def)

lemma panic_run [simp, run_simps]: "panic e s = Panic e"
  by (simp add: panic_def)

lemma diverge_run [simp, run_simps]: "diverge s = Diverge"
  by (simp add: diverge_def)

lemma panic_if_run [simp, run_simps]: "panic_if b e s = (if b then Panic e else Ok () s)"
  by (simp add: panic_if_def)

lemma bind_run [run_simps]:
  "bind m f s = (case m s of Ok x t \<Rightarrow> f x t | Panic e \<Rightarrow> Panic e | Diverge \<Rightarrow> Diverge)"
  by (simp add: bind_def)

lemma bind_Ok [simp]: "m s = Ok x t \<Longrightarrow> bind m f s = f x t"
  by (simp add: bind_def)

lemma bind_Panic [simp]: "m s = Panic e \<Longrightarrow> bind m f s = Panic e"
  by (simp add: bind_def)

lemma bind_Diverge [simp]: "m s = Diverge \<Longrightarrow> bind m f s = Diverge"
  by (simp add: bind_def)

lemma sq_run [run_simps]:
  "sq m n s = (case m s of Ok x t \<Rightarrow> n t | Panic e \<Rightarrow> Panic e | Diverge \<Rightarrow> Diverge)"
  by (simp add: sq_def bind_def)

lemma sq_Ok [simp]: "m s = Ok x t \<Longrightarrow> sq m n s = n t"
  by (simp add: sq_run)

lemma sq_Panic [simp]: "m s = Panic e \<Longrightarrow> sq m n s = Panic e"
  by (simp add: sq_run)

lemma sq_Diverge [simp]: "m s = Diverge \<Longrightarrow> sq m n s = Diverge"
  by (simp add: sq_run)

text \<open>Two routines of a longer sequence whose joint outcome is known.\<close>

lemma sq_sq_Ok: "sq m n s = Ok x t \<Longrightarrow> sq m (sq n k) s = k t"
  by (auto simp: sq_run split: outcome.splits)

lemma sq_bind_Ok: "sq m n s = Ok x t \<Longrightarrow> sq m (bind n k) s = k x t"
  by (auto simp: sq_run bind_def split: outcome.splits)

lemma bind_eq_Ok:
  "bind m f s = Ok y u \<longleftrightarrow> (\<exists>x t. m s = Ok x t \<and> f x t = Ok y u)"
  by (auto simp: bind_def split: outcome.splits)

lemma sq_eq_Ok:
  "sq m n s = Ok y u \<longleftrightarrow> (\<exists>x t. m s = Ok x t \<and> n t = Ok y u)"
  by (simp add: sq_def bind_eq_Ok)

lemma bind_OkE [elim]:
  assumes "bind m f s = Ok y u"
  obtains x t where "m s = Ok x t" "f x t = Ok y u"
  using assms by (auto simp: bind_eq_Ok)

lemma sq_OkE [elim]:
  assumes "sq m n s = Ok y u"
  obtains x t where "m s = Ok x t" "n t = Ok y u"
  using assms by (auto simp: sq_eq_Ok)

lemma bind_assoc: "bind (bind m f) g = bind m (\<lambda>x. bind (f x) g)"
  by (rule ext) (simp add: bind_def split: outcome.split)

lemma ret_bind: "bind (ret x) f = f x"
  by (rule ext) simp

lemma bind_ret: "bind m ret = m"
  by (rule ext) (simp add: bind_def split: outcome.split)

text \<open>
  A loop over the elements of an array: \<^verbatim>\<open>for(p = a; p < &a[N]; p++) body\<close>.
\<close>

fun for_each :: "'i list \<Rightarrow> ('i \<Rightarrow> ('s, unit) routine) \<Rightarrow> ('s, unit) routine" where
  "for_each [] f = ret ()"
| "for_each (i # is) f = sq (f i) (for_each is f)"

text \<open>
  A loop that leaves early: the body gives \<open>Some r\<close> to return \<open>r\<close> and \<open>None\<close> to
  go on; \<open>None\<close> at the end means that the loop ran to its end.
\<close>

fun for_until :: "'i list \<Rightarrow> ('i \<Rightarrow> ('s, 'r option) routine) \<Rightarrow> ('s, 'r option) routine" where
  "for_until [] f = ret None"
| "for_until (i # is) f =
     bind (f i) (\<lambda>r. case r of Some x \<Rightarrow> ret (Some x) | None \<Rightarrow> for_until is f)"

lemma for_each_modify:
  "(\<And>i s. i \<in> set is \<Longrightarrow> f i s = Ok () (g i s)) \<Longrightarrow> for_each is f s = Ok () (fold g is s)"
  by (induction "is" arbitrary: s) (auto simp: sq_run)

text \<open>A loop over an initial segment runs to its end when each turn does.\<close>

lemma for_each_upt:
  assumes "I a s" and step: "\<And>i s. a \<le> i \<Longrightarrow> i < n \<Longrightarrow> I i s \<Longrightarrow> \<exists>t. f i s = Ok () t \<and> I (Suc i) t"
    and "a \<le> n"
  shows "\<exists>t. for_each [a..<n] f s = Ok () t \<and> I n t"
proof -
  have "\<exists>t. for_each [b..<n] f s = Ok () t \<and> I n t" if "I b s" "a \<le> b" "b \<le> n" for b s
    using that
  proof (induction "n - b" arbitrary: b s)
    case (Suc k)
    then have "b < n" by simp
    then obtain t where t: "f b s = Ok () t" "I (Suc b) t" using step Suc.prems by blast
    have "\<exists>u. for_each [Suc b..<n] f t = Ok () u \<and> I n u" using Suc t(2) by (intro Suc.hyps(1)) simp_all
    with t(1) \<open>b < n\<close> show ?case by (auto simp: upt_conv_Cons)
  qed simp
  then show ?thesis using assms(1,3) by blast
qed

lemma for_each_inv:
  assumes "for_each is f s = Ok u t" and "P s"
    and "\<And>i s u t. i \<in> set is \<Longrightarrow> P s \<Longrightarrow> f i s = Ok u t \<Longrightarrow> P t"
  shows "P t"
  using assms by (induction "is" arbitrary: s) (auto simp: sq_eq_Ok)

end
