(* ===== verification/Riscv.thy ===== *)
theory Riscv
  imports Prelude
begin

text \<open>
  The constants and address arithmetic of \<^verbatim>\<open>kernel/riscv.h\<close>,
  \<^verbatim>\<open>kernel/memlayout.h\<close> and \<^verbatim>\<open>kernel/param.h\<close>: page rounding, page table
  entries and the three 9-bit page table indices of an Sv39 virtual address, with the
  facts on them that the page table proofs use.
\<close>

section \<open>param.h\<close>

definition NPROC :: nat where "NPROC = 64"
definition NCPU :: nat where "NCPU = 8"
definition NOFILE :: nat where "NOFILE = 16"
definition NFILE :: nat where "NFILE = 100"
definition NINODE :: nat where "NINODE = 50"
definition NDEV :: nat where "NDEV = 10"
definition ROOTDEV :: u32 where "ROOTDEV = 1"
definition MAXARG :: nat where "MAXARG = 32"
definition MAXOPBLOCKS :: nat where "MAXOPBLOCKS = 10"
definition LOGSIZE :: nat where "LOGSIZE = MAXOPBLOCKS * 3"
definition NBUF :: nat where "NBUF = MAXOPBLOCKS * 3"
definition FSSIZE :: nat where "FSSIZE = 2000"
definition MAXPATH :: nat where "MAXPATH = 128"

section \<open>riscv.h: pages and page table entries\<close>

definition PGSIZE :: u64 where "PGSIZE = 4096"

definition PGROUNDUP :: "u64 \<Rightarrow> u64" where
  "PGROUNDUP sz = (sz + PGSIZE - 1) AND NOT (PGSIZE - 1)"

definition PGROUNDDOWN :: "u64 \<Rightarrow> u64" where
  "PGROUNDDOWN a = a AND NOT (PGSIZE - 1)"

definition PGINDEX :: "u64 \<Rightarrow> u64" where
  "PGINDEX a = drop_bit 12 a"

definition PTE_V :: u64 where "PTE_V = 1"
definition PTE_R :: u64 where "PTE_R = 2"
definition PTE_W :: u64 where "PTE_W = 4"
definition PTE_X :: u64 where "PTE_X = 8"
definition PTE_U :: u64 where "PTE_U = 16"
definition PTE_COW :: u64 where "PTE_COW = 256"

definition PA2PTE :: "u64 \<Rightarrow> u64" where
  "PA2PTE pa = push_bit 10 (drop_bit 12 pa)"

definition PTE2PA :: "u64 \<Rightarrow> u64" where
  "PTE2PA pte = push_bit 12 (drop_bit 10 pte)"

definition PTE_FLAGS :: "u64 \<Rightarrow> u64" where
  "PTE_FLAGS pte = pte AND 0x3FF"

definition PX :: "nat \<Rightarrow> u64 \<Rightarrow> u64" where
  "PX level va = drop_bit (12 + 9 * level) va AND 0x1FF"

definition MAXVA :: u64 where "MAXVA = push_bit (9 + 9 + 9 + 12 - 1) 1"

definition MAKE_SATP :: "u64 \<Rightarrow> u64" where
  "MAKE_SATP pagetable = push_bit 60 8 OR drop_bit 12 pagetable"

definition SSTATUS_SPP :: u64 where "SSTATUS_SPP = push_bit 8 1"
definition SSTATUS_SPIE :: u64 where "SSTATUS_SPIE = push_bit 5 1"
definition SSTATUS_SIE :: u64 where "SSTATUS_SIE = push_bit 1 1"

section \<open>memlayout.h\<close>

definition UART0 :: u64 where "UART0 = 0x10000000"
definition UART0_IRQ :: u32 where "UART0_IRQ = 10"
definition VIRTIO0 :: u64 where "VIRTIO0 = 0x10001000"
definition VIRTIO0_IRQ :: u32 where "VIRTIO0_IRQ = 1"
definition PLIC :: u64 where "PLIC = 0x0c000000"
definition KERNBASE :: u64 where "KERNBASE = 0x80000000"
definition PHYSTOP :: u64 where "PHYSTOP = KERNBASE + 128 * 1024 * 1024"
definition TRAMPOLINE :: u64 where "TRAMPOLINE = MAXVA - PGSIZE"
definition TRAPFRAME :: u64 where "TRAPFRAME = TRAMPOLINE - PGSIZE"

definition KSTACK :: "nat \<Rightarrow> u64" where
  "KSTACK p = TRAMPOLINE - (of_nat p + 1) * 2 * PGSIZE"

section \<open>Values of the constants\<close>

lemmas const_defs = NPROC_def NCPU_def NOFILE_def NFILE_def NINODE_def NDEV_def MAXARG_def
  MAXOPBLOCKS_def LOGSIZE_def NBUF_def FSSIZE_def MAXPATH_def

lemmas flag_defs = PTE_V_def PTE_R_def PTE_W_def PTE_X_def PTE_U_def PTE_COW_def

lemma MAXVA_eq: "MAXVA = 0x4000000000"
  by (simp add: MAXVA_def)

lemma PHYSTOP_eq: "PHYSTOP = 0x88000000"
  by (simp add: PHYSTOP_def KERNBASE_def)

lemma TRAMPOLINE_eq: "TRAMPOLINE = 0x3FFFFFF000"
  by (simp add: TRAMPOLINE_def MAXVA_eq PGSIZE_def)

lemma TRAPFRAME_eq: "TRAPFRAME = 0x3FFFFFE000"
  by (simp add: TRAPFRAME_def TRAMPOLINE_eq PGSIZE_def)

section \<open>Page rounding\<close>

definition page_aligned :: "u64 \<Rightarrow> bool" where
  "page_aligned a \<longleftrightarrow> unat a mod 4096 = 0"

lemma page_aligned_mod: "a mod PGSIZE = 0 \<longleftrightarrow> page_aligned a"
  by (simp add: page_aligned_def PGSIZE_def unat_eq_zero [symmetric] unat_mod)

lemma take_bit_unat [simp]: "take_bit 64 (unat (a :: u64)) = unat a"
  using unsigned_less [of a, where ?'a = nat] by (simp add: take_bit_nat_eq_self)

lemma and_not_4095: "a AND NOT 4095 = push_bit 12 (drop_bit 12 (a :: u64))"
proof -
  have "a AND NOT (mask 12) = push_bit 12 (drop_bit 12 a)"
    by (auto intro!: bit_word_eqI simp: bit_simps)
  then show ?thesis by (simp add: mask_eq_exp_minus_1)
qed

lemma PGROUNDDOWN_shift: "PGROUNDDOWN a = push_bit 12 (drop_bit 12 a)"
  using and_not_4095 [of a] by (simp add: PGROUNDDOWN_def PGSIZE_def)

lemma unat_PGROUNDDOWN: "unat (PGROUNDDOWN a) = unat a div 4096 * 4096"
proof -
  have "unat (push_bit 12 (drop_bit 12 a)) = take_bit 64 (push_bit 12 (drop_bit 12 (unat a)))"
    by (simp only: unsigned_push_bit_eq unsigned_drop_bit_eq) simp
  then have "unat (push_bit 12 (drop_bit 12 a)) = take_bit 64 (unat a div 4096 * 4096)"
    by (simp only: push_bit_eq_mult drop_bit_eq_div) simp
  moreover have "unat a div 4096 * 4096 < 2 ^ 64"
    using unsigned_less [of a, where ?'a = nat] by simp
  ultimately show ?thesis
    by (simp add: PGROUNDDOWN_shift take_bit_eq_mod)
qed

lemma page_aligned_PGROUNDDOWN [simp]: "page_aligned (PGROUNDDOWN a)"
  by (simp add: page_aligned_def unat_PGROUNDDOWN)

lemma PGROUNDDOWN_le: "PGROUNDDOWN a \<le> a"
  by (simp add: word_le_nat_alt unat_PGROUNDDOWN)

lemma PGROUNDDOWN_aligned: "page_aligned a \<Longrightarrow> PGROUNDDOWN a = a"
  using div_mult_mod_eq [of "unat a" 4096]
  by (simp add: word_unat_eq_iff unat_PGROUNDDOWN page_aligned_def)

lemma PGROUNDUP_alt: "PGROUNDUP sz = PGROUNDDOWN (sz + 4095)"
  by (simp add: PGROUNDUP_def PGROUNDDOWN_def PGSIZE_def algebra_simps)

lemma page_aligned_PGROUNDUP [simp]: "page_aligned (PGROUNDUP a)"
  by (simp add: PGROUNDUP_alt)

lemma unat_PGROUNDUP:
  "unat sz + 4095 < 2 ^ 64 \<Longrightarrow> unat (PGROUNDUP sz) = (unat sz + 4095) div 4096 * 4096"
  by (simp add: PGROUNDUP_alt unat_PGROUNDDOWN unat_word_ariths)

section \<open>Page table entries\<close>

lemma take_bit_10_small: "(flags :: u64) < 1024 \<Longrightarrow> take_bit 10 flags = flags"
  by (simp add: word_unat_eq_iff unsigned_take_bit_eq take_bit_nat_eq_self word_less_nat_alt
      del: take_bit_word_eq_self take_bit_eq_mod)

lemma PTE2PA_PA2PTE:
  assumes "page_aligned pa" and "flags < 1024"
  shows "PTE2PA (PA2PTE pa OR flags) = pa"
proof -
  have fl: "\<not> bit flags n" if "10 \<le> n" for n
    using take_bit_10_small [OF assms(2)] that by (metis bit_take_bit_iff not_le)
  have "PTE2PA (PA2PTE pa OR flags) = push_bit 12 (drop_bit 12 pa)"
    by (rule bit_word_eqI) (auto simp: PTE2PA_def PA2PTE_def bit_simps fl)
  also have "\<dots> = pa"
    using PGROUNDDOWN_aligned [OF assms(1)] by (simp add: PGROUNDDOWN_shift)
  finally show ?thesis .
qed

lemma PTE_FLAGS_PA2PTE:
  assumes "flags < 1024"
  shows "PTE_FLAGS (PA2PTE pa OR flags) = flags"
proof -
  have m: "(0x3FF :: u64) = mask 10" by (simp add: mask_eq_exp_minus_1)
  have fl: "flags = take_bit 10 flags"
    using take_bit_10_small [OF assms] by simp
  have "PTE_FLAGS (PA2PTE pa OR flags) = take_bit 10 flags"
    by (rule bit_word_eqI) (auto simp: PTE_FLAGS_def m PA2PTE_def bit_simps)
  with fl show ?thesis by simp
qed

lemma page_aligned_PTE2PA [simp]: "page_aligned (PTE2PA pte)"
proof -
  have "PTE2PA pte = push_bit 12 (drop_bit 12 (PTE2PA pte))"
    by (rule bit_word_eqI) (auto simp: PTE2PA_def bit_simps)
  then have "PTE2PA pte = PGROUNDDOWN (PTE2PA pte)" by (simp add: PGROUNDDOWN_shift)
  then show ?thesis by (metis page_aligned_PGROUNDDOWN)
qed

section \<open>The indices of a virtual address\<close>

lemma unat_PX: "unat (PX l va) = unat va div 2 ^ (12 + 9 * l) mod 512"
proof -
  have m: "(0x1FF :: u64) = mask 9" by (simp add: mask_eq_exp_minus_1)
  have "PX l va = take_bit 9 (drop_bit (12 + 9 * l) va)"
    by (simp add: PX_def m take_bit_eq_mask)
  then have "unat (PX l va) = take_bit 9 (drop_bit (12 + 9 * l) (unat va))"
    by (simp only: unsigned_take_bit_eq unsigned_drop_bit_eq) simp
  then show ?thesis
    by (simp only: take_bit_eq_mod drop_bit_eq_div) simp
qed

lemma PX_less: "unat (PX l va) < 512"
  by (simp add: unat_PX)

text \<open>
  Below MAXVA the three indices determine the page of a virtual address, so two
  addresses share a page table slot only when they lie in the same page.
\<close>

lemma PX_page_inj:
  assumes "va < MAXVA" "vb < MAXVA"
    and "PX 2 va = PX 2 vb" "PX 1 va = PX 1 vb" "PX 0 va = PX 0 vb"
  shows "PGROUNDDOWN va = PGROUNDDOWN vb"
proof -
  have b: "unat va < 2 ^ 38" "unat vb < 2 ^ 38"
    using assms(1,2) by (auto simp: word_less_nat_alt MAXVA_eq)
  have e: "unat va div 2 ^ 30 mod 512 = unat vb div 2 ^ 30 mod 512"
    "unat va div 2 ^ 21 mod 512 = unat vb div 2 ^ 21 mod 512"
    "unat va div 2 ^ 12 mod 512 = unat vb div 2 ^ 12 mod 512"
    using arg_cong [OF assms(3), of unat] arg_cong [OF assms(4), of unat]
      arg_cong [OF assms(5), of unat]
    by (simp_all add: unat_PX)
  have dec: "x div 4096 = (x div 2 ^ 30 mod 512) * 262144 + (x div 2 ^ 21 mod 512) * 512
      + x div 2 ^ 12 mod 512" if "x < 2 ^ 38" for x :: nat
  proof -
    define y where "y = x div 4096"
    have d: "x div 2 ^ 21 = y div 512" "x div 2 ^ 30 = y div 512 div 512" "x div 2 ^ 12 = y"
      by (simp_all add: y_def div_mult2_eq [symmetric])
    have "y div 512 div 512 < 512" using that by (simp add: y_def div_mult2_eq [symmetric] less_mult_imp_div_less)
    moreover have "y = y div 512 div 512 * 262144 + y div 512 mod 512 * 512 + y mod 512"
      using div_mult_mod_eq [of y 512] div_mult_mod_eq [of "y div 512" 512] by linarith
    ultimately show ?thesis by (simp only: d) (simp add: y_def)
  qed
  have "unat va div 4096 = unat vb div 4096"
    using dec [OF b(1)] dec [OF b(2)] e by simp
  then show ?thesis by (simp add: word_unat_eq_iff unat_PGROUNDDOWN)
qed

lemma PX_PGROUNDDOWN: "PX l (PGROUNDDOWN va) = PX l va"
proof -
  have "drop_bit (12 + 9 * l) (PGROUNDDOWN va) = drop_bit (12 + 9 * l) va"
    by (rule bit_word_eqI)
      (auto simp: PGROUNDDOWN_shift bit_simps ac_simps dest: bit_imp_le_length)
  then show ?thesis by (simp add: PX_def)
qed

end
