(* ===== verification/Memory.thy ===== *)
theory Memory
  imports Riscv
begin

text \<open>
  Physical memory as the kernel sees it through its direct map: a function from 64-bit
  addresses to bytes, read and written as little-endian 64-bit words (page table entries,
  the link of the free list) or as runs of bytes (user data, page fills). The locale
  \<open>word_store\<close> is the contract between this layer and the code that keeps linked
  structures in memory.
\<close>

type_synonym mem = "u64 \<Rightarrow> u8"

section \<open>Words in memory\<close>

definition ld64 :: "mem \<Rightarrow> u64 \<Rightarrow> u64" where
  "ld64 m a =
     ucast (m a) OR push_bit 8 (ucast (m (a + 1)) OR push_bit 8 (ucast (m (a + 2)) OR
     push_bit 8 (ucast (m (a + 3)) OR push_bit 8 (ucast (m (a + 4)) OR
     push_bit 8 (ucast (m (a + 5)) OR push_bit 8 (ucast (m (a + 6)) OR
     push_bit 8 (ucast (m (a + 7)))))))))"

definition st64 :: "mem \<Rightarrow> u64 \<Rightarrow> u64 \<Rightarrow> mem" where
  "st64 m a v = m(a := ucast v, a + 1 := ucast (drop_bit 8 v), a + 2 := ucast (drop_bit 16 v),
     a + 3 := ucast (drop_bit 24 v), a + 4 := ucast (drop_bit 32 v),
     a + 5 := ucast (drop_bit 40 v), a + 6 := ucast (drop_bit 48 v),
     a + 7 := ucast (drop_bit 56 v))"

definition word_aligned :: "u64 \<Rightarrow> bool" where
  "word_aligned a \<longleftrightarrow> unat a mod 8 = 0"

lemma low_byte_split: "ucast (ucast v :: u8) OR push_bit 8 (drop_bit 8 v) = (v :: u64)"
  by (rule bit_word_eqI) (auto simp: bit_simps, metis le_add_diff_inverse not_le_imp_less)

lemma high_byte: "ucast (ucast (drop_bit 56 v) :: u8) = drop_bit 56 (v :: u64)"
  by (rule bit_word_eqI) (auto simp: bit_simps dest: bit_imp_le_length)

lemma ld64_st64_same: "ld64 (st64 m a v) a = v"
proof -
  have split: "ucast (ucast (drop_bit k v) :: u8) OR push_bit 8 (drop_bit (8 + k) v) = drop_bit k v"
    for k using low_byte_split [of "drop_bit k v"] by simp
  show ?thesis
    using low_byte_split [of v] split [of 8] split [of 16] split [of 24] split [of 32]
      split [of 40] split [of 48]
    by (simp add: ld64_def st64_def high_byte)
qed

lemma unat_add_small:
  fixes a :: u64
  assumes "unat a mod 8 = 0" and "j < 8"
  shows "unat (a + of_nat j) = unat a + j"
proof -
  have "unat a + 8 \<le> 2 ^ 64"
    using unsigned_less [of a, where ?'a = nat] assms(1)
    by (intro aligned_room) (simp_all add: dvd_eq_mod_eq_0)
  with assms(2) have "unat a + j < 2 ^ 64" by linarith
  with assms(2) show ?thesis by (simp add: unat_word_ariths unat_of_nat)
qed

lemma word_bytes_disjoint:
  assumes "word_aligned a" "word_aligned b" "a \<noteq> b" "i < 8" "j < 8"
  shows "a + of_nat i \<noteq> b + of_nat j"
proof
  assume "a + of_nat i = b + of_nat j"
  then have e: "unat a + i = unat b + j"
    using assms unat_add_small [of a i] unat_add_small [of b j]
    by (auto simp: word_aligned_def)
  have "unat a mod 8 = 0" "unat b mod 8 = 0" using assms(1,2) by (simp_all add: word_aligned_def)
  with e assms(4,5) have "i = j" by presburger
  with e assms(3) show False by (simp add: word_unat_eq_iff)
qed

lemma ld64_cong:
  "(\<And>i. i < 8 \<Longrightarrow> m (a + of_nat i) = m' (a + of_nat i)) \<Longrightarrow> ld64 m a = ld64 m' a"
proof -
  assume h: "\<And>i. i < 8 \<Longrightarrow> m (a + of_nat i) = m' (a + of_nat i)"
  show ?thesis
    using h [of 0] h [of 1] h [of 2] h [of 3] h [of 4] h [of 5] h [of 6] h [of 7]
    by (simp add: ld64_def)
qed

lemma st64_byte:
  assumes "\<And>i. i < 8 \<Longrightarrow> x \<noteq> a + of_nat i"
  shows "st64 m a v x = m x"
  using assms [of 0] assms [of 1] assms [of 2] assms [of 3] assms [of 4] assms [of 5]
    assms [of 6] assms [of 7]
  by (simp add: st64_def)

lemma st64_local: "m x = m' x \<Longrightarrow> st64 m a v x = st64 m' a v x"
  by (simp add: st64_def)

lemma ld64_st64_other:
  assumes "word_aligned a" "word_aligned b" "a \<noteq> b"
  shows "ld64 (st64 m a v) b = ld64 m b"
proof (rule ld64_cong)
  fix i :: nat assume "i < 8"
  show "st64 m a v (b + of_nat i) = m (b + of_nat i)"
    by (rule st64_byte) (metis \<open>i < 8\<close> assms word_bytes_disjoint)
qed

locale word_store =
  fixes ld :: "'m \<Rightarrow> 'a \<Rightarrow> 'v" and st :: "'m \<Rightarrow> 'a \<Rightarrow> 'v \<Rightarrow> 'm" and ok :: "'a \<Rightarrow> bool"
  assumes ld_st_same: "ok a \<Longrightarrow> ld (st m a v) a = v"
    and ld_st_other: "ok a \<Longrightarrow> ok b \<Longrightarrow> a \<noteq> b \<Longrightarrow> ld (st m a v) b = ld m b"
begin

lemma ld_st: "ok a \<Longrightarrow> ok b \<Longrightarrow> ld (st m a v) b = (if a = b then v else ld m b)"
  by (simp add: ld_st_same ld_st_other)

lemma ld_st_st: "ok a \<Longrightarrow> ok b \<Longrightarrow> ld (st (st m a v) a w) b = ld (st m a w) b"
  by (simp add: ld_st)

lemma ld_st_commute:
  "ok a \<Longrightarrow> ok b \<Longrightarrow> ok c \<Longrightarrow> a \<noteq> b \<Longrightarrow>
   ld (st (st m a v) b w) c = ld (st (st m b w) a v) c"
  by (auto simp: ld_st)

end

interpretation pm: word_store ld64 st64 word_aligned
  by unfold_locales (simp_all add: ld64_st64_same ld64_st64_other)

section \<open>Pages and their slots\<close>

text \<open>The address of entry \<open>i\<close> of an array of 64-bit entries: \<^verbatim>\<open>&pagetable[i]\<close>.\<close>

definition entry :: "u64 \<Rightarrow> u64 \<Rightarrow> u64" where
  "entry p i = p + 8 * i"

text \<open>The page an address lies in, and agreement of two memories on a page.\<close>

definition same_page :: "mem \<Rightarrow> mem \<Rightarrow> u64 \<Rightarrow> bool" where
  "same_page m m' p \<longleftrightarrow> (\<forall>a. PGROUNDDOWN a = p \<longrightarrow> m a = m' a)"

lemma same_pageI: "(\<And>a. PGROUNDDOWN a = p \<Longrightarrow> m a = m' a) \<Longrightarrow> same_page m m' p"
  by (simp add: same_page_def)

lemma same_page_refl [simp]: "same_page m m p"
  by (simp add: same_page_def)

lemma same_page_trans: "same_page m m' p \<Longrightarrow> same_page m' m'' p \<Longrightarrow> same_page m m'' p"
  by (simp add: same_page_def)

lemma unat_page_room: "page_aligned p \<Longrightarrow> unat p + 4096 \<le> 2 ^ 64"
  using unsigned_less [of p, where ?'a = nat] unfolding page_aligned_def
  by (intro aligned_room) (simp_all add: dvd_eq_mod_eq_0)

lemma unat_page_offset:
  assumes "page_aligned p" and "k < 4096"
  shows "unat (p + of_nat k) = unat p + k"
  using assms unat_page_room [OF assms(1)] by (simp add: unat_word_ariths unat_of_nat)

lemma PGROUNDDOWN_offset:
  assumes "page_aligned p" and "k < 4096"
  shows "PGROUNDDOWN (p + of_nat k) = p"
proof -
  have "unat (PGROUNDDOWN (p + of_nat k)) = (unat p + k) div 4096 * 4096"
    by (simp add: unat_PGROUNDDOWN unat_page_offset assms)
  also have "\<dots> = unat p"
    using assms by (auto simp: page_aligned_def mod_eq_0_iff_dvd)
  finally show ?thesis by (simp add: word_unat_eq_iff)
qed

lemma entry_alt: "unat i < 512 \<Longrightarrow> entry p i = p + of_nat (8 * unat i)"
  by (simp add: entry_def)

lemma PGROUNDDOWN_entry:
  "page_aligned p \<Longrightarrow> unat i < 512 \<Longrightarrow> PGROUNDDOWN (entry p i) = p"
  by (simp only: entry_alt, rule PGROUNDDOWN_offset) auto

lemma word_aligned_entry: "page_aligned p \<Longrightarrow> unat i < 512 \<Longrightarrow> word_aligned (entry p i)"
  unfolding word_aligned_def
  using unat_page_offset [of p "8 * unat i"]
  by (simp add: entry_alt) (auto simp: page_aligned_def mod_eq_0_iff_dvd
      intro: dvd_trans [of 8 4096])

lemma entry_inj:
  assumes "page_aligned p" "page_aligned q" "unat i < 512" "unat j < 512"
  shows "entry p i = entry q j \<longleftrightarrow> p = q \<and> i = j"
proof
  assume e: "entry p i = entry q j"
  then have pq: "p = q" using PGROUNDDOWN_entry assms by metis
  from e have "unat p + 8 * unat i = unat q + 8 * unat j"
    using unat_page_offset [of p "8 * unat i"] unat_page_offset [of q "8 * unat j"] assms
    by (simp add: entry_alt)
  with pq have "unat i = unat j" by simp
  then show "p = q \<and> i = j" using pq by (simp add: word_unat_eq_iff)
qed auto

lemma PGROUNDDOWN_entry_byte:
  assumes "page_aligned p" "unat i < 512" "k < 8"
  shows "PGROUNDDOWN (entry p i + of_nat k) = p"
proof -
  have "entry p i + of_nat k = p + of_nat (8 * unat i + k)"
    using assms by (simp add: entry_alt add.assoc)
  then show ?thesis using assms by (simp only: PGROUNDDOWN_offset)
qed

lemma ld64_same_page:
  assumes "same_page m m' p" "page_aligned p" "unat i < 512"
  shows "ld64 m (entry p i) = ld64 m' (entry p i)"
  by (rule ld64_cong) (use assms PGROUNDDOWN_entry_byte in \<open>auto simp: same_page_def\<close>)

lemma st64_same_page:
  assumes "page_aligned p" "unat i < 512" "p \<noteq> q"
  shows "same_page (st64 m (entry p i) v) m q"
proof (rule same_pageI)
  fix a assume "PGROUNDDOWN a = q"
  then show "st64 m (entry p i) v a = m a"
    using PGROUNDDOWN_entry_byte assms by (intro st64_byte) auto
qed

lemma ld64_st64_entry [mem_simps]:
  "page_aligned p \<Longrightarrow> page_aligned q \<Longrightarrow> unat i < 512 \<Longrightarrow> unat j < 512 \<Longrightarrow>
   ld64 (st64 m (entry p i) v) (entry q j) = (if p = q \<and> i = j then v else ld64 m (entry q j))"
  by (simp add: pm.ld_st word_aligned_entry entry_inj)

lemma entry_0 [simp]: "entry p 0 = p"
  by (simp add: entry_def)

lemma ld64_st64_page [mem_simps]:
  "page_aligned p \<Longrightarrow> page_aligned q \<Longrightarrow> ld64 (st64 m p v) q = (if p = q then v else ld64 m q)"
  using ld64_st64_entry [of p q 0 0 m v] by simp

end
