(* ===== verification/Kstring.thy ===== *)
theory Kstring
  imports Memory
begin

text \<open>
  \<^verbatim>\<open>kernel/string.c\<close>: the byte and string routines, as functions of the memory they
  read and write. A loop that counts \<^verbatim>\<open>n\<close> down is recursion on the count;
  \<^verbatim>\<open>strlen\<close>, which has no bound, is a partial function. Each routine is shown equal
  to the one-shot description of its effect that the rest of the kernel relies on.
\<close>

section \<open>The routines\<close>

fun memset_loop :: "mem \<Rightarrow> u64 \<Rightarrow> u8 \<Rightarrow> nat \<Rightarrow> mem" where
  "memset_loop m dst c 0 = m"
| "memset_loop m dst c (Suc n) = memset_loop (m(dst := c)) (dst + 1) c n"

definition memset :: "mem \<Rightarrow> u64 \<Rightarrow> u32 \<Rightarrow> u32 \<Rightarrow> mem" where
  "memset m dst c n = memset_loop m dst (ucast c) (unat n)"

fun memcmp_loop :: "mem \<Rightarrow> u64 \<Rightarrow> u64 \<Rightarrow> nat \<Rightarrow> int" where
  "memcmp_loop m s1 s2 0 = 0"
| "memcmp_loop m s1 s2 (Suc n) =
     (if m s1 \<noteq> m s2 then uint (m s1) - uint (m s2)
      else memcmp_loop m (s1 + 1) (s2 + 1) n)"

definition memcmp :: "mem \<Rightarrow> u64 \<Rightarrow> u64 \<Rightarrow> u32 \<Rightarrow> int" where
  "memcmp m v1 v2 n = memcmp_loop m v1 v2 (unat n)"

fun copy_fwd :: "mem \<Rightarrow> u64 \<Rightarrow> u64 \<Rightarrow> nat \<Rightarrow> mem" where
  "copy_fwd m d s 0 = m"
| "copy_fwd m d s (Suc n) = copy_fwd (m(d := m s)) (d + 1) (s + 1) n"

fun copy_bwd :: "mem \<Rightarrow> u64 \<Rightarrow> u64 \<Rightarrow> nat \<Rightarrow> mem" where
  "copy_bwd m d s 0 = m"
| "copy_bwd m d s (Suc n) = copy_bwd (m(d - 1 := m (s - 1))) (d - 1) (s - 1) n"

definition memmove :: "mem \<Rightarrow> u64 \<Rightarrow> u64 \<Rightarrow> u32 \<Rightarrow> mem" where
  "memmove m dst src n =
     (if n = 0 then m
      else if src < dst \<and> src + ucast n > dst
      then copy_bwd m (dst + ucast n) (src + ucast n) (unat n)
      else copy_fwd m dst src (unat n))"

definition memcpy :: "mem \<Rightarrow> u64 \<Rightarrow> u64 \<Rightarrow> u32 \<Rightarrow> mem" where
  "memcpy m dst src n = memmove m dst src n"

fun strncmp_loop :: "mem \<Rightarrow> u64 \<Rightarrow> u64 \<Rightarrow> nat \<Rightarrow> int" where
  "strncmp_loop m p q 0 = 0"
| "strncmp_loop m p q (Suc n) =
     (if m p \<noteq> 0 \<and> m p = m q then strncmp_loop m (p + 1) (q + 1) n
      else uint (m p) - uint (m q))"

definition strncmp :: "mem \<Rightarrow> u64 \<Rightarrow> u64 \<Rightarrow> u32 \<Rightarrow> int" where
  "strncmp m p q n = strncmp_loop m p q (unat n)"

fun strncpy_loop :: "mem \<Rightarrow> u64 \<Rightarrow> u64 \<Rightarrow> nat \<Rightarrow> mem" where
  "strncpy_loop m s t 0 = m"
| "strncpy_loop m s t (Suc n) =
     (let m' = m(s := m t)
      in if m t \<noteq> 0 then strncpy_loop m' (s + 1) (t + 1) n
         else memset_loop m' (s + 1) 0 n)"

definition strncpy :: "mem \<Rightarrow> u64 \<Rightarrow> u64 \<Rightarrow> int \<Rightarrow> mem" where
  "strncpy m s t n = strncpy_loop m s t (nat n)"

fun safestrcpy_loop :: "mem \<Rightarrow> u64 \<Rightarrow> u64 \<Rightarrow> nat \<Rightarrow> mem" where
  "safestrcpy_loop m s t 0 = m(s := 0)"
| "safestrcpy_loop m s t (Suc n) =
     (let m' = m(s := m t)
      in if m t \<noteq> 0 then safestrcpy_loop m' (s + 1) (t + 1) n else m'(s + 1 := 0))"

definition safestrcpy :: "mem \<Rightarrow> u64 \<Rightarrow> u64 \<Rightarrow> int \<Rightarrow> mem" where
  "safestrcpy m s t n = (if n \<le> 0 then m else safestrcpy_loop m s t (nat n - 1))"

partial_function (option) strlen_from :: "mem \<Rightarrow> u64 \<Rightarrow> nat \<Rightarrow> nat option" where
  "strlen_from m s n = (if m (s + of_nat n) = 0 then Some n else strlen_from m s (Suc n))"

definition strlen :: "mem \<Rightarrow> u64 \<Rightarrow> nat option" where
  "strlen m s = strlen_from m s 0"

section \<open>Offsets within a run of bytes\<close>

text \<open>
  \<open>off a d\<close> is the distance of \<open>a\<close> above \<open>d\<close>; a run of \<open>n\<close> bytes at \<open>d\<close> is
  the set of \<open>a\<close> with \<open>off a d < n\<close>.
\<close>

definition off :: "u64 \<Rightarrow> u64 \<Rightarrow> nat" where
  "off a d = unat (a - d)"

lemma off_add [simp]: "off (d + x) d = unat x"
  by (simp add: off_def)

lemma off_self [simp]: "off d d = 0"
  by (simp add: off_def)

lemma off_eq_0 [simp]: "off a d = 0 \<longleftrightarrow> a = d"
  by (simp add: off_def unat_eq_zero)

lemma off_add_back [simp]: "d + of_nat (off a d) = a"
  by (simp add: off_def)

lemma off_less: "off a d < 2 ^ 64"
  unfolding off_def using unsigned_less [of "a - d", where ?'a = nat] by simp

lemma off_Suc: "a \<noteq> d \<Longrightarrow> off a d = Suc (off a (d + 1))"
proof -
  assume "a \<noteq> d"
  then have nz: "a - d \<noteq> 0" by simp
  have "a - (d + 1) = (a - d) - 1" by simp
  then have "off a (d + 1) = unat (a - d) - 1"
    unfolding off_def using nz unat_minus_one by metis
  moreover have "unat (a - d) \<noteq> 0" using nz by (simp only: unat_eq_zero not_False_eq_True)
  ultimately show ?thesis by (simp add: off_def)
qed

lemma off_step:
  "n < 2 ^ 64 \<Longrightarrow> (off a d < Suc n) \<longleftrightarrow> (a = d \<or> (off a (d + 1) < n \<and> a \<noteq> d))"
  by (cases "a = d") (simp_all add: off_Suc [of a d])

lemma off_last: "off d (d + 1) = 2 ^ 64 - 1"
  by (simp add: off_def unsigned_minus_1_eq_mask mask_eq_exp_minus_1)

section \<open>memset\<close>

lemma memset_loop_eq:
  "n < 2 ^ 64 \<Longrightarrow> memset_loop m dst c n = (\<lambda>a. if off a dst < n then c else m a)"
proof (induction n arbitrary: m dst)
  case 0
  then show ?case by simp
next
  case (Suc n)
  then have IH: "memset_loop (m(dst := c)) (dst + 1) c n =
      (\<lambda>a. if off a (dst + 1) < n then c else (m(dst := c)) a)" by simp
  show ?case
    by (rule ext) (use Suc.prems in \<open>simp add: IH off_step off_last\<close>)
qed

lemma memset_eq: "memset m dst c n = (\<lambda>a. if off a dst < unat n then ucast c else m a)"
  unfolding memset_def
  by (rule memset_loop_eq) (use unsigned_less [of n, where ?'a = nat] in simp)

section \<open>memmove\<close>

text \<open>Copying upwards is right when no byte is written before it is read.\<close>

lemma copy_fwd_eq:
  assumes "n < 2 ^ 64"
    and "\<And>i j. i < j \<Longrightarrow> j < n \<Longrightarrow> d + of_nat i \<noteq> s + of_nat j"
  shows "copy_fwd m d s n = (\<lambda>a. if off a d < n then m (s + (a - d)) else m a)"
  using assms
proof (induction n arbitrary: m d s)
  case 0
  then show ?case by simp
next
  case (Suc n)
  have "d + 1 + of_nat i \<noteq> s + 1 + of_nat j" if "i < j" "j < n" for i j
    using Suc.prems(2) [of "Suc i" "Suc j"] that by (simp add: ac_simps)
  then have IH: "copy_fwd (m(d := m s)) (d + 1) (s + 1) n =
      (\<lambda>a. if off a (d + 1) < n then (m(d := m s)) (s + 1 + (a - (d + 1))) else (m(d := m s)) a)"
    using Suc.prems(1) by (intro Suc.IH) simp_all
  have src: "s + 1 + (a - (d + 1)) \<noteq> d" if "off a (d + 1) < n" for a
    using Suc.prems(2) [of 0 "Suc (off a (d + 1))"] that by (auto simp: off_def ac_simps)
  show ?case
  proof (rule ext)
    fix a
    show "copy_fwd m d s (Suc n) a = (if off a d < Suc n then m (s + (a - d)) else m a)"
    proof (cases "a = d")
      case True
      then show ?thesis using Suc.prems(1) by (simp add: IH off_last)
    next
      case False
      have e: "s + 1 + (a - (d + 1)) = s + (a - d)" by simp
      from False show ?thesis using src [of a] by (simp add: IH e off_Suc [of a d])
    qed
  qed
qed

lemma copy_bwd_snoc:
  "copy_bwd m (d + 1 + of_nat n) (s + 1 + of_nat n) (Suc n) =
   copy_bwd (m(d + of_nat n := m (s + of_nat n))) (d + of_nat n) (s + of_nat n) n"
  by simp

lemma copy_bwd_eq:
  assumes "n < 2 ^ 64"
    and "\<And>i j. i < j \<Longrightarrow> j < n \<Longrightarrow> s + of_nat i \<noteq> d + of_nat j"
  shows "copy_bwd m (d + of_nat n) (s + of_nat n) n =
    (\<lambda>a. if off a d < n then m (s + (a - d)) else m a)"
  using assms
proof (induction n arbitrary: m)
  case 0
  then show ?case by simp
next
  case (Suc n)
  let ?m = "m(d + of_nat n := m (s + of_nat n))"
  have IH: "copy_bwd ?m (d + of_nat n) (s + of_nat n) n =
      (\<lambda>a. if off a d < n then ?m (s + (a - d)) else ?m a)"
    using Suc by simp
  have nn: "unat (of_nat n :: u64) = n" using Suc.prems(1) by (simp add: unat_of_nat)
  have src: "s + (a - d) \<noteq> d + of_nat n" if "off a d < n" for a
    using Suc.prems(2) [of "off a d" n] that by (simp add: off_def)
  have "copy_bwd m (d + of_nat (Suc n)) (s + of_nat (Suc n)) (Suc n) =
      (\<lambda>a. if off a d < n then ?m (s + (a - d)) else ?m a)"
    using copy_bwd_snoc [of m d n s] IH by (simp add: ac_simps)
  moreover have "(off a d < Suc n) \<longleftrightarrow> off a d < n \<or> a = d + of_nat n" for a
    using nn by (metis off_add less_Suc_eq off_add_back)
  ultimately show ?case using src nn by (auto simp: fun_eq_iff)
qed

text \<open>
  Claim-level statement: whichever way the two ranges overlap, memmove behaves as a
  simultaneous copy.
\<close>

lemma memmove_eq:
  assumes "unat dst + unat n \<le> 2 ^ 64" and "unat src + unat n \<le> 2 ^ 64"
  shows "memmove m dst src n = (\<lambda>a. if off a dst < unat n then m (src + (a - dst)) else m a)"
proof -
  have n64: "unat n < 2 ^ 64" using unsigned_less [of n, where ?'a = nat] by simp
  have un: "unat (x + of_nat i) = unat x + i" if "unat x + unat n \<le> 2 ^ 64" "i < unat n"
    for x :: u64 and i
    using that by (simp add: unat_word_ariths unat_of_nat)
  have c: "ucast n = (of_nat (unat n) :: u64)" by simp
  have cn: "unat (ucast n :: u64) = unat n" using n64 by (simp only: c unat_of_nat) simp
  show ?thesis
  proof (cases "src < dst \<and> src + ucast n > dst")
    case True
    have "src + of_nat i \<noteq> dst + of_nat j" if "i < j" "j < unat n" for i j
    proof
      assume "src + of_nat i = dst + of_nat j"
      then have "unat src + i = unat dst + j" using un [of src i] un [of dst j] that assms by simp
      with True that show False by (simp add: word_less_nat_alt)
    qed
    then have "copy_bwd m (dst + of_nat (unat n)) (src + of_nat (unat n)) (unat n) =
        (\<lambda>a. if off a dst < unat n then m (src + (a - dst)) else m a)"
      by (rule copy_bwd_eq [OF n64])
    with True show ?thesis by (auto simp: memmove_def fun_eq_iff)
  next
    case False
    have "dst + of_nat i \<noteq> src + of_nat j" if "i < j" "j < unat n" for i j
    proof
      assume "dst + of_nat i = src + of_nat j"
      then have e: "unat dst + i = unat src + j" using un [of src j] un [of dst i] that assms by simp
      then have lt: "src < dst" using that by (simp add: word_less_nat_alt)
      have "unat src + unat n < 2 ^ 64 \<Longrightarrow> src + ucast n > dst"
        using e that by (simp add: word_less_nat_alt unat_word_ariths cn)
      with False lt have "unat src + unat n = 2 ^ 64" using assms(2) by linarith
      with e that assms(1) show False by linarith
    qed
    then have "copy_fwd m dst src (unat n) =
        (\<lambda>a. if off a dst < unat n then m (src + (a - dst)) else m a)"
      by (rule copy_fwd_eq [OF n64])
    with False show ?thesis by (auto simp: memmove_def fun_eq_iff)
  qed
qed

section \<open>Whole pages\<close>

lemma off_page: "page_aligned p \<Longrightarrow> off a p < 4096 \<longleftrightarrow> PGROUNDDOWN a = p"
proof
  assume "page_aligned p" "off a p < 4096"
  then show "PGROUNDDOWN a = p" using PGROUNDDOWN_offset [of p "off a p"] by simp
next
  assume p: "PGROUNDDOWN a = p"
  then have "unat p = unat a div 4096 * 4096" by (metis unat_PGROUNDDOWN)
  moreover have "p \<le> a" using p PGROUNDDOWN_le by blast
  ultimately show "off a p < 4096"
    unfolding off_def by (simp add: unat_sub minus_div_mult_eq_mod)
qed

lemma memset_page [mem_simps]:
  "page_aligned p \<Longrightarrow> memset m p c 4096 a = (if PGROUNDDOWN a = p then ucast c else m a)"
  by (simp add: memset_eq off_page)

lemma memset_page_other: "page_aligned p \<Longrightarrow> p \<noteq> q \<Longrightarrow> same_page (memset m p c 4096) m q"
  by (auto simp: same_page_def memset_page)

lemma ld64_zero_page:
  assumes "page_aligned p" "unat i < 512"
  shows "ld64 (memset m p 0 4096) (entry p i) = 0"
proof -
  have "memset m p 0 4096 (entry p i + of_nat k) = 0" if "k < 8" for k
    using assms that by (simp add: memset_page PGROUNDDOWN_entry_byte)
  then have "ld64 (memset m p 0 4096) (entry p i) = ld64 (\<lambda>_. 0) (entry p i)"
    by (intro ld64_cong) simp
  then show ?thesis by (simp add: ld64_def)
qed

lemma memmove_page [mem_simps]:
  assumes "page_aligned dst" "page_aligned src"
  shows "memmove m dst src 4096 a = (if PGROUNDDOWN a = dst then m (src + (a - dst)) else m a)"
  using memmove_eq [of dst 4096 src m] unat_page_room [OF assms(1)] unat_page_room [OF assms(2)]
  by (simp add: off_page assms)

section \<open>The string routines\<close>

lemma memcmp_loop_zero:
  "memcmp_loop m s1 s2 n = 0 \<longleftrightarrow> (\<forall>i<n. m (s1 + of_nat i) = m (s2 + of_nat i))"
proof (induction n arbitrary: s1 s2)
  case (Suc n)
  show ?case
    by (auto simp: Suc.IH All_less_Suc2 add.assoc word_uint_eq_iff)
qed simp

lemma safestrcpy_loop_frame:
  "n < off a s \<Longrightarrow> safestrcpy_loop m s t n a = m a"
proof (induction n arbitrary: m s t)
  case 0
  then show ?case by auto
next
  case (Suc n)
  then have ne: "a \<noteq> s" by auto
  then have "n < off a (s + 1)" using Suc.prems off_Suc [of a s] by simp
  moreover have "a \<noteq> s + 1" using calculation by auto
  ultimately show ?case using ne by (simp add: Suc.IH Let_def)
qed

lemma safestrcpy_loop_nul: "\<exists>k\<le>n. safestrcpy_loop m s t n (s + of_nat k) = 0"
proof (induction n arbitrary: m s t)
  case (Suc n)
  show ?case
  proof (cases "m t = 0")
    case True
    then show ?thesis by (intro exI [of _ 1]) simp
  next
    case False
    obtain k where "k \<le> n" "safestrcpy_loop (m(s := m t)) (s + 1) (t + 1) n (s + 1 + of_nat k) = 0"
      using Suc.IH by blast
    with False show ?thesis by (intro exI [of _ "Suc k"]) (simp add: ac_simps)
  qed
qed simp

lemma strncpy_loop_frame: "n \<le> off a s \<Longrightarrow> n < 2 ^ 64 \<Longrightarrow> strncpy_loop m s t n a = m a"
proof (induction n arbitrary: m s t)
  case (Suc n)
  then have ne: "a \<noteq> s" by auto
  then have "n \<le> off a (s + 1)" using Suc.prems(1) off_Suc [of a s] by simp
  with ne Suc show ?case by (simp add: Let_def memset_loop_eq)
qed simp

text \<open>
  C25. memmove of \<open>n\<close> bytes leaves in the destination exactly the bytes the source held
  before the call, whichever way the two ranges overlap, and changes no other byte.
\<close>

theorem memmove_simultaneous:
  assumes "unat dst + unat n \<le> 2 ^ 64" and "unat src + unat n \<le> 2 ^ 64"
  shows "\<forall>a. memmove m dst src n a = (if unat (a - dst) < unat n then m (src + (a - dst)) else m a)"
  using memmove_eq [OF assms, of m] by (simp add: off_def)

theorem memmove_simultaneous_witness:
  "\<forall>a. memmove (\<lambda>x. ucast x) 0x1002 0x1000 5 a =
     (if unat (a - 0x1002) < unat (5 :: u32) then ucast (0x1000 + (a - 0x1002)) else ucast a)"
  by (rule memmove_simultaneous) simp_all

text \<open>
  C26. safestrcpy with a positive size leaves a NUL within the first \<open>n\<close> bytes of the
  destination and writes nothing beyond them, whatever the source holds.
\<close>

theorem safestrcpy_terminates:
  assumes "0 < n"
  shows "(\<exists>k<nat n. safestrcpy m s t n (s + of_nat k) = 0) \<and>
    (\<forall>a. nat n \<le> unat (a - s) \<longrightarrow> safestrcpy m s t n a = m a)"
proof -
  obtain k where "k \<le> nat n - 1" "safestrcpy_loop m s t (nat n - 1) (s + of_nat k) = 0"
    using safestrcpy_loop_nul by blast
  then have "\<exists>k<nat n. safestrcpy m s t n (s + of_nat k) = 0"
    using assms by (auto simp: safestrcpy_def intro!: exI [of _ k])
  then show ?thesis
    using assms by (auto simp: safestrcpy_def off_def intro: safestrcpy_loop_frame)
qed

theorem safestrcpy_terminates_witness:
  "(0 :: int) < 16 \<and> (\<exists>k<nat 16. safestrcpy (\<lambda>_. 65) 0x2000 0x3000 16 (0x2000 + of_nat k) = 0) \<and>
    safestrcpy (\<lambda>_. 65) 0x2000 0x3000 16 0x2010 = 65"
  using safestrcpy_terminates [where n = 16 and m = "\<lambda>_. 65" and s = "0x2000" and t = "0x3000"]
  by simp

end
