(* ===== verification/Spinlock.thy ===== *)
theory Spinlock
  imports Kstring
begin

text \<open>
  The machine the kernel runs on (harts with their supervisor registers, the per-CPU
  structures of \<^verbatim>\<open>kernel/proc.h\<close>, physical memory) and
  \<^verbatim>\<open>kernel/spinlock.c\<close>. The kernel's locks are named by the datatype
  \<open>lockid\<close>, one name per lock variable of the source, and kept in one table.

  The routines are written for the hart that executes them (\<open>tp\<close>); \<open>acquire\<close> of a
  lock that somebody holds does not come back, since no other hart runs in between. The
  interleaving of several harts is the subject of the step relation at the end of the
  theory, which has mutual exclusion as its invariant.
\<close>

section \<open>State\<close>

text \<open>The supervisor registers of a hart that the kernel reads or writes.\<close>

record hart =
  sstatus :: u64
  sip :: u64
  sepc :: u64
  stvec :: u64
  satp :: u64
  scause :: u64
  stval :: u64

text \<open>
  \<^verbatim>\<open>struct cpu\<close>; a process is named by its index in the process table. The saved
  context of the scheduler, which only the assembly routine swtch uses, is not kept.
\<close>

record cpu =
  proc :: "nat option"
  noff :: int
  intena :: bool

record spinlock =
  locked :: u32
  name :: string
  holder :: "nat option" \<comment> \<open>the field cpu: the number of the hart that holds the lock\<close>

datatype lockid =
    KmemLock | RefLock | PidLock | WaitLock | ProcLock nat | TicksLock
  | ItableLock | FtableLock | LogLock | BcacheLock | PipeLock u64
  | ConsLock | UartTxLock | VdiskLock | PrLock
  | BufSleepLock nat | InodeSleepLock nat

record machine =
  tp :: nat
  harts :: "nat \<Rightarrow> hart"
  cpus :: "nat \<Rightarrow> cpu"
  locks :: "lockid \<Rightarrow> spinlock"
  mem :: mem

section \<open>Interrupts of the executing hart (riscv.h)\<close>

definition cpuid :: "('z machine_scheme, nat) routine" where
  "cpuid = gets tp"

definition intr_get :: "'z machine_scheme \<Rightarrow> bool" where
  "intr_get s \<longleftrightarrow> sstatus (harts s (tp s)) AND SSTATUS_SIE \<noteq> 0"

definition w_sstatus :: "u64 \<Rightarrow> 'z machine_scheme \<Rightarrow> 'z machine_scheme" where
  "w_sstatus x s = s\<lparr>harts := (harts s)(tp s := (harts s (tp s))\<lparr>sstatus := x\<rparr>)\<rparr>"

definition intr_on :: "('z machine_scheme, unit) routine" where
  "intr_on = modify (\<lambda>s. w_sstatus (sstatus (harts s (tp s)) OR SSTATUS_SIE) s)"

definition intr_off :: "('z machine_scheme, unit) routine" where
  "intr_off = modify (\<lambda>s. w_sstatus (sstatus (harts s (tp s)) AND NOT SSTATUS_SIE) s)"

section \<open>spinlock.c\<close>

definition mycpu :: "'z machine_scheme \<Rightarrow> cpu" where
  "mycpu s = cpus s (tp s)"

definition upd_mycpu :: "(cpu \<Rightarrow> cpu) \<Rightarrow> ('z machine_scheme, unit) routine" where
  "upd_mycpu f = modify (\<lambda>s. s\<lparr>cpus := (cpus s)(tp s := f (mycpu s))\<rparr>)"

definition upd_lock :: "lockid \<Rightarrow> (spinlock \<Rightarrow> spinlock) \<Rightarrow> ('z machine_scheme, unit) routine" where
  "upd_lock lk f = modify (\<lambda>s. s\<lparr>locks := (locks s)(lk := f (locks s lk))\<rparr>)"

definition initlock :: "lockid \<Rightarrow> string \<Rightarrow> ('z machine_scheme, unit) routine" where
  "initlock lk n = upd_lock lk (\<lambda>l. l\<lparr>name := n, locked := 0, holder := None\<rparr>)"

definition holding :: "lockid \<Rightarrow> 'z machine_scheme \<Rightarrow> bool" where
  "holding lk s \<longleftrightarrow> locked (locks s lk) \<noteq> 0 \<and> holder (locks s lk) = Some (tp s)"

definition push_off :: "('z machine_scheme, unit) routine" where
  "push_off =
     bind (gets intr_get) (\<lambda>old.
     sq intr_off
     (sq (upd_mycpu (\<lambda>c. if noff c = 0 then c\<lparr>intena := old\<rparr> else c))
         (upd_mycpu (\<lambda>c. c\<lparr>noff := noff c + 1\<rparr>))))"

definition pop_off :: "('z machine_scheme, unit) routine" where
  "pop_off =
     bind (gets intr_get) (\<lambda>on.
     sq (panic_if on ''pop_off - interruptible'')
     (bind (gets mycpu) (\<lambda>c.
     sq (panic_if (noff c < 1) ''pop_off'')
     (sq (upd_mycpu (\<lambda>c. c\<lparr>noff := noff c - 1\<rparr>))
     (bind (gets mycpu) (\<lambda>c.
      if noff c = 0 \<and> intena c then intr_on else ret ()))))))"

text \<open>
  \<^verbatim>\<open>__sync_lock_test_and_set\<close> is an atomic swap. The loop around it ends at once
  when the lock is free and never when it is not: no other hart runs here.
\<close>

definition test_and_set :: "lockid \<Rightarrow> ('z machine_scheme, u32) routine" where
  "test_and_set lk =
     bind (gets (\<lambda>s. locked (locks s lk))) (\<lambda>old.
     sq (upd_lock lk (\<lambda>l. l\<lparr>locked := 1\<rparr>)) (ret old))"

definition acquire :: "lockid \<Rightarrow> ('z machine_scheme, unit) routine" where
  "acquire lk =
     sq push_off
     (bind (gets (holding lk)) (\<lambda>h.
     sq (panic_if h ''acquire'')
     (bind (test_and_set lk) (\<lambda>old.
      if old \<noteq> 0 then diverge
      else bind (gets tp) (\<lambda>c. upd_lock lk (\<lambda>l. l\<lparr>holder := Some c\<rparr>))))))"

definition release :: "lockid \<Rightarrow> ('z machine_scheme, unit) routine" where
  "release lk =
     bind (gets (holding lk)) (\<lambda>h.
     sq (panic_if (\<not> h) ''release'')
     (sq (upd_lock lk (\<lambda>l. l\<lparr>holder := None\<rparr>))
     (sq (upd_lock lk (\<lambda>l. l\<lparr>locked := 0\<rparr>))
         pop_off)))"

section \<open>Laws of the lock routines\<close>

text \<open>
  \<open>enter lk s\<close> is the state in which the executing hart has taken \<open>lk\<close>, and
  \<open>settle s\<close> the state after it has taken and released locks: the same state but for
  the field intena of its CPU, which push_off refreshes. Both commute with the updates of
  every other field, so a critical section is run by rewriting.
\<close>

definition lock_free :: "lockid \<Rightarrow> 'z machine_scheme \<Rightarrow> bool" where
  "lock_free lk s \<longleftrightarrow> locked (locks s lk) = 0 \<and> holder (locks s lk) = None"

definition cpu_ok :: "'z machine_scheme \<Rightarrow> bool" where
  "cpu_ok s \<longleftrightarrow> 0 \<le> noff (mycpu s) \<and> (0 < noff (mycpu s) \<longrightarrow> \<not> intr_get s)"

definition settle :: "'z machine_scheme \<Rightarrow> 'z machine_scheme" where
  "settle s = s\<lparr>cpus := (cpus s)(tp s := (mycpu s)
     \<lparr>intena := if noff (mycpu s) = 0 then intr_get s else intena (mycpu s)\<rparr>)\<rparr>"

definition enter :: "lockid \<Rightarrow> 'z machine_scheme \<Rightarrow> 'z machine_scheme" where
  "enter lk s = (w_sstatus (sstatus (harts s (tp s)) AND NOT SSTATUS_SIE) s)
     \<lparr>cpus := (cpus s)(tp s := (mycpu s)
        \<lparr>intena := if noff (mycpu s) = 0 then intr_get s else intena (mycpu s),
         noff := noff (mycpu s) + 1\<rparr>),
      locks := (locks s)(lk := (locks s lk)\<lparr>locked := 1, holder := Some (tp s)\<rparr>)\<rparr>"

lemma sie_bit: "x AND SSTATUS_SIE \<noteq> 0 \<longleftrightarrow> bit x 1"
proof -
  have "SSTATUS_SIE = 2 ^ 1" by (simp add: SSTATUS_SIE_def)
  then show ?thesis using and_exp_eq_0_iff_not_bit [of x 1] by metis
qed

lemma sie_clear [simp]: "(x AND NOT SSTATUS_SIE) AND SSTATUS_SIE = 0"
  by (simp add: and.assoc)

lemma sie_set [simp]: "(x OR SSTATUS_SIE) AND SSTATUS_SIE \<noteq> 0"
  unfolding sie_bit by (simp add: SSTATUS_SIE_def bit_simps)

lemma sie_clear_set: "x AND SSTATUS_SIE \<noteq> 0 \<Longrightarrow> (x AND NOT SSTATUS_SIE) OR SSTATUS_SIE = x"
  unfolding sie_bit by (rule bit_word_eqI) (auto simp: SSTATUS_SIE_def bit_simps)

lemma sie_clear_id: "x AND SSTATUS_SIE = 0 \<Longrightarrow> x AND NOT SSTATUS_SIE = x"
  using sie_bit [of x] by (intro bit_word_eqI) (auto simp: SSTATUS_SIE_def bit_simps)

lemmas lock_ops = push_off_def pop_off_def acquire_def release_def test_and_set_def
  upd_mycpu_def upd_lock_def intr_on_def intr_off_def

lemma push_off_run:
  "push_off s = Ok () ((w_sstatus (sstatus (harts s (tp s)) AND NOT SSTATUS_SIE) s)
     \<lparr>cpus := (cpus s)(tp s := (mycpu s)
        \<lparr>intena := if noff (mycpu s) = 0 then intr_get s else intena (mycpu s),
         noff := noff (mycpu s) + 1\<rparr>)\<rparr>)"
  by (simp add: lock_ops mycpu_def w_sstatus_def intr_get_def run_simps)

lemma acquire_run [run_simps]: "lock_free lk s \<Longrightarrow> acquire lk s = Ok () (enter lk s)"
  by (simp add: acquire_def push_off_run run_simps holding_def lock_free_def test_and_set_def
      upd_lock_def enter_def w_sstatus_def)

lemma acquire_held: "holding lk s \<Longrightarrow> acquire lk s = Panic ''acquire''"
  by (simp add: acquire_def push_off_run run_simps holding_def w_sstatus_def)

lemma acquire_spins:
  "locked (locks s lk) \<noteq> 0 \<Longrightarrow> holder (locks s lk) \<noteq> Some (tp s) \<Longrightarrow> acquire lk s = Diverge"
  by (simp add: acquire_def push_off_run run_simps holding_def test_and_set_def
      upd_lock_def w_sstatus_def)

lemma release_not_held: "\<not> holding lk s \<Longrightarrow> release lk s = Panic ''release''"
  by (simp add: release_def run_simps)

lemma release_enter [run_simps]:
  assumes "lock_free lk s" "cpu_ok s"
  shows "release lk (enter lk s) = Ok () (settle s)"
proof -
  have lk: "(locks s lk)\<lparr>holder := None, locked := 0\<rparr> = locks s lk"
    using assms(1) by (cases "locks s lk") (simp add: lock_free_def)
  have h: "(harts s (tp s))\<lparr>sstatus := sstatus (harts s (tp s))\<rparr> = harts s (tp s)"
    by (cases "harts s (tp s)") simp
  show ?thesis
    using assms
    by (auto simp: lk h release_def run_simps holding_def enter_def upd_lock_def pop_off_def
        upd_mycpu_def intr_on_def w_sstatus_def intr_get_def mycpu_def cpu_ok_def settle_def
        sie_clear_set sie_clear_id lock_free_def)
qed

lemma settle_fields [simp, frame_simps]:
  "tp (settle s) = tp s" "harts (settle s) = harts s" "locks (settle s) = locks s"
  "mem (settle s) = mem s" "machine.more (settle s) = machine.more s"
  by (simp_all add: settle_def)

lemma enter_fields [simp, frame_simps]:
  "tp (enter lk s) = tp s" "mem (enter lk s) = mem s"
  "machine.more (enter lk s) = machine.more s"
  "locks (enter lk s) = (locks s)(lk := (locks s lk)\<lparr>locked := 1, holder := Some (tp s)\<rparr>)"
  by (simp_all add: enter_def w_sstatus_def)

lemma settle_intr [simp]: "intr_get (settle s) = intr_get s"
  by (simp add: intr_get_def)

lemma noff_settle [simp]: "noff (mycpu (settle s)) = noff (mycpu s)"
  by (simp add: mycpu_def settle_def)

lemma proc_settle [simp]: "cpu.proc (mycpu (settle s)) = cpu.proc (mycpu s)"
  by (simp add: mycpu_def settle_def)

lemma proc_enter [simp]: "cpu.proc (mycpu (enter lk s)) = cpu.proc (mycpu s)"
  by (simp add: mycpu_def enter_def w_sstatus_def)

lemma noff_enter [simp]: "noff (mycpu (enter lk s)) = noff (mycpu s) + 1"
  by (simp add: mycpu_def enter_def w_sstatus_def)

lemma intr_enter [simp]: "\<not> intr_get (enter lk s)"
  by (simp add: intr_get_def enter_def w_sstatus_def)

lemma cpu_ok_settle [simp]: "cpu_ok (settle s) = cpu_ok s"
  by (simp add: cpu_ok_def)

lemma cpu_ok_enter [simp]: "cpu_ok s \<Longrightarrow> cpu_ok (enter lk s)"
  by (simp add: cpu_ok_def)

lemma lock_free_settle [simp]: "lock_free lk (settle s) = lock_free lk s"
  by (simp add: lock_free_def)

lemma lock_free_enter [simp]: "lock_free l (enter lk s) \<longleftrightarrow> l \<noteq> lk \<and> lock_free l s"
  by (simp add: lock_free_def)

lemma holding_enter [simp]: "holding lk (enter lk s)"
  by (simp add: holding_def)

lemma settle_settle [simp]: "settle (settle s) = settle s"
  by (simp add: settle_def mycpu_def intr_get_def)

lemma enter_settle [simp]: "enter lk (settle s) = enter lk s"
  by (simp add: settle_def enter_def mycpu_def intr_get_def w_sstatus_def)

lemma settle_enter [simp]: "cpu_ok s \<Longrightarrow> settle (enter lk s) = enter lk s"
  by (cases s) (auto simp: settle_def enter_def mycpu_def intr_get_def w_sstatus_def cpu_ok_def)

lemma enter_commute:
  "lk \<noteq> l \<Longrightarrow> cpu_ok s \<Longrightarrow> enter lk (enter l s) = enter l (enter lk s)"
  by (cases s)
    (auto simp: enter_def mycpu_def intr_get_def w_sstatus_def cpu_ok_def fun_upd_twist and.assoc)

lemma settle_mem [simp]: "(settle s)\<lparr>mem := x\<rparr> = settle (s\<lparr>mem := x\<rparr>)"
  by (simp add: settle_def mycpu_def intr_get_def)

lemma enter_mem [simp]: "(enter lk s)\<lparr>mem := x\<rparr> = enter lk (s\<lparr>mem := x\<rparr>)"
  by (simp add: enter_def mycpu_def intr_get_def w_sstatus_def)

lemma lock_free_mem [simp]: "lock_free lk (s\<lparr>mem := x\<rparr>) = lock_free lk s"
  by (simp add: lock_free_def)

lemma cpu_ok_mem [simp]: "cpu_ok (s\<lparr>mem := x\<rparr>) = cpu_ok s"
  by (simp add: cpu_ok_def mycpu_def intr_get_def)

section \<open>Several harts on one lock\<close>

text \<open>
  Where a hart is in \<open>acquire\<close> and \<open>release\<close>: outside, past the check of
  \<^verbatim>\<open>holding\<close> and spinning on the swap, past the swap, in the critical section with
  the field cpu recorded, and in release with that field cleared. Every rule is one
  access to the lock's memory, so any interleaving of the harts is a run.
\<close>

datatype lock_pc = Outside | Spinning | Swapped | Inside | Clearing

record lock_sys =
  the_lock :: spinlock
  pcs :: "nat \<Rightarrow> lock_pc"

inductive spin_step :: "lock_sys \<Rightarrow> lock_sys \<Rightarrow> bool" where
  start: "pcs s h = Outside \<Longrightarrow> \<not> (locked (the_lock s) \<noteq> 0 \<and> holder (the_lock s) = Some h) \<Longrightarrow>
    spin_step s (s\<lparr>pcs := (pcs s)(h := Spinning)\<rparr>)"
| swap_busy: "pcs s h = Spinning \<Longrightarrow> locked (the_lock s) \<noteq> 0 \<Longrightarrow>
    spin_step s (s\<lparr>the_lock := (the_lock s)\<lparr>locked := 1\<rparr>\<rparr>)"
| swap_free: "pcs s h = Spinning \<Longrightarrow> locked (the_lock s) = 0 \<Longrightarrow>
    spin_step s (s\<lparr>the_lock := (the_lock s)\<lparr>locked := 1\<rparr>, pcs := (pcs s)(h := Swapped)\<rparr>)"
| record_cpu: "pcs s h = Swapped \<Longrightarrow>
    spin_step s (s\<lparr>the_lock := (the_lock s)\<lparr>holder := Some h\<rparr>, pcs := (pcs s)(h := Inside)\<rparr>)"
| clear_cpu: "pcs s h = Inside \<Longrightarrow> locked (the_lock s) \<noteq> 0 \<and> holder (the_lock s) = Some h \<Longrightarrow>
    spin_step s (s\<lparr>the_lock := (the_lock s)\<lparr>holder := None\<rparr>, pcs := (pcs s)(h := Clearing)\<rparr>)"
| clear_locked: "pcs s h = Clearing \<Longrightarrow>
    spin_step s (s\<lparr>the_lock := (the_lock s)\<lparr>locked := 0\<rparr>, pcs := (pcs s)(h := Outside)\<rparr>)"

inductive_cases spin_stepE: "spin_step s t"

definition lock_start :: "string \<Rightarrow> lock_sys" where
  "lock_start n = \<lparr>the_lock = \<lparr>locked = 0, name = n, holder = None\<rparr>, pcs = (\<lambda>_. Outside)\<rparr>"

inductive lock_reachable :: "lock_sys \<Rightarrow> bool" where
  init: "lock_reachable (lock_start n)"
| step: "lock_reachable s \<Longrightarrow> spin_step s t \<Longrightarrow> lock_reachable t"

definition owns :: "lock_pc \<Rightarrow> bool" where
  "owns pc \<longleftrightarrow> pc = Swapped \<or> pc = Inside \<or> pc = Clearing"

text \<open>
  Mutual exclusion alone is not kept by every step: the invariant adds that the lock word
  is set exactly while some hart owns the lock, and that the recorded hart is the one in
  its critical section.
\<close>

definition lock_inv :: "lock_sys \<Rightarrow> bool" where
  "lock_inv s \<longleftrightarrow>
     (\<forall>g h. owns (pcs s g) \<longrightarrow> owns (pcs s h) \<longrightarrow> g = h) \<and>
     (locked (the_lock s) \<noteq> 0 \<longleftrightarrow> (\<exists>h. owns (pcs s h))) \<and>
     (\<forall>h. holder (the_lock s) = Some h \<longleftrightarrow> pcs s h = Inside)"

lemma lock_inv_start: "lock_inv (lock_start n)"
  by (simp add: lock_inv_def lock_start_def owns_def)

lemma owns_simps [simp]:
  "owns Swapped" "owns Inside" "owns Clearing" "\<not> owns Outside" "\<not> owns Spinning"
  by (simp_all add: owns_def)

lemma lock_inv_step:
  assumes "spin_step s t" and inv: "lock_inv s"
  shows "lock_inv t"
  using assms(1)
proof (cases rule: spin_step.cases)
  case (start h)
  with inv show ?thesis unfolding lock_inv_def by simp (metis lock_pc.distinct owns_simps)
next
  case (swap_busy h)
  with inv show ?thesis unfolding lock_inv_def by simp
next
  case (swap_free h)
  with inv show ?thesis unfolding lock_inv_def by simp
next
  case (record_cpu h)
  with inv show ?thesis unfolding lock_inv_def by simp (metis lock_pc.distinct owns_simps)
next
  case (clear_cpu h)
  with inv show ?thesis unfolding lock_inv_def by simp (metis lock_pc.distinct owns_simps)
next
  case (clear_locked h)
  with inv show ?thesis unfolding lock_inv_def by simp (metis lock_pc.distinct owns_simps)
qed

lemma lock_inv_reachable: "lock_reachable s \<Longrightarrow> lock_inv s"
  by (induction rule: lock_reachable.induct) (auto intro: lock_inv_start lock_inv_step)

section \<open>Properties\<close>

text \<open>
  C15. In every interleaving of any number of harts, at most one hart is between the swap
  of acquire and the store of release; the hart in its critical section passes the check
  of release, and a hart outside never trips the recursive-acquire panic.
\<close>

theorem spinlock_mutual_exclusion:
  assumes "lock_reachable s"
  shows "(owns (pcs s g) \<and> owns (pcs s h) \<longrightarrow> g = h) \<and>
    (pcs s h = Inside \<longrightarrow> locked (the_lock s) \<noteq> 0 \<and> holder (the_lock s) = Some h) \<and>
    (pcs s h = Outside \<longrightarrow> \<not> (locked (the_lock s) \<noteq> 0 \<and> holder (the_lock s) = Some h))"
  using lock_inv_reachable [OF assms] unfolding lock_inv_def
  by (metis lock_pc.distinct owns_simps)

lemma lock_reachable_inside:
  "lock_reachable \<lparr>the_lock = \<lparr>locked = 1, name = n, holder = Some 0\<rparr>,
     pcs = ((\<lambda>_. Outside)(0 := Inside))\<rparr>"
proof -
  let ?s0 = "lock_start n"
  let ?s1 = "?s0\<lparr>pcs := (pcs ?s0)(0 := Spinning)\<rparr>"
  let ?s2 = "?s1\<lparr>the_lock := (the_lock ?s1)\<lparr>locked := 1\<rparr>, pcs := (pcs ?s1)(0 := Swapped)\<rparr>"
  let ?s3 = "?s2\<lparr>the_lock := (the_lock ?s2)\<lparr>holder := Some 0\<rparr>, pcs := (pcs ?s2)(0 := Inside)\<rparr>"
  have "lock_reachable ?s1"
    by (rule lock_reachable.step [OF lock_reachable.init], rule spin_step.start)
      (simp_all add: lock_start_def)
  then have "lock_reachable ?s2"
    by (rule lock_reachable.step, intro spin_step.swap_free) (simp_all add: lock_start_def)
  then have "lock_reachable ?s3"
    by (rule lock_reachable.step, intro spin_step.record_cpu) simp
  then show ?thesis by (simp add: lock_start_def)
qed

theorem spinlock_mutual_exclusion_witness:
  "\<not> owns (pcs \<lparr>the_lock = \<lparr>locked = 1, name = ''kmem'', holder = Some 0\<rparr>,
     pcs = ((\<lambda>_. Outside)(0 := Inside))\<rparr> 1)"
  using spinlock_mutual_exclusion [OF lock_reachable_inside [of "''kmem''"], of 0 1] by simp


text \<open>A machine at reset, for the concrete instances of the development.\<close>

definition machine0 :: machine where
  "machine0 = \<lparr>tp = 0,
     harts = (\<lambda>_. \<lparr>sstatus = 2, sip = 0, sepc = 0, stvec = 0, satp = 0, scause = 0, stval = 0\<rparr>),
     cpus = (\<lambda>_. \<lparr>proc = None, noff = 0, intena = False\<rparr>),
     locks = (\<lambda>_. \<lparr>locked = 0, name = [], holder = None\<rparr>), mem = (\<lambda>_. 0)\<rparr>"


end
