(* ===== verification/Kalloc.thy ===== *)
theory Kalloc
  imports Spinlock
begin

text \<open>
  \<^verbatim>\<open>kernel/kalloc.c\<close>: the physical page allocator with the reference counts that
  copy-on-write fork needs. The free pages form a list threaded through the first word of
  each page; \<open>pgref\<close> counts the users of every page. The abstraction relation
  \<open>kmem_rel\<close> ties the threaded list to a HOL list and says that the free pages are
  exactly the managed pages with count zero; the locale \<open>page_allocator\<close> states the
  contract the rest of the kernel relies on.
\<close>

section \<open>State\<close>

text \<open>
  \<open>kernel_end\<close> is the linker symbol \<^verbatim>\<open>end\<close>, the first address after the kernel.
  The array pgref is indexed by page number.
\<close>

record kmem = machine +
  freelist :: u64
  pgref :: "u64 \<Rightarrow> u32"
  kernel_end :: u64

section \<open>Routines\<close>

text \<open>\<^verbatim>\<open>uint idx = PGINDEX(pa)\<close>: the page number, cut to 32 bits.\<close>

definition pgidx :: "u64 \<Rightarrow> u64" where
  "pgidx pa = ucast (ucast (PGINDEX pa) :: u32)"

definition incref :: "u64 \<Rightarrow> ('z kmem_scheme, unit) routine" where
  "incref pa =
     sq (acquire RefLock)
     (sq (modify (\<lambda>s. s\<lparr>pgref := (pgref s)(pgidx pa := pgref s (pgidx pa) + 1)\<rparr>))
         (release RefLock))"

definition setref :: "u64 \<Rightarrow> u32 \<Rightarrow> ('z kmem_scheme, unit) routine" where
  "setref pa cnt =
     sq (acquire RefLock)
     (sq (modify (\<lambda>s. s\<lparr>pgref := (pgref s)(pgidx pa := cnt)\<rparr>))
         (release RefLock))"

definition decref :: "u64 \<Rightarrow> ('z kmem_scheme, unit) routine" where
  "decref pa =
     sq (acquire RefLock)
     (sq (modify (\<lambda>s. s\<lparr>pgref := (pgref s)(pgidx pa := pgref s (pgidx pa) - 1)\<rparr>))
         (release RefLock))"

definition kfree :: "u64 \<Rightarrow> ('z kmem_scheme, unit) routine" where
  "kfree pa =
     bind (gets kernel_end) (\<lambda>end'.
     sq (panic_if (pa mod PGSIZE \<noteq> 0 \<or> pa < end' \<or> pa \<ge> PHYSTOP) ''kfree'')
     (sq (acquire RefLock)
     (bind (gets (\<lambda>s. pgref s (pgidx pa))) (\<lambda>cnt.
      if cnt > 1 then
        sq (modify (\<lambda>s. s\<lparr>pgref := (pgref s)(pgidx pa := pgref s (pgidx pa) - 1)\<rparr>))
           (release RefLock)
      else
        sq (modify (\<lambda>s. s\<lparr>pgref := (pgref s)(pgidx pa := 0)\<rparr>))
        (sq (release RefLock)
        (sq (modify (\<lambda>s. s\<lparr>mem := memset (mem s) pa 1 (ucast PGSIZE)\<rparr>))
        (sq (acquire KmemLock)
        (sq (modify (\<lambda>s. s\<lparr>mem := st64 (mem s) pa (freelist s)\<rparr>))
        (sq (modify (\<lambda>s. s\<lparr>freelist := pa\<rparr>))
            (release KmemLock))))))))))"

definition kalloc :: "('z kmem_scheme, u64) routine" where
  "kalloc =
     sq (acquire KmemLock)
     (bind (gets freelist) (\<lambda>r.
     sq (if r \<noteq> 0 then modify (\<lambda>s. s\<lparr>freelist := ld64 (mem s) r\<rparr>) else ret ())
     (sq (release KmemLock)
     (sq (if r \<noteq> 0
          then sq (modify (\<lambda>s. s\<lparr>mem := memset (mem s) r 5 (ucast PGSIZE)\<rparr>)) (setref r 1)
          else ret ())
         (ret r)))))"

text \<open>
  The loop of freerange; \<open>n\<close> bounds its rounds (freerange gives one per page of the
  address range below \<^verbatim>\<open>pa_end\<close>).
\<close>

fun freerange_loop :: "nat \<Rightarrow> u64 \<Rightarrow> u64 \<Rightarrow> ('z kmem_scheme, unit) routine" where
  "freerange_loop 0 p pa_end = (if p + PGSIZE \<le> pa_end then diverge else ret ())"
| "freerange_loop (Suc n) p pa_end =
     (if p + PGSIZE \<le> pa_end
      then sq (setref p 1) (sq (kfree p) (freerange_loop n (p + PGSIZE) pa_end))
      else ret ())"

definition freerange :: "u64 \<Rightarrow> u64 \<Rightarrow> ('z kmem_scheme, unit) routine" where
  "freerange pa_start pa_end = freerange_loop (unat pa_end div 4096) (PGROUNDUP pa_start) pa_end"

definition kinit :: "('z kmem_scheme, unit) routine" where
  "kinit =
     sq (initlock KmemLock ''kmem'')
     (sq (initlock RefLock ''reflock'')
     (bind (gets kernel_end) (\<lambda>end'. freerange end' PHYSTOP)))"

section \<open>Updates of the allocator's fields commute with taking locks\<close>

lemma settle_kmem [simp]:
  "(settle s)\<lparr>freelist := x\<rparr> = settle (s\<lparr>freelist := x\<rparr>)"
  "(settle s)\<lparr>pgref := y\<rparr> = settle (s\<lparr>pgref := y\<rparr>)"
  by (simp_all add: settle_def mycpu_def intr_get_def)

lemma enter_kmem [simp]:
  "(enter lk s)\<lparr>freelist := x\<rparr> = enter lk (s\<lparr>freelist := x\<rparr>)"
  "(enter lk s)\<lparr>pgref := y\<rparr> = enter lk (s\<lparr>pgref := y\<rparr>)"
  by (simp_all add: enter_def mycpu_def intr_get_def w_sstatus_def)

lemma kmem_settle [simp, frame_simps]:
  "freelist (settle s) = freelist s" "pgref (settle s) = pgref s"
  "kernel_end (settle s) = kernel_end s"
  by (simp_all add: settle_def)

lemma kmem_enter [simp, frame_simps]:
  "freelist (enter lk s) = freelist s" "pgref (enter lk s) = pgref s"
  "kernel_end (enter lk s) = kernel_end s"
  by (simp_all add: enter_def w_sstatus_def)

lemma lock_free_kmem [simp]:
  "lock_free lk (s\<lparr>freelist := x\<rparr>) = lock_free lk s"
  "lock_free lk (s\<lparr>pgref := y\<rparr>) = lock_free lk s"
  by (simp_all add: lock_free_def)

lemma cpu_ok_kmem [simp]:
  "cpu_ok (s\<lparr>freelist := x\<rparr>) = cpu_ok s"
  "cpu_ok (s\<lparr>pgref := y\<rparr>) = cpu_ok s"
  by (simp_all add: cpu_ok_def mycpu_def intr_get_def)

section \<open>Running the routines\<close>

definition kmem_ready :: "'z kmem_scheme \<Rightarrow> bool" where
  "kmem_ready s \<longleftrightarrow> cpu_ok s \<and> lock_free KmemLock s \<and> lock_free RefLock s"

lemma kmem_ready_simps [simp]:
  "kmem_ready (settle s) = kmem_ready s"
  "kmem_ready (s\<lparr>mem := m\<rparr>) = kmem_ready s"
  "kmem_ready (s\<lparr>freelist := x\<rparr>) = kmem_ready s"
  "kmem_ready (s\<lparr>pgref := y\<rparr>) = kmem_ready s"
  by (simp_all add: kmem_ready_def)

lemma kmem_ready_enter [simp]:
  "kmem_ready s \<Longrightarrow> lk \<noteq> KmemLock \<Longrightarrow> lk \<noteq> RefLock \<Longrightarrow> kmem_ready (enter lk s)"
  by (simp add: kmem_ready_def)

lemma pgsize32: "ucast PGSIZE = (4096 :: u32)"
  by (simp add: PGSIZE_def)

lemma incref_run [run_simps]:
  "kmem_ready s \<Longrightarrow>
   incref pa s = Ok () (settle (s\<lparr>pgref := (pgref s)(pgidx pa := pgref s (pgidx pa) + 1)\<rparr>))"
  by (simp add: incref_def kmem_ready_def run_simps)

lemma setref_run [run_simps]:
  "kmem_ready s \<Longrightarrow> setref pa c s = Ok () (settle (s\<lparr>pgref := (pgref s)(pgidx pa := c)\<rparr>))"
  by (simp add: setref_def kmem_ready_def run_simps)

lemma kfree_shared [run_simps]:
  assumes "kmem_ready s" "page_aligned pa" "kernel_end s \<le> pa" "pa < PHYSTOP"
    "pgref s (pgidx pa) > 1"
  shows "kfree pa s = Ok () (settle (s\<lparr>pgref := (pgref s)(pgidx pa := pgref s (pgidx pa) - 1)\<rparr>))"
  using assms by (simp add: kfree_def kmem_ready_def run_simps page_aligned_mod not_less)

lemma kfree_last [run_simps]:
  assumes "kmem_ready s" "page_aligned pa" "kernel_end s \<le> pa" "pa < PHYSTOP"
    "pgref s (pgidx pa) \<le> 1"
  shows "kfree pa s = Ok () (settle (s\<lparr>pgref := (pgref s)(pgidx pa := 0),
    mem := st64 (memset (mem s) pa 1 4096) pa (freelist s), freelist := pa\<rparr>))"
  using assms by (simp add: kfree_def kmem_ready_def run_simps page_aligned_mod not_less not_le pgsize32)

lemma kfree_panics:
  "\<not> page_aligned pa \<or> pa < kernel_end s \<or> PHYSTOP \<le> pa \<Longrightarrow> kfree pa s = Panic ''kfree''"
  by (auto simp: kfree_def run_simps page_aligned_mod)

lemma kalloc_run [run_simps]:
  assumes "kmem_ready s"
  shows "kalloc s =
    (if freelist s = 0 then Ok 0 (settle s)
     else Ok (freelist s) (settle (s\<lparr>freelist := ld64 (mem s) (freelist s),
       mem := memset (mem s) (freelist s) 5 4096, pgref := (pgref s)(pgidx (freelist s) := 1)\<rparr>)))"
  using assms by (simp add: kalloc_def kmem_ready_def run_simps setref_run pgsize32)

section \<open>The free list as a HOL list\<close>

text \<open>A null-terminated list whose links are given by \<open>nxt\<close>.\<close>

fun chain :: "('a \<Rightarrow> 'a) \<Rightarrow> 'a \<Rightarrow> ('a :: zero) list \<Rightarrow> bool" where
  "chain nxt p [] \<longleftrightarrow> p = 0"
| "chain nxt p (x # xs) \<longleftrightarrow> p = x \<and> x \<noteq> 0 \<and> chain nxt (nxt x) xs"

lemma chain_cong: "(\<And>x. x \<in> set xs \<Longrightarrow> f x = g x) \<Longrightarrow> chain f p xs = chain g p xs"
  by (induction xs arbitrary: p) auto

lemma chain_0 [simp]: "chain nxt 0 xs \<longleftrightarrow> xs = []"
  by (cases xs) auto

lemma chain_unique: "chain nxt p xs \<Longrightarrow> chain nxt p ys \<Longrightarrow> xs = ys"
proof (induction xs arbitrary: p ys)
  case Nil
  then show ?case by simp
next
  case (Cons x xs)
  then show ?case by (cases ys) auto
qed

definition managed :: "'z kmem_scheme \<Rightarrow> u64 \<Rightarrow> bool" where
  "managed s p \<longleftrightarrow> page_aligned p \<and> kernel_end s \<le> p \<and> p < PHYSTOP"

definition kmem_rel :: "'z kmem_scheme \<Rightarrow> u64 list \<Rightarrow> bool" where
  "kmem_rel s fl \<longleftrightarrow> KERNBASE \<le> kernel_end s \<and> chain (ld64 (mem s)) (freelist s) fl \<and> distinct fl \<and>
     (\<forall>p. p \<in> set fl \<longleftrightarrow> managed s p \<and> pgref s (pgidx p) = 0) \<and>
     (\<forall>i. pgref s i \<noteq> 0 \<longrightarrow> i \<in> pgidx ` {p. managed s p})"

definition kmem_inv :: "'z kmem_scheme \<Rightarrow> bool" where
  "kmem_inv s \<longleftrightarrow> kmem_ready s \<and> (\<exists>fl. kmem_rel s fl)"

definition avail :: "'z kmem_scheme \<Rightarrow> u64 set" where
  "avail s = {p. managed s p \<and> pgref s (pgidx p) = 0}"

definition refs :: "'z kmem_scheme \<Rightarrow> u64 \<Rightarrow> nat" where
  "refs s p = (if managed s p then unat (pgref s (pgidx p)) else 0)"

lemma managed_simps [simp]:
  "managed (settle s) = managed s"
  "managed (s\<lparr>mem := m\<rparr>) = managed s"
  "managed (s\<lparr>freelist := x\<rparr>) = managed s"
  "managed (s\<lparr>pgref := y\<rparr>) = managed s"
  by (auto simp: managed_def fun_eq_iff)

lemma managed_aligned: "managed s p \<Longrightarrow> page_aligned p"
  by (simp add: managed_def)

lemma PGINDEX_nat: "unat (PGINDEX p) = unat p div 4096"
proof -
  have "unat (drop_bit 12 p) = drop_bit 12 (unat p)"
    by (simp only: unsigned_drop_bit_eq take_bit_unat) simp
  then show ?thesis by (simp only: PGINDEX_def drop_bit_eq_div) simp
qed

text \<open>The index of a page below PHYSTOP is within the array pgref and names only that page.\<close>

lemma pgidx_nat: "p < PHYSTOP \<Longrightarrow> unat (pgidx p) = unat p div 4096"
proof -
  assume "p < PHYSTOP"
  then have "unat (PGINDEX p) < 2 ^ 32"
    by (simp add: PGINDEX_nat word_less_nat_alt PHYSTOP_eq)
  then show ?thesis
    by (simp add: pgidx_def unsigned_ucast_eq unsigned_take_bit_eq take_bit_nat_eq_self PGINDEX_nat)
qed

lemma pgidx_bound: "p < PHYSTOP \<Longrightarrow> unat (pgidx p) < unat PHYSTOP div 4096"
  by (simp add: pgidx_nat word_less_nat_alt PHYSTOP_eq)

lemma pgidx_inj:
  assumes "page_aligned p" "page_aligned q" "p < PHYSTOP" "q < PHYSTOP"
  shows "pgidx p = pgidx q \<longleftrightarrow> p = q"
proof
  assume "pgidx p = pgidx q"
  then have "unat p div 4096 = unat q div 4096"
    using pgidx_nat [OF assms(3)] pgidx_nat [OF assms(4)] by simp
  then have "unat p = unat q"
    using assms(1,2) by (metis page_aligned_def div_mult_mod_eq)
  then show "p = q" by (rule word_unat_eq_iff [THEN iffD2])
qed simp

lemma managed_pgidx [simp]:
  "managed s p \<Longrightarrow> managed s q \<Longrightarrow> pgidx p = pgidx q \<longleftrightarrow> p = q"
  by (simp add: managed_def pgidx_inj)

lemma managed_nz: "kmem_rel s fl \<Longrightarrow> managed s p \<Longrightarrow> p \<noteq> 0"
proof -
  assume "kmem_rel s fl" "managed s p"
  then have "KERNBASE \<le> p" unfolding kmem_rel_def managed_def by (blast intro: order_trans)
  moreover have "0 < KERNBASE" by (simp add: KERNBASE_def)
  ultimately have "0 < p" by (rule less_le_trans [rotated])
  then show ?thesis by blast
qed

lemma kmem_rel_settle [simp]: "kmem_rel (settle s) fl = kmem_rel s fl"
  by (simp add: kmem_rel_def)

lemma kmem_inv_settle [simp]: "kmem_inv (settle s) = kmem_inv s"
  by (simp add: kmem_inv_def)

lemma avail_settle [simp]: "avail (settle s) = avail s"
  by (simp add: avail_def)

lemma refs_settle [simp]: "refs (settle s) = refs s"
  by (simp add: refs_def fun_eq_iff)

lemma kmem_rel_set: "kmem_rel s fl \<Longrightarrow> set fl = avail s"
  by (auto simp: kmem_rel_def avail_def)

section \<open>The routines keep the relation\<close>

lemma kalloc_empty:
  assumes "kmem_ready s" "kmem_rel s []"
  shows "kalloc s = Ok 0 (settle s)"
  using assms by (simp add: kalloc_run kmem_rel_def)

definition after_kalloc :: "u64 \<Rightarrow> 'z kmem_scheme \<Rightarrow> 'z kmem_scheme" where
  "after_kalloc p s = settle (s\<lparr>freelist := ld64 (mem s) p, mem := memset (mem s) p 5 4096,
     pgref := (pgref s)(pgidx p := 1)\<rparr>)"

lemma kalloc_pop:
  assumes "kmem_ready s" "kmem_rel s (p # fl)"
  shows "kalloc s = Ok p (after_kalloc p s)"
  using assms by (simp add: kalloc_run kmem_rel_def after_kalloc_def)

lemma ld64_page: "same_page m m' p \<Longrightarrow> page_aligned p \<Longrightarrow> ld64 m p = ld64 m' p"
  using ld64_same_page [of m m' p 0] by simp

lemma after_kalloc_rel:
  assumes "kmem_rel s (p # fl)"
  shows "kmem_rel (after_kalloc p s) fl"
proof -
  from assms have mp: "managed s p" and d: "p \<notin> set fl" "distinct fl"
    and c: "chain (ld64 (mem s)) (ld64 (mem s) p) fl"
    and all: "\<And>q. q \<in> set (p # fl) \<longleftrightarrow> managed s q \<and> pgref s (pgidx q) = 0"
    by (auto simp: kmem_rel_def)
  have "ld64 (memset (mem s) p 5 4096) q = ld64 (mem s) q" if "q \<in> set fl" for q
    using that d(1) all [of q] mp
    by (intro ld64_page memset_page_other) (auto simp: managed_def)
  then have "chain (ld64 (memset (mem s) p 5 4096)) (ld64 (mem s) p) fl"
    using c by (simp cong: chain_cong)
  moreover have "q \<in> set fl \<longleftrightarrow> managed s q \<and> ((pgref s)(pgidx p := 1)) (pgidx q) = 0" for q
    using all [of q] d(1) mp by auto
  ultimately show ?thesis
    using assms d(2) mp by (simp add: after_kalloc_def kmem_rel_def)
qed

text \<open>What kfree does to memory pushes the page onto the threaded list.\<close>

lemma chain_push:
  assumes "chain (ld64 m) f fl" "page_aligned p" "p \<noteq> 0" "p \<notin> set fl"
    "\<And>q. q \<in> set fl \<Longrightarrow> page_aligned q"
  shows "chain (ld64 (st64 (memset m p 1 4096) p f)) p (p # fl)"
proof -
  let ?m = "st64 (memset m p 1 4096) p f"
  have "ld64 ?m q = ld64 m q" if "q \<in> set fl" for q
  proof -
    have q: "page_aligned q" "q \<noteq> p" using that assms(4,5) by auto
    then have "ld64 ?m q = ld64 (memset m p 1 4096) q"
      using assms(2) by (simp add: ld64_st64_page)
    also have "\<dots> = ld64 m q"
      using q assms(2) by (intro ld64_page memset_page_other) auto
    finally show ?thesis .
  qed
  then have "chain (ld64 ?m) f fl" using assms(1) by (simp cong: chain_cong)
  moreover have "ld64 ?m p = f" using assms(2) by (simp add: ld64_st64_page)
  ultimately show ?thesis using assms(3) by simp
qed

lemma kfree_last_rel:
  assumes "kmem_rel s fl" "managed s p" "pgref s (pgidx p) = 1"
  shows "kmem_rel (settle (s\<lparr>pgref := (pgref s)(pgidx p := 0),
    mem := st64 (memset (mem s) p 1 4096) p (freelist s), freelist := p\<rparr>)) (p # fl)"
proof -
  from assms have c: "chain (ld64 (mem s)) (freelist s) fl" and d: "distinct fl"
    and all: "\<And>q. q \<in> set fl \<longleftrightarrow> managed s q \<and> pgref s (pgidx q) = 0"
    by (auto simp: kmem_rel_def)
  have pn: "p \<notin> set fl" using all assms(3) by auto
  have "chain (ld64 (st64 (memset (mem s) p 1 4096) p (freelist s))) p (p # fl)"
    using c pn managed_nz [OF assms(1,2)] managed_aligned all assms(2) by (intro chain_push) auto
  moreover have "q \<in> set (p # fl) \<longleftrightarrow> managed s q \<and> ((pgref s)(pgidx p := 0)) (pgidx q) = 0" for q
    using all [of q] assms(2) by auto
  ultimately show ?thesis
    using assms(1) d pn by (simp add: kmem_rel_def)
qed

lemma pgref_pos_rel:
  assumes "kmem_rel s fl" "managed s p" "pgref s (pgidx p) \<noteq> 0" "c \<noteq> 0"
  shows "kmem_rel (s\<lparr>pgref := (pgref s)(pgidx p := c)\<rparr>) fl"
proof -
  from assms have all: "\<And>q. q \<in> set fl \<longleftrightarrow> managed s q \<and> pgref s (pgidx q) = 0"
    by (auto simp: kmem_rel_def)
  have "q \<in> set fl \<longleftrightarrow> managed s q \<and> ((pgref s)(pgidx p := c)) (pgidx q) = 0" for q
    using all [of q] all [of p] assms by auto
  with assms(1,2) show ?thesis by (simp add: kmem_rel_def)
qed

lemma chain_head: "chain nxt p xs \<Longrightarrow> xs \<noteq> [] \<Longrightarrow> hd xs = p"
  by (cases xs) auto

section \<open>The contract of the allocator\<close>

text \<open>
  What the callers of kalloc and kfree rely on: \<open>free\<close> is the set of pages that can be
  handed out and \<open>uses\<close> counts the users of a page.
\<close>

locale page_allocator =
  fixes alloc :: "('s, u64) routine"
    and dealloc :: "u64 \<Rightarrow> ('s, unit) routine"
    and ok :: "'s \<Rightarrow> bool"
    and free :: "'s \<Rightarrow> u64 set"
    and uses :: "'s \<Rightarrow> u64 \<Rightarrow> nat"
  assumes alloc_none: "ok s \<Longrightarrow> free s = {} \<Longrightarrow>
      \<exists>t. alloc s = Ok 0 t \<and> ok t \<and> free t = {} \<and> uses t = uses s"
    and alloc_some: "ok s \<Longrightarrow> free s \<noteq> {} \<Longrightarrow>
      \<exists>p t. alloc s = Ok p t \<and> p \<in> free s \<and> ok t \<and> free t = free s - {p} \<and> uses t = (uses s)(p := 1)"
    and dealloc_last: "ok s \<Longrightarrow> uses s p = 1 \<Longrightarrow>
      \<exists>t. dealloc p s = Ok () t \<and> ok t \<and> free t = insert p (free s) \<and> uses t = (uses s)(p := 0)"
    and dealloc_shared: "ok s \<Longrightarrow> 1 < uses s p \<Longrightarrow>
      \<exists>t. dealloc p s = Ok () t \<and> ok t \<and> free t = free s \<and> uses t = (uses s)(p := uses s p - 1)"
    and free_unused: "ok s \<Longrightarrow> p \<in> free s \<Longrightarrow> uses s p = 0"
    and free_nonnull: "ok s \<Longrightarrow> p \<in> free s \<Longrightarrow> p \<noteq> 0"
    and free_finite: "ok s \<Longrightarrow> finite (free s)"
begin

lemma alloc_returns: "ok s \<Longrightarrow> \<exists>p t. alloc s = Ok p t \<and> ok t"
  using alloc_none alloc_some by blast

lemma alloc_null_iff: "ok s \<Longrightarrow> alloc s = Ok p t \<Longrightarrow> p = 0 \<longleftrightarrow> free s = {}"
  using alloc_none [of s] alloc_some [of s] free_nonnull [of s] by fastforce

text \<open>A page somebody uses is never handed out again.\<close>

lemma alloc_fresh:
  assumes "ok s" "alloc s = Ok p t" "p \<noteq> 0"
  shows "uses s p = 0" "uses t p = 1" "\<And>q. q \<noteq> p \<Longrightarrow> uses t q = uses s q"
proof -
  have "free s \<noteq> {}" using assms alloc_null_iff by blast
  with alloc_some [OF assms(1)] assms(2)
  have "p \<in> free s" "uses t = (uses s)(p := 1)" by auto
  then show "uses s p = 0" "uses t p = 1" "\<And>q. q \<noteq> p \<Longrightarrow> uses t q = uses s q"
    using assms(1) free_unused by auto
qed

lemma alloc_dealloc:
  assumes "ok s" "alloc s = Ok p t" "p \<noteq> 0"
  shows "\<exists>u. dealloc p t = Ok () u \<and> ok u \<and> free u = free s \<and> uses u = uses s"
proof -
  have "free s \<noteq> {}" using assms alloc_null_iff by blast
  with alloc_some [OF assms(1)] assms(2)
  have p: "p \<in> free s" and t: "ok t" "free t = free s - {p}" "uses t = (uses s)(p := 1)" by auto
  then have "uses s p = 0" using assms(1) free_unused by blast
  with p t dealloc_last [OF t(1), of p] show ?thesis
    by (auto simp: insert_absorb fun_upd_idem)
qed

end

text \<open>Repeated allocation, as uvmalloc and exec do it.\<close>

fun alloc_many :: "('s, u64) routine \<Rightarrow> nat \<Rightarrow> ('s, u64 list) routine" where
  "alloc_many alloc 0 = ret []"
| "alloc_many alloc (Suc n) =
     bind alloc (\<lambda>p. bind (alloc_many alloc n) (\<lambda>ps. ret (p # ps)))"

context page_allocator
begin

lemma alloc_many_distinct:
  assumes "ok s" "n \<le> card (free s)"
  shows "\<exists>ps t. alloc_many alloc n s = Ok ps t \<and> ok t \<and> length ps = n \<and> distinct ps \<and>
    set ps \<subseteq> free s \<and> free t = free s - set ps"
  using assms
proof (induction n arbitrary: s)
  case 0
  then show ?case by simp
next
  case (Suc n)
  then have "free s \<noteq> {}" by auto
  with alloc_some Suc.prems(1) obtain p t where
    a: "alloc s = Ok p t" "p \<in> free s" "ok t" "free t = free s - {p}" by blast
  have "n \<le> card (free t)"
    using Suc.prems a(2,4) by (simp add: card_Diff_singleton)
  from Suc.IH [OF a(3) this] obtain ps u where
    r: "alloc_many alloc n t = Ok ps u" "ok u" "length ps = n" "distinct ps"
      "set ps \<subseteq> free t" "free u = free t - set ps" by blast
  have "alloc_many alloc (Suc n) s = Ok (p # ps) u" using a(1) r(1) by simp
  moreover have "p \<notin> set ps" using r(5) a(4) by blast
  ultimately show ?case using a r by auto
qed

lemma alloc_exhausted:
  assumes "ok s" "free s = {}"
  shows "\<exists>t. alloc s = Ok 0 t \<and> uses t = uses s"
  using alloc_none [OF assms] by blast

end

lemma finite_avail: "finite (avail s)"
  by (rule finite_subset [OF subset_UNIV]) simp

lemma kmem_inv_refs_avail: "p \<in> avail s \<Longrightarrow> refs s p = 0"
  by (simp add: avail_def refs_def)

lemma refs_managed: "0 < refs s p \<Longrightarrow> managed s p"
  by (simp add: refs_def split: if_splits)

lemma avail_after_kalloc:
  "managed s p \<Longrightarrow> avail (after_kalloc p s) = avail s - {p}"
  by (auto simp: avail_def after_kalloc_def)

lemma refs_pgref_upd:
  "managed s p \<Longrightarrow> refs (s\<lparr>pgref := (pgref s)(pgidx p := c)\<rparr>) = (refs s)(p := unat c)"
  by (auto simp: refs_def fun_eq_iff)

lemma refs_mem [simp]: "refs (s\<lparr>mem := m\<rparr>) = refs s" "refs (s\<lparr>freelist := f\<rparr>) = refs s"
  by (simp_all add: refs_def fun_eq_iff)

lemma avail_mem [simp]: "avail (s\<lparr>mem := m\<rparr>) = avail s" "avail (s\<lparr>freelist := f\<rparr>) = avail s"
  by (simp_all add: avail_def)

lemma refs_after_kalloc: "managed s p \<Longrightarrow> refs (after_kalloc p s) = (refs s)(p := 1)"
  using refs_pgref_upd [of "s\<lparr>freelist := ld64 (mem s) p, mem := memset (mem s) p 5 4096\<rparr>" p 1]
  by (simp add: after_kalloc_def)

lemma kalloc_exhausted:
  assumes "kmem_inv s" "avail s = {}"
  shows "kalloc s = Ok 0 (settle s)"
proof -
  from assms(1) obtain fl where r: "kmem_ready s" "kmem_rel s fl" by (auto simp: kmem_inv_def)
  then have "fl = []" using kmem_rel_set assms(2) by fastforce
  with r show ?thesis by (simp add: kalloc_empty)
qed

lemma kalloc_none:
  assumes "kmem_inv s" "avail s = {}"
  shows "\<exists>t. kalloc s = Ok 0 t \<and> kmem_inv t \<and> avail t = {} \<and> refs t = refs s"
  using assms by (simp add: kalloc_exhausted)

lemma kalloc_some:
  assumes "kmem_inv s" "avail s \<noteq> {}"
  shows "\<exists>p. kalloc s = Ok p (after_kalloc p s) \<and> p \<in> avail s \<and> kmem_inv (after_kalloc p s) \<and>
    avail (after_kalloc p s) = avail s - {p} \<and> refs (after_kalloc p s) = (refs s)(p := 1)"
proof -
  from assms(1) obtain fl where r: "kmem_ready s" "kmem_rel s fl" by (auto simp: kmem_inv_def)
  then have "set fl = avail s" by (rule_tac kmem_rel_set)
  with assms(2) obtain p ps where fl: "fl = p # ps" by (cases fl) auto
  have mp: "managed s p" "p \<in> avail s" using fl \<open>set fl = avail s\<close> by (auto simp: avail_def)
  have "kmem_ready (after_kalloc p s)" using r(1) by (simp add: after_kalloc_def)
  moreover have "kmem_rel (after_kalloc p s) ps" using r(2) fl after_kalloc_rel by blast
  ultimately show ?thesis
    using kalloc_pop [OF r(1)] r(2) fl mp avail_after_kalloc refs_after_kalloc kmem_inv_def by blast
qed

lemma kfree_last_inv:
  assumes "kmem_inv s" "refs s p = 1"
  shows "\<exists>t. kfree p s = Ok () t \<and> kmem_inv t \<and> avail t = insert p (avail s) \<and> refs t = (refs s)(p := 0)"
proof -
  from assms(1) obtain fl where r: "kmem_ready s" "kmem_rel s fl" by (auto simp: kmem_inv_def)
  have mp: "managed s p" using assms(2) refs_managed [of s p] by simp
  then have one: "pgref s (pgidx p) = 1"
    using assms(2) by (simp add: refs_def unsigned_1 word_unat_eq_iff)
  let ?t = "settle (s\<lparr>pgref := (pgref s)(pgidx p := 0),
    mem := st64 (memset (mem s) p 1 4096) p (freelist s), freelist := p\<rparr>)"
  have "kfree p s = Ok () ?t"
    using r(1) mp one by (intro kfree_last) (auto simp: managed_def)
  moreover have "kmem_inv ?t"
    using r kfree_last_rel [OF r(2) mp one] unfolding kmem_inv_def by (auto intro: exI [of _ "p # fl"])
  moreover have "avail ?t = insert p (avail s)" using mp by (auto simp: avail_def)
  moreover have "refs ?t = (refs s)(p := 0)" using mp refs_pgref_upd [of s p 0] by simp
  ultimately show ?thesis by blast
qed

lemma kfree_shared_inv:
  assumes "kmem_inv s" "1 < refs s p"
  shows "\<exists>t. kfree p s = Ok () t \<and> kmem_inv t \<and> avail t = avail s \<and> refs t = (refs s)(p := refs s p - 1)"
proof -
  from assms(1) obtain fl where r: "kmem_ready s" "kmem_rel s fl" by (auto simp: kmem_inv_def)
  have mp: "managed s p" using assms(2) refs_managed [of s p] by simp
  then have many: "1 < pgref s (pgidx p)" and u: "refs s p = unat (pgref s (pgidx p))"
    using assms(2) by (simp_all add: refs_def word_less_nat_alt)
  let ?c = "pgref s (pgidx p) - 1"
  have nz: "pgref s (pgidx p) \<noteq> 0" using many by auto
  have c: "unat ?c = refs s p - 1" using u unat_minus_one [OF nz] by simp
  have nz': "?c \<noteq> 0" using many by auto
  let ?t = "settle (s\<lparr>pgref := (pgref s)(pgidx p := ?c)\<rparr>)"
  have "kfree p s = Ok () ?t"
    using r(1) mp many by (intro kfree_shared) (auto simp: managed_def)
  moreover have "kmem_inv ?t"
    using r pgref_pos_rel [OF r(2) mp nz nz'] unfolding kmem_inv_def by auto
  moreover have "avail ?t = avail s" using mp nz nz' by (auto simp: avail_def)
  moreover have "refs ?t = (refs s)(p := refs s p - 1)" using refs_pgref_upd [OF mp] c by simp
  ultimately show ?thesis by blast
qed

lemma incref_inv:
  assumes "kmem_inv s" "0 < refs s p" "refs s p < 2 ^ 32 - 1"
  shows "\<exists>t. incref p s = Ok () t \<and> kmem_inv t \<and> avail t = avail s \<and> refs t = (refs s)(p := refs s p + 1)"
proof -
  from assms(1) obtain fl where r: "kmem_ready s" "kmem_rel s fl" by (auto simp: kmem_inv_def)
  have mp: "managed s p" using assms(2) by (rule refs_managed)
  let ?c = "pgref s (pgidx p) + 1"
  have u: "refs s p = unat (pgref s (pgidx p))" using mp by (simp add: refs_def)
  have c: "unat ?c = refs s p + 1"
    using assms(3) u by (simp add: unat_word_ariths)
  then have nz: "?c \<noteq> 0" "pgref s (pgidx p) \<noteq> 0" using u assms(2) by auto
  let ?t = "settle (s\<lparr>pgref := (pgref s)(pgidx p := ?c)\<rparr>)"
  have "incref p s = Ok () ?t" using r(1) by (rule incref_run)
  moreover have "kmem_inv ?t"
    using r pgref_pos_rel [OF r(2) mp nz(2,1)] unfolding kmem_inv_def by auto
  moreover have "avail ?t = avail s" using mp nz by (auto simp: avail_def)
  moreover have "refs ?t = (refs s)(p := refs s p + 1)" using refs_pgref_upd [OF mp] c by simp
  ultimately show ?thesis by blast
qed

interpretation pa: page_allocator kalloc kfree kmem_inv avail refs
proof unfold_locales
  fix s :: "'a kmem_scheme" and p
  assume "kmem_inv s" "p \<in> avail s"
  then show "p \<noteq> 0" using managed_nz by (auto simp: kmem_inv_def avail_def)
next
  fix s :: "'a kmem_scheme"
  assume "kmem_inv s" "avail s \<noteq> {}"
  then show "\<exists>p t. kalloc s = Ok p t \<and> p \<in> avail s \<and> kmem_inv t \<and> avail t = avail s - {p} \<and>
      refs t = (refs s)(p := 1)"
    using kalloc_some by blast
qed (rule kalloc_none kfree_last_inv kfree_shared_inv kmem_inv_refs_avail finite_avail; assumption)+

section \<open>Initialisation\<close>

text \<open>The loop of freerange has put the managed pages below \<open>p\<close> on the list.\<close>

definition freed_below :: "'z kmem_scheme \<Rightarrow> u64 \<Rightarrow> u64 list \<Rightarrow> bool" where
  "freed_below s p fl \<longleftrightarrow> KERNBASE \<le> kernel_end s \<and> chain (ld64 (mem s)) (freelist s) fl \<and> distinct fl \<and>
     set fl = {q. managed s q \<and> q < p} \<and> (\<forall>q\<in>set fl. pgref s (pgidx q) = 0) \<and>
     (\<forall>i. pgref s i \<noteq> 0 \<longrightarrow> i \<in> pgidx ` {p. managed s p})"

lemma next_page:
  assumes "page_aligned p" "p < PHYSTOP"
  shows "unat (p + PGSIZE) = unat p + 4096" "p + PGSIZE \<le> PHYSTOP" "page_aligned (p + PGSIZE)"
proof -
  have "unat p + 4096 \<le> unat PHYSTOP"
    using assms by (intro aligned_room) (simp_all add: page_aligned_def PHYSTOP_eq word_less_nat_alt dvd_eq_mod_eq_0)
  moreover from this show u: "unat (p + PGSIZE) = unat p + 4096"
    by (simp add: unat_word_ariths PGSIZE_def PHYSTOP_eq)
  ultimately show "p + PGSIZE \<le> PHYSTOP" by (simp add: word_le_nat_alt)
  show "page_aligned (p + PGSIZE)" using assms(1) u by (simp add: page_aligned_def)
qed

lemma less_next_page:
  assumes "page_aligned p" "p < PHYSTOP" "page_aligned q"
  shows "q < p + PGSIZE \<longleftrightarrow> q < p \<or> q = p"
proof -
  have "unat p < unat q \<Longrightarrow> unat p + 4096 \<le> unat q"
    using assms by (intro aligned_room) (simp_all add: page_aligned_def dvd_eq_mod_eq_0)
  then show ?thesis
    using next_page(1) [OF assms(1,2)]
    by (cases "unat p < unat q") (auto simp: word_less_nat_alt word_unat_eq_iff)
qed

lemma freed_below_step:
  assumes "freed_below s p fl" "managed s p"
  shows "freed_below (settle (s\<lparr>pgref := (pgref s)(pgidx p := 0),
    mem := st64 (memset (mem s) p 1 4096) p (freelist s), freelist := p\<rparr>)) (p + PGSIZE) (p # fl)"
proof -
  from assms have c: "chain (ld64 (mem s)) (freelist s) fl" "distinct fl" "KERNBASE \<le> kernel_end s"
    and f: "set fl = {q. managed s q \<and> q < p}" and z: "\<forall>q\<in>set fl. pgref s (pgidx q) = 0"
    and o: "\<forall>i. pgref s i \<noteq> 0 \<longrightarrow> i \<in> pgidx ` {p. managed s p}"
    by (simp_all add: freed_below_def)
  have "KERNBASE \<le> p" using c(3) assms(2) unfolding managed_def by (blast intro: order_trans)
  moreover have "0 < KERNBASE" by (simp add: KERNBASE_def)
  ultimately have "0 < p" by (rule less_le_trans [rotated])
  then have nz: "p \<noteq> 0" by blast
  have pn: "p \<notin> set fl" using f by simp
  have "chain (ld64 (st64 (memset (mem s) p 1 4096) p (freelist s))) p (p # fl)"
    using c(1) pn nz managed_aligned f assms(2) by (intro chain_push) auto
  moreover have "set (p # fl) = {q. managed s q \<and> q < p + PGSIZE}"
    using f assms(2) less_next_page [of p] by (auto simp: managed_def)
  moreover have "\<forall>q\<in>set (p # fl). ((pgref s)(pgidx p := 0)) (pgidx q) = 0"
    using z by simp
  ultimately show ?thesis
    using c pn o by (simp add: freed_below_def)
qed

lemma freerange_loop_ok:
  assumes "kmem_ready s" "freed_below s p fl" "page_aligned p" "kernel_end s \<le> p" "p \<le> PHYSTOP"
    "unat PHYSTOP \<le> unat p + 4096 * n"
  shows "\<exists>t fl. freerange_loop n p PHYSTOP s = Ok () t \<and> kmem_ready t \<and> kernel_end t = kernel_end s \<and>
    freed_below t PHYSTOP fl"
  using assms
proof (induction n arbitrary: s p fl)
  case 0
  then have "p = PHYSTOP" by (simp add: word_le_nat_alt word_unat_eq_iff)
  moreover have "\<not> PHYSTOP + PGSIZE \<le> PHYSTOP" by (simp add: PHYSTOP_eq PGSIZE_def)
  ultimately show ?case using 0 by auto
next
  case (Suc n)
  show ?case
  proof (cases "p = PHYSTOP")
    case True
    moreover have "\<not> PHYSTOP + PGSIZE \<le> PHYSTOP" by (simp add: PHYSTOP_eq PGSIZE_def)
    ultimately show ?thesis using Suc.prems by auto
  next
    case False
    then have lt: "p < PHYSTOP" using Suc.prems(5) by simp
    note np = next_page [OF Suc.prems(3) lt]
    have mp: "managed s p" using Suc.prems lt by (simp add: managed_def)
    let ?t = "settle (s\<lparr>pgref := (pgref s)(pgidx p := 0),
      mem := st64 (memset (mem s) p 1 4096) p (freelist s), freelist := p\<rparr>)"
    have "setref p 1 s = Ok () (settle (s\<lparr>pgref := (pgref s)(pgidx p := 1)\<rparr>))"
      using Suc.prems(1) by (rule setref_run)
    moreover have "kfree p (settle (s\<lparr>pgref := (pgref s)(pgidx p := 1)\<rparr>)) = Ok () ?t"
      using Suc.prems(1,3,4) lt by (subst kfree_last) simp_all
    ultimately have run: "freerange_loop (Suc n) p PHYSTOP s = freerange_loop n (p + PGSIZE) PHYSTOP ?t"
      using np(2) by simp
    have "p \<le> p + PGSIZE" using np(1) by (simp add: word_le_nat_alt)
    with Suc.prems(4) have "kernel_end ?t \<le> p + PGSIZE" by (auto intro: order_trans)
    moreover have "unat PHYSTOP \<le> unat (p + PGSIZE) + 4096 * n" using Suc.prems(6) np(1) by simp
    moreover have "kmem_ready ?t" using Suc.prems(1) by simp
    ultimately show ?thesis
      using Suc.IH [of ?t "p + PGSIZE" "p # fl"] freed_below_step [OF Suc.prems(2) mp] np run by simp
  qed
qed

lemma PGROUNDUP_least:
  assumes "e \<le> PHYSTOP"
  shows "e \<le> PGROUNDUP e" "PGROUNDUP e \<le> PHYSTOP" "page_aligned q \<Longrightarrow> e \<le> q \<Longrightarrow> PGROUNDUP e \<le> q"
proof -
  have room: "unat e + 4095 < 2 ^ 64" using assms by (simp add: word_le_nat_alt PHYSTOP_eq)
  note u = unat_PGROUNDUP [OF room]
  have least: "(unat e + 4095) div 4096 * 4096 \<le> x" if "unat e \<le> x" "x mod 4096 = 0" for x
  proof -
    obtain k where k: "x = 4096 * k" using \<open>x mod 4096 = 0\<close> by auto
    with that(1) have "(unat e + 4095) div 4096 \<le> (4096 * k + 4095) div 4096" by (intro div_le_mono) simp
    also have "\<dots> = k" by simp
    finally show ?thesis using k by simp
  qed
  have "unat e \<le> (unat e + 4095) div 4096 * 4096"
    using div_mult_mod_eq [of "unat e + 4095" 4096] mod_less_divisor [of 4096 "unat e + 4095"] by linarith
  then show "e \<le> PGROUNDUP e" by (simp add: u word_le_nat_alt)
  show "PGROUNDUP e \<le> PHYSTOP" using assms least [of "unat PHYSTOP"] by (simp add: u word_le_nat_alt PHYSTOP_eq)
  show "PGROUNDUP e \<le> q" if "page_aligned q" "e \<le> q"
    using that least [of "unat q"] by (simp add: u word_le_nat_alt page_aligned_def)
qed

lemma freed_below_start:
  assumes "KERNBASE \<le> kernel_end s" "kernel_end s \<le> PHYSTOP" "freelist s = 0"
    "pgref s = (\<lambda>_. 0)"
  shows "freed_below s (PGROUNDUP (kernel_end s)) []"
  using assms PGROUNDUP_least(3) [OF assms(2)]
  by (auto simp: freed_below_def managed_def not_less [symmetric])

lemma freed_all_rel: "freed_below s PHYSTOP fl \<Longrightarrow> kmem_rel s fl \<and> avail s = {p. managed s p}"
  by (auto simp: freed_below_def kmem_rel_def avail_def managed_def)

lemma initlock_run [run_simps]:
  "initlock lk n s = Ok () (s\<lparr>locks := (locks s)(lk := \<lparr>locked = 0, name = n, holder = None\<rparr>)\<rparr>)"
  by (cases "locks s lk") (simp add: initlock_def upd_lock_def)

lemma kinit_ok:
  assumes "cpu_ok s" "KERNBASE \<le> kernel_end s" "kernel_end s \<le> PHYSTOP" "freelist s = 0"
    "pgref s = (\<lambda>_. 0)"
  shows "\<exists>t. kinit s = Ok () t \<and> kmem_inv t \<and> avail t = {p. managed s p} \<and> managed t = managed s"
proof -
  define s1 where "s1 = s\<lparr>locks := ((locks s)(KmemLock := \<lparr>locked = 0, name = ''kmem'', holder = None\<rparr>))
    (RefLock := \<lparr>locked = 0, name = ''reflock'', holder = None\<rparr>)\<rparr>"
  let ?p = "PGROUNDUP (kernel_end s)"
  note up = PGROUNDUP_least [OF assms(3)]
  have k: "kernel_end s1 = kernel_end s" "freelist s1 = 0" "pgref s1 = (\<lambda>_. 0)" using assms(4,5) by (simp_all add: s1_def)
  have "cpu_ok s1" using assms(1) by (simp add: s1_def cpu_ok_def mycpu_def intr_get_def)
  then have r: "kmem_ready s1" by (simp add: kmem_ready_def s1_def lock_free_def)
  have fb: "freed_below s1 ?p []" using freed_below_start [of s1] assms(2,3) k by simp
  have fuel: "unat PHYSTOP \<le> unat ?p + 4096 * (unat PHYSTOP div 4096)" by (simp add: PHYSTOP_eq)
  have "kernel_end s1 \<le> ?p" using up(1) k(1) by simp
  from freerange_loop_ok [OF r fb page_aligned_PGROUNDUP this up(2) fuel] obtain t fl where
    t: "freerange_loop (unat PHYSTOP div 4096) ?p PHYSTOP s1 = Ok () t"
      "kmem_ready t" "kernel_end t = kernel_end s" "freed_below t PHYSTOP fl"
    using k(1) by auto
  have "kinit s = Ok () t"
    using t(1) by (simp add: kinit_def freerange_def run_simps s1_def k)
  moreover have "kmem_inv t" using freed_all_rel [OF t(4)] t(2) by (auto simp: kmem_inv_def)
  moreover have "avail t = {p. managed s p}" using freed_all_rel [OF t(4)] t(3) by (simp add: managed_def)
  moreover have "managed t = managed s" using t(3) by (simp add: managed_def fun_eq_iff)
  ultimately show ?thesis by blast
qed

text \<open>A machine with two free pages below PHYSTOP.\<close>

definition two_pages :: kmem where
  "two_pages = machine.extend (machine0\<lparr>mem := st64 (\<lambda>_. 0) 0x87ffe000 0x87fff000\<rparr>)
     \<lparr>freelist = 0x87ffe000, pgref = (\<lambda>_. 0), kernel_end = 0x87ffd800\<rparr>"

lemma page_between:
  assumes "page_aligned p" "0x87ffd800 \<le> p" "p < PHYSTOP"
  shows "p = 0x87ffe000 \<or> p = 0x87fff000"
proof -
  obtain k where k: "unat p = 4096 * k" using assms(1) by (auto simp: page_aligned_def)
  have "0x87ffd800 \<le> 4096 * k" "4096 * k < 0x88000000"
    using assms(2,3) by (simp_all add: word_le_nat_alt word_less_nat_alt PHYSTOP_eq flip: k)
  then have "k = 0x87ffe \<or> k = 0x87fff" by linarith
  then show ?thesis using k by (auto simp: word_unat_eq_iff)
qed

lemma two_pages_managed: "managed two_pages p \<longleftrightarrow> p = 0x87ffe000 \<or> p = 0x87fff000"
proof
  assume "managed two_pages p"
  then have "page_aligned p \<and> 0x87ffd800 \<le> p \<and> p < PHYSTOP"
    by (simp add: managed_def two_pages_def machine.defs)
  then show "p = 0x87ffe000 \<or> p = 0x87fff000" using page_between by blast
next
  assume "p = 0x87ffe000 \<or> p = 0x87fff000"
  then show "managed two_pages p"
    by (auto simp: managed_def two_pages_def machine.defs page_aligned_def PHYSTOP_eq)
qed

lemma ld64_zero_mem [simp]: "ld64 (\<lambda>_. 0) a = 0"
  by (simp add: ld64_def)

lemma two_pages_inv: "kmem_inv two_pages" "avail two_pages = {0x87ffe000, 0x87fff000}"
proof -
  let ?m = "st64 (\<lambda>_. 0) 0x87ffe000 0x87fff000"
  have "ld64 ?m 0x87ffe000 = 0x87fff000" "ld64 ?m 0x87fff000 = 0"
    by (simp_all add: ld64_st64_page page_aligned_def ld64_zero_mem)
  then have "kmem_rel two_pages [0x87ffe000, 0x87fff000]"
    unfolding kmem_rel_def two_pages_managed by (auto simp: two_pages_def machine.defs KERNBASE_def)
  moreover have "kmem_ready two_pages"
    by (simp add: kmem_ready_def two_pages_def machine.defs machine0_def cpu_ok_def lock_free_def mycpu_def)
  ultimately show "kmem_inv two_pages" by (auto simp: kmem_inv_def)
  show "avail two_pages = {0x87ffe000, 0x87fff000}"
    unfolding avail_def two_pages_managed by (auto simp: two_pages_def machine.defs)
qed

section \<open>Properties\<close>

text \<open>
  C22: kinit, run at boot with the list and the counts still zero, returns with the
  allocator's invariant established and every page between the end of the kernel and
  PHYSTOP free, each with count zero. Its loop ends.
\<close>

theorem kinit_frees_all:
  assumes "cpu_ok s" "KERNBASE \<le> kernel_end s" "kernel_end s \<le> PHYSTOP" "freelist s = 0"
    "pgref s = (\<lambda>_. 0)"
  shows "\<exists>t. kinit s = Ok () t \<and> kmem_inv t \<and> avail t = {p. managed s p}"
  using kinit_ok [OF assms] by blast

theorem kinit_frees_all_witness:
  "\<exists>t. kinit (two_pages\<lparr>freelist := 0\<rparr>) = Ok () t \<and> kmem_inv t \<and>
    avail t = {p. managed (two_pages\<lparr>freelist := 0\<rparr>) p}"
  by (rule kinit_frees_all)
    (simp_all add: two_pages_def machine.defs machine0_def cpu_ok_def mycpu_def KERNBASE_def PHYSTOP_eq)

text \<open>
  C14: under the allocator's invariant kalloc returns and keeps the invariant. When no page
  is free it gives the null pointer and changes no count; otherwise it gives a free page,
  now with count one and filled with the byte 5, takes it off the free pages and touches
  neither the count nor the contents of any page in use.
\<close>

theorem kalloc_hands_out_free_page:
  assumes "kmem_inv s"
  shows "\<exists>p t. kalloc s = Ok p t \<and> kmem_inv t \<and>
    (if avail s = {} then p = 0 \<and> avail t = {} \<and> refs t = refs s \<and> mem t = mem s
     else p \<in> avail s \<and> avail t = avail s - {p} \<and> refs t = (refs s)(p := 1) \<and>
       (\<forall>a. mem t a = (if PGROUNDDOWN a = p then 5 else mem s a)))"
proof (cases "avail s = {}")
  case True
  with assms show ?thesis by (simp add: kalloc_exhausted)
next
  case False
  then obtain p where p: "kalloc s = Ok p (after_kalloc p s)" "p \<in> avail s"
    "kmem_inv (after_kalloc p s)" "avail (after_kalloc p s) = avail s - {p}"
    "refs (after_kalloc p s) = (refs s)(p := 1)"
    using kalloc_some [OF assms] by blast
  then have "page_aligned p" by (simp add: avail_def managed_def)
  then have "\<forall>a. mem (after_kalloc p s) a = (if PGROUNDDOWN a = p then 5 else mem s a)"
    by (simp add: after_kalloc_def memset_page)
  with False p show ?thesis by auto
qed

text \<open>
  C13: releasing a page that has users returns, keeps the invariant, and lowers the count by
  one; the page becomes free exactly when its last user lets go.
\<close>

theorem kfree_drops_reference:
  assumes "kmem_inv s" "0 < refs s p"
  shows "\<exists>t. kfree p s = Ok () t \<and> kmem_inv t \<and> refs t = (refs s)(p := refs s p - 1) \<and>
    avail t = (if refs s p = 1 then insert p (avail s) else avail s)"
proof (cases "refs s p = 1")
  case True
  then show ?thesis using kfree_last_inv [OF assms(1)] by auto
next
  case False
  then have "1 < refs s p" using assms(2) by simp
  then show ?thesis using kfree_shared_inv [OF assms(1)] by auto
qed

text \<open>
  C23: n allocations in a row, with at least n free pages, all succeed and give n different
  pages that were free before.
\<close>

theorem kalloc_many_distinct:
  assumes "kmem_inv s" "n \<le> card (avail s)"
  shows "\<exists>ps t. alloc_many kalloc n s = Ok ps t \<and> kmem_inv t \<and> length ps = n \<and> distinct ps \<and>
    set ps \<subseteq> avail s \<and> avail t = avail s - set ps"
  using assms by (rule pa.alloc_many_distinct)

theorem kalloc_hands_out_free_page_witness:
  "avail two_pages \<noteq> {} \<and> (\<exists>p t. kalloc two_pages = Ok p t \<and> kmem_inv t \<and> p \<in> avail two_pages)"
  using kalloc_hands_out_free_page [OF two_pages_inv(1)] two_pages_inv(2) by auto

theorem kfree_drops_reference_witness:
  "\<exists>p s. 0 < refs s p \<and> kmem_inv (s :: kmem) \<and> (\<exists>t. kfree p s = Ok () t \<and> avail t = {0x87ffe000, 0x87fff000})"
proof -
  have "avail two_pages \<noteq> {}" using two_pages_inv(2) by simp
  then obtain p where p: "p \<in> avail two_pages" "kmem_inv (after_kalloc p two_pages)"
    "avail (after_kalloc p two_pages) = avail two_pages - {p}"
    "refs (after_kalloc p two_pages) = (refs two_pages)(p := 1)"
    using kalloc_some [OF two_pages_inv(1)] by blast
  then have one: "refs (after_kalloc p two_pages) p = 1" by simp
  with kfree_drops_reference [OF p(2), of p] p(1,3) two_pages_inv(2)
  have "\<exists>t. kfree p (after_kalloc p two_pages) = Ok () t \<and> avail t = {0x87ffe000, 0x87fff000}"
    by (auto simp: insert_absorb)
  with p(2) one show ?thesis by (intro exI [of _ p] exI [of _ "after_kalloc p two_pages"]) simp
qed

theorem kalloc_many_distinct_witness:
  "\<exists>ps t. alloc_many kalloc 2 two_pages = Ok ps t \<and> length ps = 2 \<and> distinct ps \<and> avail t = avail two_pages - set ps"
proof -
  have "2 \<le> card (avail two_pages)" by (simp add: two_pages_inv(2))
  from kalloc_many_distinct [OF two_pages_inv(1) this] show ?thesis by blast
qed

end
