(* ===== verification/Vm.thy ===== *)
theory Vm
  imports Kalloc
begin

text \<open>
  \<^verbatim>\<open>kernel/vm.c\<close> but for copyout, which needs the process table: the Sv39 page
  tables in physical memory. A pointer to a page table entry is the entry's physical
  address, and zero is the null pointer. The first part has the routines as the source
  has them; the second part reads the three-level tables as a partial function from paths
  to table pages and shows how each kind of write changes it.

  Loops carry a bound on their rounds; the bound handed over by each caller is the number
  of pages the source's loop condition allows, so it is never what ends a loop.
\<close>

section \<open>Routines\<close>

text \<open>Reading and writing a word, and filling a page.\<close>

definition load :: "u64 \<Rightarrow> ('z kmem_scheme, u64) routine" where
  "load a = gets (\<lambda>s. ld64 (mem s) a)"

definition store :: "u64 \<Rightarrow> u64 \<Rightarrow> ('z kmem_scheme, unit) routine" where
  "store a v = modify (\<lambda>s. s\<lparr>mem := st64 (mem s) a v\<rparr>)"

definition fill :: "u64 \<Rightarrow> u32 \<Rightarrow> ('z kmem_scheme, unit) routine" where
  "fill p c = modify (\<lambda>s. s\<lparr>mem := memset (mem s) p c (ucast PGSIZE)\<rparr>)"

text \<open>The loop of walk counts the level down to one.\<close>

fun walk_loop :: "nat \<Rightarrow> u64 \<Rightarrow> u64 \<Rightarrow> bool \<Rightarrow> ('z kmem_scheme, u64) routine" where
  "walk_loop 0 pagetable va alloc = ret (entry pagetable (PX 0 va))"
| "walk_loop (Suc l) pagetable va alloc =
     (let pte = entry pagetable (PX (Suc l) va) in
      bind (load pte) (\<lambda>v.
      if v AND PTE_V \<noteq> 0 then walk_loop l (PTE2PA v) va alloc
      else if \<not> alloc then ret 0
      else bind kalloc (\<lambda>p.
        if p = 0 then ret 0
        else sq (fill p 0) (sq (store pte (PA2PTE p OR PTE_V)) (walk_loop l p va alloc)))))"

definition walk :: "u64 \<Rightarrow> u64 \<Rightarrow> bool \<Rightarrow> ('z kmem_scheme, u64) routine" where
  "walk pagetable va alloc =
     sq (panic_if (va \<ge> MAXVA) ''walk'') (walk_loop 2 pagetable va alloc)"

definition walkaddr :: "u64 \<Rightarrow> u64 \<Rightarrow> ('z kmem_scheme, u64) routine" where
  "walkaddr pagetable va =
     (if va \<ge> MAXVA then ret 0
      else bind (walk pagetable va False) (\<lambda>pte.
        if pte = 0 then ret 0
        else bind (load pte) (\<lambda>v.
          if v AND PTE_V = 0 then ret 0
          else if v AND PTE_U = 0 then ret 0
          else ret (PTE2PA v))))"

text \<open>The argument perm holds flag bits only, which fit the \<^verbatim>\<open>int\<close> of the source.\<close>

fun mappages_loop :: "nat \<Rightarrow> u64 \<Rightarrow> u64 \<Rightarrow> u64 \<Rightarrow> u64 \<Rightarrow> u64 \<Rightarrow> ('z kmem_scheme, int) routine" where
  "mappages_loop 0 pagetable a last' pa perm = diverge"
| "mappages_loop (Suc n) pagetable a last' pa perm =
     bind (walk pagetable a True) (\<lambda>pte.
     if pte = 0 then ret (-1)
     else bind (load pte) (\<lambda>v.
       sq (panic_if (v AND PTE_V \<noteq> 0) ''mappages: remap'')
       (sq (store pte (PA2PTE pa OR perm OR PTE_V))
           (if a = last' then ret 0
            else mappages_loop n pagetable (a + PGSIZE) last' (pa + PGSIZE) perm))))"

definition mappages :: "u64 \<Rightarrow> u64 \<Rightarrow> u64 \<Rightarrow> u64 \<Rightarrow> u64 \<Rightarrow> ('z kmem_scheme, int) routine" where
  "mappages pagetable va sz pa perm =
     sq (panic_if (va mod PGSIZE \<noteq> 0) ''mappages: va not aligned'')
     (sq (panic_if (sz mod PGSIZE \<noteq> 0) ''mappages: size not aligned'')
     (sq (panic_if (sz = 0) ''mappages: size'')
         (mappages_loop (unat sz div 4096) pagetable va (va + sz - PGSIZE) pa perm)))"

definition kvmmap :: "u64 \<Rightarrow> u64 \<Rightarrow> u64 \<Rightarrow> u64 \<Rightarrow> u64 \<Rightarrow> ('z kmem_scheme, unit) routine" where
  "kvmmap kpgtbl va pa sz perm =
     bind (mappages kpgtbl va sz pa perm) (\<lambda>r. panic_if (r \<noteq> 0) ''kvmmap'')"

text \<open>proc.c: a kernel stack for each process.\<close>

definition proc_mapstacks :: "u64 \<Rightarrow> ('z kmem_scheme, unit) routine" where
  "proc_mapstacks kpgtbl = for_each [0..<NPROC] (\<lambda>i.
     bind kalloc (\<lambda>pa.
     sq (panic_if (pa = 0) ''kalloc'')
        (kvmmap kpgtbl (KSTACK i) pa PGSIZE (PTE_R OR PTE_W))))"

text \<open>The linker symbols etext and trampoline are arguments.\<close>

definition kvmmake :: "u64 \<Rightarrow> u64 \<Rightarrow> ('z kmem_scheme, u64) routine" where
  "kvmmake etext trampoline =
     bind kalloc (\<lambda>kpgtbl.
     sq (fill kpgtbl 0)
     (sq (kvmmap kpgtbl UART0 UART0 PGSIZE (PTE_R OR PTE_W))
     (sq (kvmmap kpgtbl VIRTIO0 VIRTIO0 PGSIZE (PTE_R OR PTE_W))
     (sq (kvmmap kpgtbl PLIC PLIC 0x400000 (PTE_R OR PTE_W))
     (sq (kvmmap kpgtbl KERNBASE KERNBASE (etext - KERNBASE) (PTE_R OR PTE_X))
     (sq (kvmmap kpgtbl etext etext (PHYSTOP - etext) (PTE_R OR PTE_W))
     (sq (kvmmap kpgtbl TRAMPOLINE trampoline PGSIZE (PTE_R OR PTE_X))
     (sq (proc_mapstacks kpgtbl)
         (ret kpgtbl)))))))))"

definition w_satp :: "u64 \<Rightarrow> ('z machine_scheme, unit) routine" where
  "w_satp x = modify (\<lambda>s. s\<lparr>harts := (harts s)(tp s := (harts s (tp s))\<lparr>satp := x\<rparr>)\<rparr>)"

text \<open>The fences of kvminithart act on the TLB, which is not part of the state.\<close>

definition kvminithart :: "u64 \<Rightarrow> ('z machine_scheme, unit) routine" where
  "kvminithart kernel_pagetable = w_satp (MAKE_SATP kernel_pagetable)"

fun uvmunmap_loop :: "nat \<Rightarrow> u64 \<Rightarrow> u64 \<Rightarrow> u64 \<Rightarrow> bool \<Rightarrow> ('z kmem_scheme, unit) routine" where
  "uvmunmap_loop n pagetable a end' do_free =
     (if a < end' then
        (case n of 0 \<Rightarrow> diverge | Suc n \<Rightarrow>
         bind (walk pagetable a False) (\<lambda>pte.
         sq (panic_if (pte = 0) ''uvmunmap: walk'')
         (bind (load pte) (\<lambda>v.
         sq (panic_if (v AND PTE_V = 0) ''uvmunmap: not mapped'')
         (sq (panic_if (PTE_FLAGS v = PTE_V) ''uvmunmap: not a leaf'')
         (sq (if do_free then kfree (PTE2PA v) else ret ())
         (sq (store pte 0)
             (uvmunmap_loop n pagetable (a + PGSIZE) end' do_free))))))))
      else ret ())"

definition uvmunmap :: "u64 \<Rightarrow> u64 \<Rightarrow> u64 \<Rightarrow> bool \<Rightarrow> ('z kmem_scheme, unit) routine" where
  "uvmunmap pagetable va npages do_free =
     sq (panic_if (va mod PGSIZE \<noteq> 0) ''uvmunmap: not aligned'')
        (uvmunmap_loop (unat (va + npages * PGSIZE) div 4096) pagetable va (va + npages * PGSIZE) do_free)"

definition uvmcreate :: "('z kmem_scheme, u64) routine" where
  "uvmcreate =
     bind kalloc (\<lambda>pagetable.
     if pagetable = 0 then ret 0 else sq (fill pagetable 0) (ret pagetable))"

text \<open>Writing a list of bytes that the kernel keeps outside the managed pages.\<close>

fun write_bytes :: "mem \<Rightarrow> u64 \<Rightarrow> u8 list \<Rightarrow> mem" where
  "write_bytes m a [] = m"
| "write_bytes m a (b # bs) = write_bytes (m(a := b)) (a + 1) bs"

definition uvmfirst :: "u64 \<Rightarrow> u8 list \<Rightarrow> ('z kmem_scheme, unit) routine" where
  "uvmfirst pagetable src =
     sq (panic_if (4096 \<le> length src) ''uvmfirst: more than a page'')
     (bind kalloc (\<lambda>p.
      sq (fill p 0)
      (sq (mappages pagetable 0 PGSIZE p (PTE_W OR PTE_R OR PTE_X OR PTE_U))
          (modify (\<lambda>s. s\<lparr>mem := write_bytes (mem s) p src\<rparr>)))))"

definition uvmdealloc :: "u64 \<Rightarrow> u64 \<Rightarrow> u64 \<Rightarrow> ('z kmem_scheme, u64) routine" where
  "uvmdealloc pagetable oldsz newsz =
     (if newsz \<ge> oldsz then ret oldsz
      else sq (if PGROUNDUP newsz < PGROUNDUP oldsz
               then (let npages = ucast ((PGROUNDUP oldsz - PGROUNDUP newsz) div PGSIZE) :: u32
                     in uvmunmap pagetable (PGROUNDUP newsz) (scast npages) True)
               else ret ())
              (ret newsz))"

fun uvmalloc_loop :: "nat \<Rightarrow> u64 \<Rightarrow> u64 \<Rightarrow> u64 \<Rightarrow> u64 \<Rightarrow> u64 \<Rightarrow> ('z kmem_scheme, u64) routine" where
  "uvmalloc_loop n pagetable a oldsz newsz xperm =
     (if a < newsz then
        (case n of 0 \<Rightarrow> diverge | Suc n \<Rightarrow>
         bind kalloc (\<lambda>p.
         if p = 0 then sq (uvmdealloc pagetable a oldsz) (ret 0)
         else sq (fill p 0)
           (bind (mappages pagetable a PGSIZE p (PTE_R OR PTE_U OR xperm)) (\<lambda>r.
            if r \<noteq> 0 then sq (kfree p) (sq (uvmdealloc pagetable a oldsz) (ret 0))
            else uvmalloc_loop n pagetable (a + PGSIZE) oldsz newsz xperm))))
      else ret newsz)"

definition uvmalloc :: "u64 \<Rightarrow> u64 \<Rightarrow> u64 \<Rightarrow> u64 \<Rightarrow> ('z kmem_scheme, u64) routine" where
  "uvmalloc pagetable oldsz newsz xperm =
     (if newsz < oldsz then ret oldsz
      else uvmalloc_loop (unat newsz div 4096 + 1) pagetable (PGROUNDUP oldsz) (PGROUNDUP oldsz) newsz xperm)"

declare uvmunmap_loop.simps [simp del] uvmalloc_loop.simps [simp del]

text \<open>
  freewalk recurses once per level. The first argument bounds the depth: three levels for
  the tables walk builds.
\<close>

fun freewalk :: "nat \<Rightarrow> u64 \<Rightarrow> ('z kmem_scheme, unit) routine" where
  "freewalk 0 pagetable = diverge"
| "freewalk (Suc d) pagetable =
     sq (for_each (map of_nat [0..<512]) (\<lambda>i.
          bind (load (entry pagetable i)) (\<lambda>pte.
          if pte AND PTE_V \<noteq> 0 \<and> pte AND (PTE_R OR PTE_W OR PTE_X) = 0
          then sq (freewalk d (PTE2PA pte)) (store (entry pagetable i) 0)
          else panic_if (pte AND PTE_V \<noteq> 0) ''freewalk: leaf'')))
        (kfree pagetable)"

definition uvmfree :: "u64 \<Rightarrow> u64 \<Rightarrow> ('z kmem_scheme, unit) routine" where
  "uvmfree pagetable sz =
     sq (if sz > 0 then uvmunmap pagetable 0 (PGROUNDUP sz div PGSIZE) True else ret ())
        (freewalk 3 pagetable)"

fun uvmcopy_loop :: "nat \<Rightarrow> u64 \<Rightarrow> u64 \<Rightarrow> u64 \<Rightarrow> u64 \<Rightarrow> ('z kmem_scheme, int) routine" where
  "uvmcopy_loop n old new i sz =
     (if i < sz then
        (case n of 0 \<Rightarrow> diverge | Suc n \<Rightarrow>
         bind (walk old i False) (\<lambda>pte.
         sq (panic_if (pte = 0) ''uvmcopy: pte should exist'')
         (bind (load pte) (\<lambda>v.
         sq (panic_if (v AND PTE_V = 0) ''uvmcopy: page not present'')
         (let pa = PTE2PA v in
          sq (if v AND PTE_W \<noteq> 0 \<or> v AND PTE_COW \<noteq> 0
              then store pte ((v AND NOT PTE_W) OR PTE_COW) else ret ())
          (bind (load pte) (\<lambda>v.
           let flags = PTE_FLAGS v in
           bind (mappages new i PGSIZE pa flags) (\<lambda>r.
           if r \<noteq> 0 then sq (uvmunmap new 0 (i div PGSIZE) True) (ret (-1))
           else sq (incref pa) (uvmcopy_loop n old new (i + PGSIZE) sz)))))))))
      else ret 0)"

definition uvmcopy :: "u64 \<Rightarrow> u64 \<Rightarrow> u64 \<Rightarrow> ('z kmem_scheme, int) routine" where
  "uvmcopy old new sz = uvmcopy_loop (unat sz div 4096 + 1) old new 0 sz"

declare uvmcopy_loop.simps [simp del]

definition uvmclear :: "u64 \<Rightarrow> u64 \<Rightarrow> ('z kmem_scheme, unit) routine" where
  "uvmclear pagetable va =
     bind (walk pagetable va False) (\<lambda>pte.
     sq (panic_if (pte = 0) ''uvmclear'')
     (bind (load pte) (\<lambda>v. store pte (v AND NOT PTE_U))))"

text \<open>
  copyin and copyinstr write to a kernel buffer. They return their result together with
  the bytes written from the start of the buffer on.
\<close>

definition read_bytes :: "mem \<Rightarrow> u64 \<Rightarrow> nat \<Rightarrow> u8 list" where
  "read_bytes m a n = map (\<lambda>k. m (a + of_nat k)) [0..<n]"

definition chunk :: "u64 \<Rightarrow> u64 \<Rightarrow> u64" where
  "chunk va len = (let n = PGSIZE - (va - PGROUNDDOWN va) in if n > len then len else n)"

fun copyin_loop :: "nat \<Rightarrow> u64 \<Rightarrow> u64 \<Rightarrow> u64 \<Rightarrow> u8 list \<Rightarrow> ('z kmem_scheme, int \<times> u8 list) routine" where
  "copyin_loop n pagetable srcva len dst =
     (if len > 0 then
        (case n of 0 \<Rightarrow> diverge | Suc n \<Rightarrow>
         let va0 = PGROUNDDOWN srcva in
         bind (walkaddr pagetable va0) (\<lambda>pa0.
         if pa0 = 0 then ret (-1, dst)
         else let k = chunk srcva len in
           bind (gets (\<lambda>s. read_bytes (mem s) (pa0 + (srcva - va0)) (unat k))) (\<lambda>bs.
           copyin_loop n pagetable (va0 + PGSIZE) (len - k) (dst @ bs))))
      else ret (0, dst))"

definition copyin :: "u64 \<Rightarrow> u64 \<Rightarrow> u64 \<Rightarrow> ('z kmem_scheme, int \<times> u8 list) routine" where
  "copyin pagetable srcva len = copyin_loop (unat len div 4096 + 2) pagetable srcva len []"

text \<open>The inner loop of copyinstr: up to \<open>n\<close> bytes from \<open>p\<close>, and whether a nul was met.\<close>

fun str_chunk :: "mem \<Rightarrow> u64 \<Rightarrow> nat \<Rightarrow> u8 list \<times> bool" where
  "str_chunk m p 0 = ([], False)"
| "str_chunk m p (Suc n) =
     (if m p = 0 then ([0], True)
      else let (bs, got) = str_chunk m (p + 1) n in (m p # bs, got))"

fun copyinstr_loop :: "nat \<Rightarrow> u64 \<Rightarrow> u64 \<Rightarrow> u64 \<Rightarrow> u8 list \<Rightarrow> ('z kmem_scheme, int \<times> u8 list) routine" where
  "copyinstr_loop n pagetable srcva max' dst =
     (if max' > 0 then
        (case n of 0 \<Rightarrow> diverge | Suc n \<Rightarrow>
         let va0 = PGROUNDDOWN srcva in
         bind (walkaddr pagetable va0) (\<lambda>pa0.
         if pa0 = 0 then ret (-1, dst)
         else let k = chunk srcva max' in
           bind (gets (\<lambda>s. str_chunk (mem s) (pa0 + (srcva - va0)) (unat k))) (\<lambda>(bs, got).
           if got then ret (0, dst @ bs)
           else copyinstr_loop n pagetable (va0 + PGSIZE) (max' - k) (dst @ bs))))
      else ret (-1, dst))"

definition copyinstr :: "u64 \<Rightarrow> u64 \<Rightarrow> u64 \<Rightarrow> ('z kmem_scheme, int \<times> u8 list) routine" where
  "copyinstr pagetable srcva max' = copyinstr_loop (unat max' div 4096 + 2) pagetable srcva max' []"

declare copyin_loop.simps [simp del] copyinstr_loop.simps [simp del]

end
