(* ===== verification/Tables.thy ===== *)
theory Tables
  imports Vm
begin

text \<open>
  The three-level page tables of \<^verbatim>\<open>kernel/vm.c\<close> as the kernel means them. For a
  set of roots, \<open>node\<close> gives the table page that a path of indices leads to and
  \<open>pte_at\<close> the entry of a virtual address. A \<open>forest\<close> is a set of roots whose table
  pages are all different, so that a write to one entry changes one path only. The
  lemmas here say what the two kinds of write that vm.c does (hanging a fresh table into
  a free entry, and setting a leaf entry) and writes to other pages do to \<open>node\<close> and
  \<open>pte_at\<close>.
\<close>

section \<open>Paths\<close>

definition valid :: "u64 \<Rightarrow> bool" where
  "valid e \<longleftrightarrow> e AND PTE_V \<noteq> 0"

definition child :: "mem \<Rightarrow> u64 \<Rightarrow> u64 \<Rightarrow> u64 option" where
  "child m t i = (let e = ld64 m (entry t i) in if valid e then Some (PTE2PA e) else None)"

fun node :: "mem \<Rightarrow> u64 \<Rightarrow> u64 list \<Rightarrow> u64 option" where
  "node m t [] = Some t"
| "node m t (i # q) = (case child m t i of None \<Rightarrow> None | Some u \<Rightarrow> node m u q)"

definition okpath :: "u64 list \<Rightarrow> bool" where
  "okpath q \<longleftrightarrow> length q \<le> 2 \<and> (\<forall>i\<in>set q. unat i < 512)"

definition vpath :: "u64 \<Rightarrow> u64 list" where
  "vpath va = [PX 2 va, PX 1 va]"

definition pte_at :: "mem \<Rightarrow> u64 \<Rightarrow> u64 \<Rightarrow> u64" where
  "pte_at m r va = (case node m r (vpath va) of None \<Rightarrow> 0 | Some t \<Rightarrow> ld64 m (entry t (PX 0 va)))"

definition is_table :: "mem \<Rightarrow> u64 set \<Rightarrow> u64 \<Rightarrow> bool" where
  "is_table m R p \<longleftrightarrow> (\<exists>r\<in>R. \<exists>q. okpath q \<and> node m r q = Some p)"

definition forest :: "mem \<Rightarrow> u64 set \<Rightarrow> bool" where
  "forest m R \<longleftrightarrow> (\<forall>r\<in>R. page_aligned r) \<and>
     (\<forall>r\<in>R. \<forall>r'\<in>R. \<forall>q q' p. okpath q \<and> okpath q' \<and> node m r q = Some p \<and> node m r' q' = Some p \<longrightarrow>
        r = r' \<and> q = q')"

lemma not_valid_0 [simp]: "\<not> valid 0"
  by (simp add: valid_def)

lemma node_snoc: "node m r (q @ [i]) = (case node m r q of None \<Rightarrow> None | Some t \<Rightarrow> child m t i)"
  by (induction q arbitrary: r) (auto split: option.split)

lemma okpath_Nil [simp]: "okpath []"
  by (simp add: okpath_def)

lemma okpath_snoc: "okpath (q @ [i]) \<longleftrightarrow> length q \<le> 1 \<and> okpath q \<and> unat i < 512"
  by (auto simp: okpath_def)

lemma okpath_vpath [simp]: "okpath (vpath va)"
  by (simp add: okpath_def vpath_def PX_less)

lemma length_vpath [simp]: "length (vpath va) = 2"
  by (simp add: vpath_def)

lemma node_aligned: "page_aligned r \<Longrightarrow> node m r q = Some p \<Longrightarrow> page_aligned p"
  by (cases q rule: rev_cases) (auto simp: node_snoc child_def Let_def split: option.splits if_splits)

lemma forest_aligned: "forest m R \<Longrightarrow> r \<in> R \<Longrightarrow> node m r q = Some p \<Longrightarrow> page_aligned p"
  using node_aligned by (auto simp: forest_def)

lemma forest_inj:
  "forest m R \<Longrightarrow> r \<in> R \<Longrightarrow> r' \<in> R \<Longrightarrow> okpath q \<Longrightarrow> okpath q' \<Longrightarrow>
   node m r q = Some p \<Longrightarrow> node m r' q' = Some p \<Longrightarrow> r = r' \<and> q = q'"
  unfolding forest_def by blast

lemma is_tableI: "r \<in> R \<Longrightarrow> okpath q \<Longrightarrow> node m r q = Some p \<Longrightarrow> is_table m R p"
  by (auto simp: is_table_def)

lemma is_table_aligned: "forest m R \<Longrightarrow> is_table m R p \<Longrightarrow> page_aligned p"
  using forest_aligned by (auto simp: is_table_def)

section \<open>Writes outside the tables\<close>

lemma child_same_page:
  "same_page m m' t \<Longrightarrow> page_aligned t \<Longrightarrow> unat i < 512 \<Longrightarrow> child m' t i = child m t i"
  by (simp add: child_def ld64_same_page)

lemma node_frame:
  assumes "forest m R" "\<And>p. is_table m R p \<Longrightarrow> same_page m m' p" "r \<in> R" "okpath q"
  shows "node m' r q = node m r q"
  using assms(4)
proof (induction q rule: rev_induct)
  case Nil
  show ?case by simp
next
  case (snoc i q)
  then have ok: "okpath q" "unat i < 512" by (auto simp: okpath_snoc)
  with snoc.IH have IH: "node m' r q = node m r q" by blast
  show ?case
  proof (cases "node m r q")
    case (Some t)
    have "is_table m R t" using Some ok assms(3) by (intro is_tableI)
    then have "child m' t i = child m t i"
      using assms(1,2) ok(2) is_table_aligned by (intro child_same_page) auto
    with Some IH show ?thesis by (simp add: node_snoc)
  qed (simp add: node_snoc IH)
qed

lemma pte_at_frame:
  assumes "forest m R" "\<And>p. is_table m R p \<Longrightarrow> same_page m m' p" "r \<in> R"
  shows "pte_at m' r va = pte_at m r va"
proof -
  have n: "node m' r (vpath va) = node m r (vpath va)" using assms by (intro node_frame) auto
  show ?thesis
  proof (cases "node m r (vpath va)")
    case (Some t)
    then have "is_table m R t" using assms(3) by (intro is_tableI) auto
    then have "ld64 m (entry t (PX 0 va)) = ld64 m' (entry t (PX 0 va))"
      using assms is_table_aligned PX_less by (intro ld64_same_page) auto
    with n Some show ?thesis by (simp add: pte_at_def)
  qed (simp add: pte_at_def n)
qed

lemma forest_node_cong:
  assumes "forest m R" "\<And>r q. r \<in> R \<Longrightarrow> okpath q \<Longrightarrow> node m' r q = node m r q"
  shows "forest m' R" "is_table m' R p = is_table m R p"
proof -
  show "forest m' R"
    unfolding forest_def
  proof (intro conjI ballI allI impI)
    fix r assume "r \<in> R"
    then show "page_aligned r" using assms(1) by (simp add: forest_def)
  next
    fix r r' q q' p
    assume "r \<in> R" "r' \<in> R" "okpath q \<and> okpath q' \<and> node m' r q = Some p \<and> node m' r' q' = Some p"
    then show "r = r'" "q = q'" using forest_inj [OF assms(1)] assms(2) by metis+
  qed
  show "is_table m' R p = is_table m R p" unfolding is_table_def by (metis assms(2))
qed

section \<open>Setting a leaf entry\<close>

lemma node_leaf:
  assumes f: "forest m R" and r: "r \<in> R" "node m r (vpath va) = Some t"
    and q: "r' \<in> R" "okpath q"
  shows "node (st64 m (entry t (PX 0 va)) v) r' q = node m r' q"
  using q(2)
proof (induction q rule: rev_induct)
  case Nil
  show ?case by simp
next
  case (snoc i q)
  then have ok: "okpath q" "unat i < 512" "length q \<le> 1" by (auto simp: okpath_snoc)
  show ?case
  proof (cases "node m r' q")
    case (Some u)
    have "u \<noteq> t"
      using forest_inj [OF f r(1) q(1) _ ok(1) r(2), of] Some ok(3) by auto
    moreover have "page_aligned u" "page_aligned t" using forest_aligned f q(1) r Some by blast+
    ultimately have "child (st64 m (entry t (PX 0 va)) v) u i = child m u i"
      using ok(2) PX_less by (simp add: child_def ld64_st64_entry)
    with Some snoc.IH ok(1) show ?thesis by (simp add: node_snoc)
  qed (use snoc.IH ok(1) in \<open>simp add: node_snoc\<close>)
qed

lemma vpath_page:
  "va < MAXVA \<Longrightarrow> vb < MAXVA \<Longrightarrow>
   vpath va = vpath vb \<and> PX 0 va = PX 0 vb \<longleftrightarrow> PGROUNDDOWN va = PGROUNDDOWN vb"
  using PX_page_inj [of va vb] PX_PGROUNDDOWN [of _ va] PX_PGROUNDDOWN [of _ vb]
  by (auto simp: vpath_def)

lemma pte_at_leaf:
  assumes f: "forest m R" and r: "r \<in> R" "node m r (vpath va) = Some t" and r': "r' \<in> R"
    and va: "va < MAXVA" "vb < MAXVA"
  shows "pte_at (st64 m (entry t (PX 0 va)) v) r' vb =
    (if r' = r \<and> PGROUNDDOWN vb = PGROUNDDOWN va then v else pte_at m r' vb)"
proof -
  let ?m = "st64 m (entry t (PX 0 va)) v"
  have n: "node ?m r' (vpath vb) = node m r' (vpath vb)" using node_leaf [OF f r r'] by simp
  show ?thesis
  proof (cases "node m r' (vpath vb)")
    case None
    then have "\<not> (r' = r \<and> vpath vb = vpath va)" using r(2) by auto
    then show ?thesis using None n vpath_page [OF va(2,1)] unfolding pte_at_def by simp blast
  next
    case (Some u)
    have al: "page_aligned u" "page_aligned t" using forest_aligned f r' r Some by blast+
    have "u = t \<longleftrightarrow> r' = r \<and> vpath vb = vpath va"
      using forest_inj [OF f r' r(1) okpath_vpath okpath_vpath [of va] Some] Some r(2) by auto
    then have "u = t \<and> PX 0 vb = PX 0 va \<longleftrightarrow> r' = r \<and> PGROUNDDOWN vb = PGROUNDDOWN va"
      using vpath_page [OF va(2,1)] by blast
    then show ?thesis
      using Some n al PX_less by (auto simp: pte_at_def ld64_st64_entry)
  qed
qed

section \<open>Hanging a fresh table into an entry\<close>

lemma node_link:
  assumes f: "forest m R" and r: "r \<in> R" "node m r q = Some t" and ok: "okpath (q @ [i])"
    and inv: "\<not> valid (ld64 m (entry t i))"
    and p: "page_aligned p" "\<not> is_table m R p"
    and m': "\<And>u j. is_table m R u \<Longrightarrow> unat j < 512 \<Longrightarrow>
        ld64 m' (entry u j) = (if u = t \<and> j = i then PA2PTE p OR PTE_V else ld64 m (entry u j))"
    and z: "\<And>j. unat j < 512 \<Longrightarrow> ld64 m' (entry p j) = 0"
    and q': "r' \<in> R" "okpath q'"
  shows "node m' r' q' = (if r' = r \<and> q' = q @ [i] then Some p else node m r' q')"
  using q'(2)
proof (induction q' rule: rev_induct)
  case Nil
  show ?case by simp
next
  case (snoc j q'')
  then have ok': "okpath q''" "unat j < 512" by (auto simp: okpath_snoc)
  note IH = snoc.IH [OF ok'(1)]
  have none: "node m r (q @ [i]) = None" using r(2) inv by (simp add: node_snoc child_def)
  show ?case
  proof (cases "r' = r \<and> q'' = q @ [i]")
    case True
    then have a: "node m' r' q'' = Some p" "node m r' q'' = None" using IH none by simp_all
    then have "node m' r' (q'' @ [j]) = None" using z [OF ok'(2)] by (simp add: node_snoc child_def)
    moreover have "node m r' (q'' @ [j]) = None" using a(2) by (simp add: node_snoc)
    ultimately show ?thesis using True by simp
  next
    case False
    then have n: "node m' r' q'' = node m r' q''" using IH by (simp only: if_False)
    show ?thesis
    proof (cases "node m r' q''")
      case None
      then have "\<not> (r' = r \<and> q'' = q)" using r(2) by auto
      with None n show ?thesis by (auto simp: node_snoc)
    next
      case (Some u)
      have "okpath q" using ok by (simp add: okpath_snoc)
      then have ut: "u = t \<longleftrightarrow> r' = r \<and> q'' = q"
        by (metis Some f forest_inj ok'(1) option.inject q'(1) r)
      have "is_table m R u" using Some q'(1) ok'(1) by (intro is_tableI)
      then have "child m' u j = (if u = t \<and> j = i then Some p else child m u j)"
        using m' [OF _ ok'(2)] p(1) PTE2PA_PA2PTE [OF p(1), of PTE_V]
        by (simp add: child_def valid_def PTE_V_def and.assoc bit.conj_disj_distrib2)
      with Some n ut show ?thesis by (auto simp: node_snoc)
    qed
  qed
qed

lemma pte_at_link:
  assumes f: "forest m R" and r: "r \<in> R" "node m r q = Some t" and ok: "okpath (q @ [i])"
    and inv: "\<not> valid (ld64 m (entry t i))"
    and p: "page_aligned p" "\<not> is_table m R p"
    and m': "\<And>u j. is_table m R u \<Longrightarrow> unat j < 512 \<Longrightarrow>
        ld64 m' (entry u j) = (if u = t \<and> j = i then PA2PTE p OR PTE_V else ld64 m (entry u j))"
    and z: "\<And>j. unat j < 512 \<Longrightarrow> ld64 m' (entry p j) = 0"
    and r': "r' \<in> R"
  shows "pte_at m' r' va = pte_at m r' va"
proof -
  have n: "node m' r' (vpath va) = (if r' = r \<and> vpath va = q @ [i] then Some p else node m r' (vpath va))"
    using node_link [OF f r ok inv p m' z r'] by simp
  have none: "node m r (q @ [i]) = None" using r(2) inv by (simp add: node_snoc child_def)
  show ?thesis
  proof (cases "r' = r \<and> vpath va = q @ [i]")
    case True
    then show ?thesis using n none z [OF PX_less, of 0 va] by (simp add: pte_at_def)
  next
    case False
    show ?thesis
    proof (cases "node m r' (vpath va)")
      case (Some u)
      have "okpath q" "length q \<le> 1" using ok by (simp_all add: okpath_snoc)
      then have "u \<noteq> t" using forest_inj [OF f r' r(1) okpath_vpath _ Some, of q] r(2) length_vpath [of va] by auto
      moreover have "is_table m R u" using Some r' by (intro is_tableI) auto
      ultimately show ?thesis using m' [of u "PX 0 va"] PX_less n False Some by (simp add: pte_at_def)
    qed (use n False in \<open>simp add: pte_at_def\<close>)
  qed
qed

lemma forest_link:
  assumes f: "forest m R" and p: "\<not> is_table m R p" and r: "r \<in> R" and ok: "okpath q0"
    and n: "\<And>r' q'. r' \<in> R \<Longrightarrow> okpath q' \<Longrightarrow>
        node m' r' q' = (if r' = r \<and> q' = q0 then Some p else node m r' q')"
    and none: "node m r q0 = None"
  shows "forest m' R" "is_table m' R u \<longleftrightarrow> is_table m R u \<or> u = p"
proof -
  have np: "node m r' q' \<noteq> Some p" if "r' \<in> R" "okpath q'" for r' q'
    using that p by (auto simp: is_table_def)
  show "forest m' R"
    unfolding forest_def
  proof (intro conjI ballI allI impI)
    fix r assume "r \<in> R"
    then show "page_aligned r" using f by (simp add: forest_def)
  next
    fix r1 r2 q1 q2 t
    assume a: "r1 \<in> R" "r2 \<in> R" "okpath q1 \<and> okpath q2 \<and> node m' r1 q1 = Some t \<and> node m' r2 q2 = Some t"
    then have "r1 = r2 \<and> q1 = q2"
      using np n forest_inj [OF f a(1,2), of q1 q2 t] by (auto split: if_splits)
    then show "r1 = r2" "q1 = q2" by auto
  qed
  show "is_table m' R u \<longleftrightarrow> is_table m R u \<or> u = p"
  proof
    assume "is_table m' R u"
    then obtain r' q' where "r' \<in> R" "okpath q'" "node m' r' q' = Some u" by (auto simp: is_table_def)
    then show "is_table m R u \<or> u = p" using n by (auto simp: is_table_def split: if_splits)
  next
    assume "is_table m R u \<or> u = p"
    then show "is_table m' R u"
    proof
      assume "is_table m R u"
      then obtain r' q' where "r' \<in> R" "okpath q'" "node m r' q' = Some u" by (auto simp: is_table_def)
      moreover from this have "\<not> (r' = r \<and> q' = q0)" using none by auto
      ultimately show ?thesis using n by (intro is_tableI [of r' R q']) auto
    next
      assume "u = p"
      then show ?thesis using n [OF r ok] r ok by (intro is_tableI) auto
    qed
  qed
qed

end
