(* ===== verification/Addrspace.thy ===== *)
theory Addrspace
  imports Tables
begin

text \<open>
  The invariant of the page tables together with the page allocator, and that the routines
  of \<^verbatim>\<open>kernel/vm.c\<close> keep it. A page that the allocator counts is owned by table
  positions and by user mappings of the page tables in a set of roots; what is left of its
  count (trapframes, pipes, kernel stacks, pages a routine has just allocated) is given by
  a function \<open>ext\<close>. The mappings at and above TRAPFRAME (the trapframe and the
  trampoline) do not own their pages, as uvmunmap is told not to free them.
\<close>

section \<open>Owners of a page\<close>

datatype owner = Table "u64 list" | Leaf u64

fun page_at :: "mem \<Rightarrow> u64 \<Rightarrow> owner \<Rightarrow> u64 option" where
  "page_at m r (Table q) = (if okpath q then node m r q else None)"
| "page_at m r (Leaf va) =
     (if page_aligned va \<and> va < TRAPFRAME \<and> valid (pte_at m r va) then Some (PTE2PA (pte_at m r va)) else None)"

definition owners :: "mem \<Rightarrow> u64 set \<Rightarrow> u64 \<Rightarrow> (u64 \<times> owner) set" where
  "owners m R p = {(r, w). r \<in> R \<and> page_at m r w = Some p}"

definition vm_inv :: "'z kmem_scheme \<Rightarrow> u64 set \<Rightarrow> (u64 \<Rightarrow> int) \<Rightarrow> bool" where
  "vm_inv s R ext \<longleftrightarrow> kmem_inv s \<and> finite R \<and> forest (mem s) R \<and>
     (\<forall>p. is_table (mem s) R p \<longrightarrow> refs s p = 1) \<and>
     (\<forall>r\<in>R. \<forall>va p. page_at (mem s) r (Leaf va) = Some p \<longrightarrow> 0 < refs s p \<and> \<not> is_table (mem s) R p) \<and>
     (\<forall>p. managed s p \<longrightarrow> int (refs s p) = int (card (owners (mem s) R p)) + ext p)"

lemma finite_owners: "finite R \<Longrightarrow> finite (owners m R p)"
proof -
  assume "finite R"
  have "owners m R p \<subseteq> R \<times> (Table ` {q. set q \<subseteq> UNIV \<and> length q \<le> 2} \<union> range Leaf)"
    by (auto simp: owners_def okpath_def split: if_splits elim!: page_at.elims)
  moreover have "finite \<dots>"
    using \<open>finite R\<close> by (intro finite_cartesian_product finite_UnI finite_imageI finite_lists_length_le) auto
  ultimately show ?thesis by (rule finite_subset)
qed

lemma vm_invD:
  assumes "vm_inv s R ext"
  shows "kmem_inv s" "finite R" "forest (mem s) R" "is_table (mem s) R p \<Longrightarrow> refs s p = 1"
    "r \<in> R \<Longrightarrow> page_at (mem s) r (Leaf va) = Some p \<Longrightarrow> 0 < refs s p"
    "r \<in> R \<Longrightarrow> page_at (mem s) r (Leaf va) = Some p \<Longrightarrow> \<not> is_table (mem s) R p"
    "managed s p \<Longrightarrow> int (refs s p) = int (card (owners (mem s) R p)) + ext p"
  using assms unfolding vm_inv_def by blast+

lemma is_table_managed: "vm_inv s R ext \<Longrightarrow> is_table (mem s) R p \<Longrightarrow> managed s p"
  using vm_invD(4) [of s R ext p] refs_managed [of s p] by simp

lemma owned_pos: "vm_inv s R ext \<Longrightarrow> r \<in> R \<Longrightarrow> page_at (mem s) r w = Some p \<Longrightarrow> 0 < refs s p"
  using vm_invD(4,5) [of s R ext]
  by (cases w) (fastforce simp: is_table_def split: if_splits)+

lemma avail_unowned: "vm_inv s R ext \<Longrightarrow> p \<in> avail s \<Longrightarrow> owners (mem s) R p = {}"
  using owned_pos kmem_inv_refs_avail by (fastforce simp: owners_def)

lemma avail_not_table: "vm_inv s R ext \<Longrightarrow> p \<in> avail s \<Longrightarrow> \<not> is_table (mem s) R p"
  using vm_invD(4) kmem_inv_refs_avail by fastforce

lemma avail_managed: "p \<in> avail s \<Longrightarrow> managed s p"
  by (simp add: avail_def)

section \<open>Frames\<close>

lemma same_page_sym: "same_page m m' p \<Longrightarrow> same_page m' m p"
  by (simp add: same_page_def)

lemma kmem_inv_mem:
  assumes "kmem_inv s" "\<And>q. q \<in> avail s \<Longrightarrow> same_page (mem s) m q"
  shows "kmem_inv (s\<lparr>mem := m\<rparr>)"
proof -
  from assms(1) obtain fl where r: "kmem_ready s" "kmem_rel s fl" by (auto simp: kmem_inv_def)
  have "ld64 m q = ld64 (mem s) q" if "q \<in> set fl" for q
  proof -
    have "q \<in> avail s" using that kmem_rel_set [OF r(2)] by blast
    then show ?thesis
      using assms(2) by (metis avail_managed ld64_page managed_aligned)
  qed
  then have "chain (ld64 m) (freelist s) fl = chain (ld64 (mem s)) (freelist s) fl"
    by (rule chain_cong)
  then have "kmem_rel (s\<lparr>mem := m\<rparr>) fl"
    using r(2) by (simp add: kmem_rel_def)
  then show ?thesis using r(1) by (auto simp: kmem_inv_def)
qed

text \<open>Two states that differ in memory and in the allocator's own fields only.\<close>

definition only_mem :: "'z kmem_scheme \<Rightarrow> 'z kmem_scheme \<Rightarrow> bool" where
  "only_mem s t \<longleftrightarrow> settle t = settle (s\<lparr>mem := mem t, freelist := freelist t, pgref := pgref t\<rparr>)"

lemma only_mem_refl [simp]: "only_mem s s"
  by (simp add: only_mem_def)

lemma settle_kmem_cong:
  "settle s = settle t \<Longrightarrow>
   settle (s\<lparr>mem := m, freelist := f, pgref := g\<rparr>) = settle (t\<lparr>mem := m, freelist := f, pgref := g\<rparr>)"
  by (metis settle_kmem settle_mem)

lemma only_mem_trans:
  assumes "only_mem s t" "only_mem t u"
  shows "only_mem s u"
proof -
  from assms(1) have "settle (t\<lparr>mem := mem u, freelist := freelist u, pgref := pgref u\<rparr>) =
    settle (s\<lparr>mem := mem t, freelist := freelist t, pgref := pgref t,
      mem := mem u, freelist := freelist u, pgref := pgref u\<rparr>)"
    unfolding only_mem_def by (rule settle_kmem_cong)
  with assms(2) show ?thesis by (cases s) (simp add: only_mem_def)
qed

lemma only_mem_upd [simp]:
  "only_mem s (s\<lparr>mem := m\<rparr>)" "only_mem s (settle s)"
  "only_mem s (s\<lparr>freelist := f\<rparr>)" "only_mem s (s\<lparr>pgref := g\<rparr>)"
  by (cases s; simp add: only_mem_def)+

lemma only_mem_fields:
  assumes "only_mem s t"
  shows "kernel_end t = kernel_end s" "locks t = locks s" "tp t = tp s" "harts t = harts s"
    "kmem.more t = kmem.more s" "managed t = managed s"
proof -
  let ?u = "s\<lparr>mem := mem t, freelist := freelist t, pgref := pgref t\<rparr>"
  have e: "settle t = settle ?u" using assms by (simp add: only_mem_def)
  show "kernel_end t = kernel_end s" "locks t = locks s" "tp t = tp s" "harts t = harts s"
    using arg_cong [OF e, of kernel_end] arg_cong [OF e, of locks] arg_cong [OF e, of tp]
      arg_cong [OF e, of harts] by simp_all
  then show "managed t = managed s" by (simp add: managed_def fun_eq_iff)
  show "kmem.more t = kmem.more s" using arg_cong [OF e, of kmem.more] by (simp add: settle_def)
qed

lemma only_mem_after_kalloc [simp]: "only_mem s (after_kalloc p s)"
  unfolding after_kalloc_def
  by (rule only_mem_trans [OF _ only_mem_upd(2)], rule only_mem_trans [OF _ only_mem_upd(4)],
      rule only_mem_trans [OF _ only_mem_upd(1)], rule only_mem_upd(3))

text \<open>What a routine that only allocates does to the pages that were not free before.\<close>

definition grow :: "u64 set \<Rightarrow> 'z kmem_scheme \<Rightarrow> 'z kmem_scheme \<Rightarrow> bool" where
  "grow R s t \<longleftrightarrow> only_mem s t \<and> avail t \<subseteq> avail s \<and> (\<forall>p. p \<notin> avail s \<longrightarrow> refs t p = refs s p) \<and>
     (\<forall>p. p \<notin> avail s \<and> \<not> is_table (mem s) R p \<longrightarrow>
        same_page (mem s) (mem t) p \<and> \<not> is_table (mem t) R p)"

lemma grow_refl [simp]: "grow R s s"
  by (simp add: grow_def)

lemma grow_trans: "grow R s t \<Longrightarrow> grow R t u \<Longrightarrow> grow R s u"
proof -
  assume st: "grow R s t" and tu: "grow R t u"
  have sub: "p \<notin> avail s \<Longrightarrow> p \<notin> avail t" for p using st by (auto simp: grow_def)
  have "only_mem s u" using st tu only_mem_trans by (auto simp: grow_def)
  moreover have "avail u \<subseteq> avail s" using st tu unfolding grow_def by blast
  moreover have "refs u p = refs s p" if "p \<notin> avail s" for p
    using st tu that sub [OF that] unfolding grow_def by simp
  moreover have "same_page (mem s) (mem u) p \<and> \<not> is_table (mem u) R p"
    if "p \<notin> avail s" "\<not> is_table (mem s) R p" for p
    using st tu that sub [OF that(1)] unfolding grow_def by (blast intro: same_page_trans)
  ultimately show ?thesis by (simp add: grow_def)
qed

lemma grow_settle [simp]: "grow R s (settle s)"
  by (simp add: grow_def)

lemma vm_inv_settle [simp]: "vm_inv (settle s) R ext = vm_inv s R ext"
  by (simp add: vm_inv_def)

section \<open>Counting owners\<close>

lemma owners_add:
  assumes "finite R" "r \<in> R" "page_at m r w = None"
    and "\<And>r' w'. r' \<in> R \<Longrightarrow> page_at m' r' w' = (if r' = r \<and> w' = w then Some p else page_at m r' w')"
  shows "card (owners m' R x) = card (owners m R x) + (if x = p then 1 else 0)"
proof -
  have "owners m' R x = (if x = p then insert (r, w) (owners m R x) else owners m R x)"
    using assms(2,3,4) by (auto simp: owners_def split: if_splits)
  moreover have "(r, w) \<notin> owners m R x" using assms(3) by (simp add: owners_def)
  ultimately show ?thesis using finite_owners [OF assms(1), of m p] by (cases "x = p") simp_all
qed

lemma owners_del:
  assumes "finite R" "r \<in> R" "page_at m r w = Some p"
    and "\<And>r' w'. r' \<in> R \<Longrightarrow> page_at m' r' w' = (if r' = r \<and> w' = w then None else page_at m r' w')"
  shows "int (card (owners m' R x)) = int (card (owners m R x)) - (if x = p then 1 else 0)"
proof -
  have e: "owners m' R x = owners m R x - {(r, w)}"
    using assms(4) by (auto simp: owners_def split: if_splits)
  show ?thesis
  proof (cases "x = p")
    case True
    then have i: "(r, w) \<in> owners m R x" using assms(2,3) by (simp add: owners_def)
    moreover have "0 < card (owners m R x)" using i finite_owners [OF assms(1)] card_gt_0_iff by blast
    ultimately show ?thesis using True e by (simp add: card_Diff_singleton)
  next
    case False
    then have "(r, w) \<notin> owners m R x" using assms(3) by (simp add: owners_def)
    then show ?thesis using False e by simp
  qed
qed

lemma owners_cong:
  "(\<And>r w. r \<in> R \<Longrightarrow> page_at m' r w = page_at m r w) \<Longrightarrow> owners m' R x = owners m R x"
  unfolding owners_def by (metis (no_types, lifting))

section \<open>walk\<close>

lemma entry_nonnull:
  assumes "managed s t" "kmem_inv s" "unat i < 512"
  shows "entry t i \<noteq> 0"
proof
  assume "entry t i = 0"
  then have "PGROUNDDOWN 0 = t" using PGROUNDDOWN_entry [OF managed_aligned [OF assms(1)] assms(3)] by simp
  then have "t = 0" by (simp add: PGROUNDDOWN_def)
  then show False using assms(1,2) managed_nz by (auto simp: kmem_inv_def)
qed

lemma vm_link:
  fixes s :: "'z kmem_scheme"
  assumes v: "vm_inv s R ext" and r: "r \<in> R" "node (mem s) r q = Some t" and ok: "okpath (q @ [i])"
    and inv: "\<not> valid (ld64 (mem s) (entry t i))" and p: "p \<in> avail s"
    and k: "kmem_inv (after_kalloc p s)"
  defines "m' \<equiv> st64 (memset (memset (mem s) p 5 4096) p 0 4096) (entry t i) (PA2PTE p OR PTE_V)"
  defines "s' \<equiv> (after_kalloc p s)\<lparr>mem := m'\<rparr>"
  shows "vm_inv s' R ext" "grow R s s'" "node m' r (q @ [i]) = Some p"
    "\<And>r' va. r' \<in> R \<Longrightarrow> pte_at m' r' va = pte_at (mem s) r' va"
proof -
  note f = vm_invD(3) [OF v]
  have okq: "okpath q" "unat i < 512" using ok by (auto simp: okpath_snoc)
  have tt: "is_table (mem s) R t" using r okq by (intro is_tableI)
  have pt: "\<not> is_table (mem s) R p" using avail_not_table v p by blast
  have al: "page_aligned p" "page_aligned t"
    using p avail_managed managed_aligned is_table_aligned f tt by blast+
  have tp: "t \<noteq> p" using tt pt by blast
  have other: "same_page (mem s) m' u" if "u \<noteq> p" "u \<noteq> t" for u
    unfolding m'_def
    using st64_same_page [OF al(2) okq(2), of u] memset_page_other [OF al(1), of u] that
    by (auto simp: same_page_def)
  have m't: "ld64 m' (entry u j) = (if u = t \<and> j = i then PA2PTE p OR PTE_V else ld64 (mem s) (entry u j))"
    if "is_table (mem s) R u" "unat j < 512" for u j
  proof -
    have u: "page_aligned u" "u \<noteq> p" using that(1) pt is_table_aligned f by blast+
    have "ld64 (memset (memset (mem s) p 5 4096) p 0 4096) (entry u j) = ld64 (mem s) (entry u j)"
      using u al(1) that(2) memset_page_other [OF al(1), of u]
      by (intro ld64_same_page) (auto simp: same_page_def)
    then show ?thesis unfolding m'_def using al u okq(2) that(2) by (simp add: ld64_st64_entry)
  qed
  have z: "ld64 m' (entry p j) = 0" if "unat j < 512" for j
    unfolding m'_def using al tp okq(2) that by (simp add: ld64_st64_entry ld64_zero_page)
  have n: "node m' r' q' = (if r' = r \<and> q' = q @ [i] then Some p else node (mem s) r' q')"
    if "r' \<in> R" "okpath q'" for r' q'
    using f r ok inv al(1) pt m't z that by (rule node_link)
  show pte: "pte_at m' r' va = pte_at (mem s) r' va" if "r' \<in> R" for r' va
    using f r ok inv al(1) pt m't z that by (rule pte_at_link)
  show "node m' r (q @ [i]) = Some p" using n [OF r(1) ok] by simp
  have none: "node (mem s) r (q @ [i]) = None" using r(2) inv by (simp add: node_snoc child_def)
  have fl1: "forest m' R"
    using f pt r(1) ok n none by (rule forest_link(1))
  have fl2: "is_table m' R u \<longleftrightarrow> is_table (mem s) R u \<or> u = p" for u
    using f pt r(1) ok n none by (rule forest_link(2))
  note fl = fl1 fl2
  have mp: "managed s p" using p by (rule avail_managed)
  have av: "avail s' = avail s - {p}" unfolding s'_def using avail_after_kalloc [OF mp] by simp
  have rf: "refs s' = (refs s)(p := 1)" unfolding s'_def using refs_after_kalloc [OF mp] by simp
  have om: "only_mem s s'"
    unfolding s'_def by (rule only_mem_trans [OF only_mem_after_kalloc only_mem_upd(1)])
  show "grow R s s'"
    using om av rf p other fl(2) pt tt by (auto simp: grow_def s'_def)
  have kk: "kmem_inv s'"
    unfolding s'_def
  proof (rule kmem_inv_mem [OF k])
    fix u assume "u \<in> avail (after_kalloc p s)"
    then have u: "u \<in> avail s" "u \<noteq> p" using avail_after_kalloc [OF mp] by auto
    then have "u \<noteq> t" using tt avail_not_table v by blast
    then show "same_page (mem (after_kalloc p s)) m' u"
      using other [of u] u(2) memset_page_other [OF al(1), of u]
      by (auto simp: after_kalloc_def same_page_def)
  qed
  have pa: "page_at m' r' w = (if r' = r \<and> w = Table (q @ [i]) then Some p else page_at (mem s) r' w)"
    if "r' \<in> R" for r' w
    using n [OF that] pte [OF that] ok by (cases w) auto
  have "page_at (mem s) r (Table (q @ [i])) = None" using none by simp
  then have ow: "card (owners m' R x) = card (owners (mem s) R x) + (if x = p then 1 else 0)" for x
    using vm_invD(2) [OF v] r(1) pa by (intro owners_add)
  have m: "mem s' = m'" "managed s' = managed s" by (simp_all add: s'_def only_mem_fields(6) [OF only_mem_after_kalloc])
  show "vm_inv s' R ext"
    unfolding vm_inv_def m
  proof (intro conjI allI impI ballI)
    fix r' va u
    assume "r' \<in> R" "page_at m' r' (Leaf va) = Some u"
    then have "page_at (mem s) r' (Leaf va) = Some u" using pa by (simp del: page_at.simps)
    with vm_invD(5,6) [OF v \<open>r' \<in> R\<close> this] kmem_inv_refs_avail [OF p]
    show "0 < refs s' u" "\<not> is_table m' R u" by (auto simp: rf fl(2))
  next
    fix u assume "managed s u"
    then show "int (refs s' u) = int (card (owners m' R u)) + ext u"
      using vm_invD(7) [OF v, of u] kmem_inv_refs_avail [OF p] by (auto simp: rf ow)
  qed (use kk vm_invD(2,4) [OF v] fl in \<open>auto simp: rf\<close>)
qed

fun lpath :: "nat \<Rightarrow> u64 \<Rightarrow> u64 list" where
  "lpath 0 va = []"
| "lpath (Suc l) va = PX (Suc l) va # lpath l va"

lemma vpath_lpath: "vpath va = lpath 2 va"
  by (simp add: vpath_def numeral_2_eq_2)

lemma walk_loop_lookup:
  "walk_loop l t va False s =
    Ok (case node (mem s) t (lpath l va) of None \<Rightarrow> 0 | Some u \<Rightarrow> entry u (PX 0 va)) s"
  by (induction l arbitrary: t) (simp_all add: Let_def load_def child_def valid_def)

lemma walk_lookup [run_simps]:
  "walk r va False s =
    (if va \<ge> MAXVA then Panic ''walk''
     else Ok (case node (mem s) r (vpath va) of None \<Rightarrow> 0 | Some t \<Rightarrow> entry t (PX 0 va)) s)"
  by (simp add: walk_def sq_run walk_loop_lookup vpath_lpath)

text \<open>
  The outcome of a walk that may allocate: the tables have grown by what the walk needed,
  no entry of any address has changed, at most \<open>k\<close> pages were allocated, and the null
  pointer means that memory is used up.
\<close>

definition walked :: "nat \<Rightarrow> 'z kmem_scheme \<Rightarrow> u64 set \<Rightarrow> (u64 \<Rightarrow> int) \<Rightarrow> u64 \<Rightarrow> u64 \<Rightarrow> u64 \<Rightarrow> 'z kmem_scheme \<Rightarrow> bool" where
  "walked k s R ext r va pte t \<longleftrightarrow> vm_inv t R ext \<and> grow R s t \<and> card (avail s) \<le> card (avail t) + k \<and>
     (\<forall>r'\<in>R. \<forall>vb. pte_at (mem t) r' vb = pte_at (mem s) r' vb) \<and>
     (if pte = 0 then avail t = {}
      else \<exists>u. node (mem t) r (vpath va) = Some u \<and> pte = entry u (PX 0 va))"

lemma walked_trans:
  assumes "grow R s t" "\<And>r' vb. r' \<in> R \<Longrightarrow> pte_at (mem t) r' vb = pte_at (mem s) r' vb"
    "card (avail s) \<le> card (avail t) + 1" "walked k t R ext r va pte u"
  shows "walked (Suc k) s R ext r va pte u"
  using assms grow_trans [OF assms(1), of u] by (auto simp: walked_def)

lemma walked_more: "walked k s R ext r va pte t \<Longrightarrow> walked (Suc k) s R ext r va pte t"
  by (simp add: walked_def)

lemma walk_loop_alloc:
  assumes "vm_inv s R ext" "r \<in> R" "node (mem s) r q = Some t" "vpath va = q @ lpath l va" "l \<le> 2"
  shows "\<exists>pte s'. walk_loop l t va True s = Ok pte s' \<and> walked l s R ext r va pte s'"
  using assms
proof (induction l arbitrary: s q t)
  case 0
  then have "is_table (mem s) R t" by (intro is_tableI [of r R q]) (metis append_Nil2 lpath.simps(1) okpath_vpath)+
  then have "entry t (PX 0 va) \<noteq> 0"
    using 0 is_table_managed vm_invD(1) PX_less entry_nonnull by metis
  with 0 show ?case by (simp add: walked_def)
next
  case (Suc l)
  let ?i = "PX (Suc l) va"
  let ?e = "ld64 (mem s) (entry t ?i)"
  have path: "vpath va = (q @ [?i]) @ lpath l va" using Suc.prems(4) by simp
  show ?case
  proof (cases "valid ?e")
    case True
    then have "node (mem s) r (q @ [?i]) = Some (PTE2PA ?e)"
      using Suc.prems(3) by (simp add: node_snoc child_def)
    from Suc.IH [OF Suc.prems(1,2) this path] Suc.prems(5) True walked_more show ?thesis
      by (fastforce simp add: Let_def load_def valid_def)
  next
    case inv: False
    have "okpath (q @ [?i])"
      using path okpath_vpath [of va] by (auto simp: okpath_def)
    note link = vm_link [OF Suc.prems(1-3) this inv]
    show ?thesis
    proof (cases "avail s = {}")
      case True
      with vm_invD(1) [OF Suc.prems(1)] have "kalloc s = Ok 0 (settle s)" by (rule kalloc_exhausted)
      with inv True Suc.prems(1) show ?thesis
        by (simp add: Let_def load_def valid_def walked_def)
    next
      case False
      from kalloc_some [OF vm_invD(1) [OF Suc.prems(1)] False] obtain p where
        k: "kalloc s = Ok p (after_kalloc p s)" "p \<in> avail s" "kmem_inv (after_kalloc p s)" by blast
      note l = link [OF k(2,3)]
      let ?s = "(after_kalloc p s)\<lparr>mem := st64 (memset (memset (mem s) p 5 4096) p 0 4096) (entry t ?i) (PA2PTE p OR PTE_V)\<rparr>"
      have "p \<noteq> 0" using k(2) pa.free_nonnull vm_invD(1) [OF Suc.prems(1)] by blast
      then have run: "walk_loop (Suc l) t va True s = walk_loop l p va True ?s"
        using inv k(1)
        by (simp add: Let_def load_def valid_def fill_def store_def pgsize32 after_kalloc_def)
      have n: "node (mem ?s) r (q @ [?i]) = Some p" using l(3) by simp
      have "avail ?s = avail s - {p}" using avail_after_kalloc [OF avail_managed [OF k(2)]] by simp
      then have c: "card (avail s) \<le> card (avail ?s) + 1" using k(2) by (simp add: card_Diff_singleton)
      obtain pte s' where w: "walk_loop l p va True ?s = Ok pte s'" "walked l ?s R ext r va pte s'"
        using Suc.IH [OF l(1) Suc.prems(2) n path] Suc.prems(5) by auto
      have "walked (Suc l) s R ext r va pte s'"
        using l(2) _ c w(2) by (rule walked_trans) (use l(4) in simp)
      then show ?thesis using run w(1) by auto
    qed
  qed
qed

lemma walk_alloc:
  assumes "vm_inv s R ext" "r \<in> R" "va < MAXVA"
  shows "\<exists>pte s'. walk r va True s = Ok pte s' \<and> walked 2 s R ext r va pte s'"
  using walk_loop_alloc [OF assms(1,2), of "[]" r va 2] assms(3)
  by (simp add: walk_def vpath_lpath not_le [symmetric])

section \<open>Storing a leaf entry\<close>

text \<open>The page that an entry \<open>v\<close> at \<open>va\<close> owns.\<close>

definition leaf_page :: "u64 \<Rightarrow> u64 \<Rightarrow> u64 option" where
  "leaf_page va v = (if va < TRAPFRAME \<and> valid v then Some (PTE2PA v) else None)"

lemma leaf_page_0 [simp]: "leaf_page va 0 = None"
  by (simp add: leaf_page_def)

lemma page_at_Leaf: "page_aligned va \<Longrightarrow> page_at m r (Leaf va) = leaf_page va (pte_at m r va)"
  by (simp add: leaf_page_def)

lemma vm_leaf:
  fixes s :: "'z kmem_scheme"
  assumes v: "vm_inv s R ext" and r: "r \<in> R" "node (mem s) r (vpath va) = Some t"
    and va: "page_aligned va" "va < MAXVA"
    and new: "\<And>p. leaf_page va e = Some p \<Longrightarrow> 0 < refs s p \<and> \<not> is_table (mem s) R p"
  defines "m' \<equiv> st64 (mem s) (entry t (PX 0 va)) e"
  shows "vm_inv (s\<lparr>mem := m'\<rparr>) R (\<lambda>p. ext p - (if leaf_page va e = Some p then 1 else 0) +
      (if leaf_page va (pte_at (mem s) r va) = Some p then 1 else 0))"
    and "grow R s (s\<lparr>mem := m'\<rparr>)"
    and "\<And>r' vb. r' \<in> R \<Longrightarrow> page_aligned vb \<Longrightarrow> vb < MAXVA \<Longrightarrow>
      pte_at m' r' vb = (if r' = r \<and> vb = va then e else pte_at (mem s) r' vb)"
    and "\<And>r' q. r' \<in> R \<Longrightarrow> okpath q \<Longrightarrow> node m' r' q = node (mem s) r' q"
proof -
  note f = vm_invD(3) [OF v]
  show n: "node m' r' q = node (mem s) r' q" if "r' \<in> R" "okpath q" for r' q
    unfolding m'_def using node_leaf [OF f r] that by blast
  show pte: "pte_at m' r' vb = (if r' = r \<and> vb = va then e else pte_at (mem s) r' vb)"
    if "r' \<in> R" "page_aligned vb" "vb < MAXVA" for r' vb
    unfolding m'_def using pte_at_leaf [OF f r that(1) va(2) that(3)] that va(1)
    by (simp add: PGROUNDDOWN_aligned)
  have tt: "is_table (mem s) R t" using r by (intro is_tableI) auto
  have same: "same_page (mem s) m' u" if "u \<noteq> t" for u
    unfolding m'_def by (rule same_page_sym [OF st64_same_page [OF is_table_aligned [OF f tt] PX_less that [symmetric]]])
  have tab: "is_table m' R u = is_table (mem s) R u" for u
    using f n by (rule forest_node_cong(2))
  have same': "same_page (mem s) m' u" if "\<not> is_table (mem s) R u" for u
    using same [of u] tt that by (cases "u = t") auto
  show "grow R s (s\<lparr>mem := m'\<rparr>)" by (simp add: grow_def tab same')
  have kk: "kmem_inv (s\<lparr>mem := m'\<rparr>)"
    using vm_invD(1) [OF v] by (rule kmem_inv_mem) (rule same' [OF avail_not_table [OF v]])
  have tf: "vb < MAXVA" if "vb < TRAPFRAME" for vb
    using that by (rule less_trans) (simp add: TRAPFRAME_eq MAXVA_eq)
  have pa: "page_at m' r' w = (if r' = r \<and> w = Leaf va then leaf_page va e else page_at (mem s) r' w)"
    if "r' \<in> R" for r' w
    using n [OF that] pte [OF that] tf va(1) by (cases w) (auto simp: leaf_page_def)
  have ow: "int (card (owners m' R x)) = int (card (owners (mem s) R x)) +
    (if leaf_page va e = Some x then 1 else 0) - (if leaf_page va (pte_at (mem s) r va) = Some x then 1 else 0)" for x
  proof -
    let ?O = "owners (mem s) R x - {(r, Leaf va)}"
    have fin: "finite ?O" using finite_owners vm_invD(2) [OF v] by blast
    have "owners m' R x = (if leaf_page va e = Some x then insert (r, Leaf va) ?O else ?O)"
      using pa r(1) by (auto simp: owners_def simp del: page_at.simps split: if_splits)
    then have 1: "card (owners m' R x) = card ?O + (if leaf_page va e = Some x then 1 else 0)"
      using fin by (simp add: card.insert_remove)
    have "(r, Leaf va) \<in> owners (mem s) R x \<longleftrightarrow> leaf_page va (pte_at (mem s) r va) = Some x"
      using r(1) va(1) by (simp add: owners_def page_at_Leaf del: page_at.simps)
    then have 2: "card (owners (mem s) R x) = card ?O + (if leaf_page va (pte_at (mem s) r va) = Some x then 1 else 0)"
      using card.remove [OF finite_owners [OF vm_invD(2) [OF v], of "mem s" x], of "(r, Leaf va)"]
      by (cases "(r, Leaf va) \<in> owners (mem s) R x") simp_all
    show ?thesis using 1 2 by simp
  qed
  show "vm_inv (s\<lparr>mem := m'\<rparr>) R (\<lambda>p. ext p - (if leaf_page va e = Some p then 1 else 0) +
      (if leaf_page va (pte_at (mem s) r va) = Some p then 1 else 0))"
    unfolding vm_inv_def
  proof (intro conjI allI impI ballI)
    fix r' vb u
    assume "r' \<in> R" "page_at (mem (s\<lparr>mem := m'\<rparr>)) r' (Leaf vb) = Some u"
    then have "leaf_page va e = Some u \<or> page_at (mem s) r' (Leaf vb) = Some u"
      using pa by (simp del: page_at.simps split: if_splits)
    then have "0 < refs s u \<and> \<not> is_table (mem s) R u"
      using new vm_invD(5,6) [OF v \<open>r' \<in> R\<close>] by blast
    then show "0 < refs (s\<lparr>mem := m'\<rparr>) u" "\<not> is_table (mem (s\<lparr>mem := m'\<rparr>)) R u" by (simp_all add: tab)
  next
    fix u assume "managed (s\<lparr>mem := m'\<rparr>) u"
    then show "int (refs (s\<lparr>mem := m'\<rparr>) u) = int (card (owners (mem (s\<lparr>mem := m'\<rparr>)) R u)) +
      (ext u - (if leaf_page va e = Some u then 1 else 0) +
      (if leaf_page va (pte_at (mem s) r va) = Some u then 1 else 0))"
      using vm_invD(7) [OF v, of u] by (simp add: ow)
  qed (use kk vm_invD(2,4) [OF v] forest_node_cong(1) [OF f n] in \<open>auto simp: tab\<close>)
qed

end
