(* ===== verification/Uvm.thy ===== *)
theory Uvm
  imports Addrspace
begin

text \<open>
  The routines of \<^verbatim>\<open>kernel/vm.c\<close> on user address spaces keep the invariant of
  the page tables and reference counts, and do to the entries what they promise: mappages,
  uvmunmap, uvmalloc, uvmdealloc and the copy-on-write uvmcopy.
\<close>

section \<open>Allocation, release and data writes under the invariant\<close>

lemma vm_inv_ext_cong: "vm_inv s R e \<Longrightarrow> (\<And>p. managed s p \<Longrightarrow> e p = e' p) \<Longrightarrow> vm_inv s R e'"
  by (simp add: vm_inv_def)

lemma vm_mem:
  assumes v: "vm_inv s R ext"
    and m: "\<And>p. is_table (mem s) R p \<Longrightarrow> same_page (mem s) m p" "\<And>p. p \<in> avail s \<Longrightarrow> same_page (mem s) m p"
  shows "vm_inv (s\<lparr>mem := m\<rparr>) R ext"
    and "\<And>r va. r \<in> R \<Longrightarrow> pte_at m r va = pte_at (mem s) r va"
    and "\<And>r q. r \<in> R \<Longrightarrow> okpath q \<Longrightarrow> node m r q = node (mem s) r q"
    and "\<And>p. is_table m R p = is_table (mem s) R p"
proof -
  note f = vm_invD(3) [OF v]
  show n: "node m r q = node (mem s) r q" if "r \<in> R" "okpath q" for r q
    using f m(1) that by (rule node_frame)
  show pte: "pte_at m r va = pte_at (mem s) r va" if "r \<in> R" for r va
    using f m(1) that by (rule pte_at_frame)
  show tab: "is_table m R p = is_table (mem s) R p" for p
    using f n by (rule forest_node_cong(2))
  have pa: "page_at m r w = page_at (mem s) r w" if "r \<in> R" for r w
    using n [OF that] pte [OF that] by (cases w) auto
  have ow: "owners m R p = owners (mem s) R p" for p using pa by (rule owners_cong)
  have "kmem_inv (s\<lparr>mem := m\<rparr>)" using vm_invD(1) [OF v] m(2) by (rule kmem_inv_mem)
  moreover have "forest m R" using f n by (rule forest_node_cong(1))
  ultimately show "vm_inv (s\<lparr>mem := m\<rparr>) R ext"
    using v pa by (simp add: vm_inv_def tab ow del: page_at.simps)
qed

lemma vm_kalloc:
  assumes v: "vm_inv s R ext" and p: "p \<in> avail s" "kmem_inv (after_kalloc p s)"
  shows "vm_inv (after_kalloc p s) R (ext(p := 1))" "grow R s (after_kalloc p s)"
    "\<And>r va. r \<in> R \<Longrightarrow> pte_at (mem (after_kalloc p s)) r va = pte_at (mem s) r va"
    "\<not> is_table (mem (after_kalloc p s)) R p" "ext p = 0"
    "\<And>r q. r \<in> R \<Longrightarrow> okpath q \<Longrightarrow> node (mem (after_kalloc p s)) r q = node (mem s) r q"
proof -
  let ?m = "memset (mem s) p 5 4096"
  have mp: "managed s p" using p(1) by (rule avail_managed)
  have m: "mem (after_kalloc p s) = ?m" by (simp add: after_kalloc_def)
  have same: "same_page (mem s) ?m u" if "u \<noteq> p" for u
    using memset_page_other [OF managed_aligned [OF mp] that [symmetric]] by (rule same_page_sym)
  have np: "\<not> is_table (mem s) R p" using avail_not_table v p(1) by blast
  note f = vm_invD(3) [OF v]
  have tsame: "same_page (mem s) ?m u" if "is_table (mem s) R u" for u
    using that np by (intro same) auto
  have n: "node ?m r q = node (mem s) r q" if "r \<in> R" "okpath q" for r q
    using f tsame that by (rule node_frame)
  have pte: "pte_at ?m r va = pte_at (mem s) r va" if "r \<in> R" for r va
    using f tsame that by (rule pte_at_frame)
  have tab: "is_table ?m R u = is_table (mem s) R u" for u
    using f n by (rule forest_node_cong(2))
  have pa: "page_at ?m r w = page_at (mem s) r w" if "r \<in> R" for r w
    using n [OF that] pte [OF that] by (cases w) auto
  have ow: "owners ?m R u = owners (mem s) R u" for u using pa by (rule owners_cong)
  show "pte_at (mem (after_kalloc p s)) r va = pte_at (mem s) r va" if "r \<in> R" for r va
    using pte [OF that] m by simp
  show "\<not> is_table (mem (after_kalloc p s)) R p" using np tab m by simp
  show "node (mem (after_kalloc p s)) r q = node (mem s) r q" if "r \<in> R" "okpath q" for r q
    using n [OF that] m by simp
  have z: "refs s p = 0" using kmem_inv_refs_avail p(1) by blast
  have o0: "owners (mem s) R p = {}" using avail_unowned v p(1) by blast
  show e0: "ext p = 0" using vm_invD(7) [OF v mp] z o0 by simp
  have man: "managed (after_kalloc p s) = managed s" by (rule only_mem_fields(6)) simp
  have rf: "refs (after_kalloc p s) = (refs s)(p := 1)" by (rule refs_after_kalloc [OF mp])
  have used: "same_page (mem s) ?m u" if "u \<notin> avail s" for u
    using same [of u] p(1) that by (cases "u = p") auto
  show "grow R s (after_kalloc p s)"
    using avail_after_kalloc [OF mp] rf tab m used p(1) by (auto simp: grow_def)
  have frm: "forest ?m R" using f n by (rule forest_node_cong(1))
  show "vm_inv (after_kalloc p s) R (ext(p := 1))"
    unfolding vm_inv_def m man
  proof (intro conjI allI impI ballI)
    fix r va u
    assume a: "r \<in> R" "page_at ?m r (Leaf va) = Some u"
    then have "page_at (mem s) r (Leaf va) = Some u" using pa by (simp del: page_at.simps)
    then have "0 < refs s u" "\<not> is_table (mem s) R u" using vm_invD(5,6) [OF v a(1)] by blast+
    then show "0 < refs (after_kalloc p s) u" "\<not> is_table ?m R u" by (simp_all add: rf tab)
  next
    fix u assume "managed s u"
    then show "int (refs (after_kalloc p s) u) = int (card (owners ?m R u)) + (ext(p := 1)) u"
      using vm_invD(7) [OF v, of u] o0 by (simp add: rf ow)
  qed (use p(2) vm_invD(2,4) [OF v] frm np in \<open>auto simp: rf tab\<close>)
qed

lemma kalloc_cases:
  assumes "vm_inv s R ext"
  obtains (none) "avail s = {}" "kalloc s = Ok 0 (settle s)"
  | (some) p where "kalloc s = Ok p (after_kalloc p s)" "p \<in> avail s" "p \<noteq> 0"
      "kmem_inv (after_kalloc p s)"
  using kalloc_exhausted kalloc_some vm_invD(1) [OF assms] pa.free_nonnull by metis

text \<open>Changing a count by one shifts what is left of it outside the tables.\<close>

lemma vm_pgref:
  assumes v: "vm_inv s R ext" and p: "managed s p" "\<not> is_table (mem s) R p" "0 < refs s p" "c \<noteq> 0"
  shows "vm_inv (s\<lparr>pgref := (pgref s)(pgidx p := c)\<rparr>) R (ext(p := ext p + int (unat c) - int (refs s p)))"
proof -
  let ?s = "s\<lparr>pgref := (pgref s)(pgidx p := c)\<rparr>"
  from vm_invD(1) [OF v] obtain fl where k: "kmem_ready s" "kmem_rel s fl" by (auto simp: kmem_inv_def)
  have "pgref s (pgidx p) \<noteq> 0" using p(1,3) by (auto simp: refs_def)
  from pgref_pos_rel [OF k(2) p(1) this p(4)] k(1) have kk: "kmem_inv ?s" by (auto simp: kmem_inv_def)
  have rf: "refs ?s = (refs s)(p := unat c)" by (rule refs_pgref_upd [OF p(1)])
  have pos: "0 < unat c" using p(4) by (simp add: unat_gt_0)
  show ?thesis
    unfolding vm_inv_def
  proof (intro conjI allI impI ballI)
    fix u assume "is_table (mem ?s) R u"
    then show "refs ?s u = 1" using vm_invD(4) [OF v, of u] p(2) by (auto simp: rf)
  next
    fix r va u assume "r \<in> R" "page_at (mem ?s) r (Leaf va) = Some u"
    then have "0 < refs s u" "\<not> is_table (mem s) R u"
      using vm_invD(5,6) [OF v] by (simp_all del: page_at.simps)
    then show "0 < refs ?s u" "\<not> is_table (mem ?s) R u" using pos by (simp_all add: rf)
  next
    fix u assume "managed ?s u"
    then show "int (refs ?s u) = int (card (owners (mem ?s) R u)) +
      (ext(p := ext p + int (unat c) - int (refs s p))) u"
      using vm_invD(7) [OF v, of u] by (auto simp: rf)
  qed (use kk vm_invD(2,3) [OF v] in simp_all)
qed

lemma owner_card_pos: "finite R \<Longrightarrow> r \<in> R \<Longrightarrow> page_at m r w = Some p \<Longrightarrow> 0 < card (owners m R p)"
  using finite_owners by (fastforce simp: owners_def card_gt_0_iff)

lemma ext_not_table:
  assumes "vm_inv s R ext" "1 \<le> ext p"
  shows "\<not> is_table (mem s) R p"
proof
  assume t: "is_table (mem s) R p"
  then obtain r q where "r \<in> R" "okpath q" "node (mem s) r q = Some p" by (auto simp: is_table_def)
  then have "r \<in> R" "page_at (mem s) r (Table q) = Some p" by simp_all
  then have "0 < card (owners (mem s) R p)" by (rule owner_card_pos [OF vm_invD(2) [OF assms(1)]])
  moreover have "managed s p" "refs s p = 1" using t assms(1) is_table_managed vm_invD(4) by blast+
  ultimately show False using vm_invD(7) [OF assms(1), of p] assms(2) by simp
qed

text \<open>
  The outcome of a release: only the count and, when it was the last, the contents of that
  page change.
\<close>

definition released :: "'z kmem_scheme \<Rightarrow> u64 set \<Rightarrow> u64 \<Rightarrow> 'z kmem_scheme \<Rightarrow> bool" where
  "released s R p t \<longleftrightarrow> only_mem s t \<and> refs t = (refs s)(p := refs s p - 1) \<and>
     avail t = (if refs s p = 1 then insert p (avail s) else avail s) \<and>
     (\<forall>u. u \<noteq> p \<or> 1 < refs s p \<longrightarrow> same_page (mem s) (mem t) u) \<and>
     (\<forall>r\<in>R. \<forall>va. pte_at (mem t) r va = pte_at (mem s) r va) \<and>
     (\<forall>r\<in>R. \<forall>q. okpath q \<longrightarrow> node (mem t) r q = node (mem s) r q)"

lemma vm_kfree_shared:
  assumes v: "vm_inv s R ext" and p: "1 < refs s p" "1 \<le> ext p"
  shows "\<exists>t. kfree p s = Ok () t \<and> vm_inv t R (ext(p := ext p - 1)) \<and> released s R p t"
proof -
  have mp: "managed s p" using p(1) refs_managed [of s p] by simp
  let ?c = "pgref s (pgidx p) - 1"
  let ?s = "s\<lparr>pgref := (pgref s)(pgidx p := ?c)\<rparr>"
  have many: "1 < pgref s (pgidx p)" and u: "refs s p = unat (pgref s (pgidx p))"
    using p(1) mp by (simp_all add: refs_def word_less_nat_alt)
  have nz: "pgref s (pgidx p) \<noteq> 0" "?c \<noteq> 0" using many by auto
  have c: "unat ?c = refs s p - 1" using u unat_minus_one [OF nz(1)] by simp
  have "kmem_ready s" using vm_invD(1) [OF v] by (simp add: kmem_inv_def)
  then have run: "kfree p s = Ok () (settle ?s)"
    using mp many by (intro kfree_shared) (auto simp: managed_def)
  have "vm_inv ?s R (ext(p := ext p + int (unat ?c) - int (refs s p)))"
    using v mp ext_not_table [OF v p(2)] _ nz(2) by (rule vm_pgref) (use p(1) in simp)
  then have "vm_inv (settle ?s) R (ext(p := ext p - 1))" using c p(1) by (simp add: of_nat_diff)
  moreover have "released s R p (settle ?s)"
    using refs_pgref_upd [OF mp, of ?c] c p(1) mp nz only_mem_trans [OF only_mem_upd(4) only_mem_upd(2)]
    by (auto simp: released_def avail_def)
  ultimately show ?thesis using run by blast
qed

lemma vm_kfree_last:
  assumes v: "vm_inv s R ext" and p: "refs s p = 1" "1 \<le> ext p"
  shows "\<exists>t. kfree p s = Ok () t \<and> vm_inv t R (ext(p := ext p - 1)) \<and> released s R p t"
proof -
  have mp: "managed s p" using p(1) refs_managed [of s p] by simp
  have one: "pgref s (pgidx p) = 1"
    using p(1) mp by (simp add: refs_def unsigned_1 word_unat_eq_iff)
  have al: "page_aligned p" using mp by (rule managed_aligned)
  let ?m = "st64 (memset (mem s) p 1 4096) p (freelist s)"
  let ?t = "settle (s\<lparr>pgref := (pgref s)(pgidx p := 0), mem := ?m, freelist := p\<rparr>)"
  from vm_invD(1) [OF v] obtain fl where k: "kmem_ready s" "kmem_rel s fl" by (auto simp: kmem_inv_def)
  have run: "kfree p s = Ok () ?t"
    using k(1) mp one by (intro kfree_last) (auto simp: managed_def)
  have kk: "kmem_inv ?t" using k(1) kfree_last_rel [OF k(2) mp one] unfolding kmem_inv_def by auto
  have rf: "refs ?t = (refs s)(p := 0)" using refs_pgref_upd [OF mp, of 0] by simp
  have same: "same_page (mem s) ?m u" if "u \<noteq> p" for u
    using st64_same_page [OF al, of 0 u] memset_page_other [OF al, of u] that by (auto simp: same_page_def)
  have np: "\<not> is_table (mem s) R p" using v p(2) by (rule ext_not_table)
  note f = vm_invD(3) [OF v]
  have tsame: "same_page (mem s) ?m u" if "is_table (mem s) R u" for u
    using that np by (intro same) auto
  have n: "node ?m r q = node (mem s) r q" if "r \<in> R" "okpath q" for r q
    using f tsame that by (rule node_frame)
  have pte: "pte_at ?m r va = pte_at (mem s) r va" if "r \<in> R" for r va
    using f tsame that by (rule pte_at_frame)
  have tab: "is_table ?m R u = is_table (mem s) R u" for u
    using f n by (rule forest_node_cong(2))
  have frm: "forest ?m R" using f n by (rule forest_node_cong(1))
  have pa: "page_at ?m r w = page_at (mem s) r w" if "r \<in> R" for r w
    using n [OF that] pte [OF that] by (cases w) auto
  have ow: "owners ?m R u = owners (mem s) R u" for u using pa by (rule owners_cong)
  have o0: "card (owners (mem s) R p) = 0" using vm_invD(7) [OF v mp] p by simp
  have "vm_inv ?t R (ext(p := ext p - 1))"
    unfolding vm_inv_def
  proof (intro conjI allI impI ballI)
    fix r va u assume a: "r \<in> R" "page_at (mem ?t) r (Leaf va) = Some u"
    then have b: "page_at (mem s) r (Leaf va) = Some u" using pa by (simp del: page_at.simps)
    then have "u \<noteq> p" using owner_card_pos [OF vm_invD(2) [OF v] a(1)] o0 by fastforce
    then show "0 < refs ?t u" "\<not> is_table (mem ?t) R u"
      using vm_invD(5,6) [OF v a(1) b] by (simp_all add: refs_pgref_upd [OF mp] tab)
  next
    fix u assume "managed ?t u"
    then show "int (refs ?t u) = int (card (owners (mem ?t) R u)) + (ext(p := ext p - 1)) u"
      using vm_invD(7) [OF v, of u] p o0 by (auto simp: refs_pgref_upd [OF mp] ow)
  qed (use kk vm_invD(2,4) [OF v] np frm in \<open>auto simp: refs_pgref_upd [OF mp] tab\<close>)
  moreover have "avail ?t = insert p (avail s)" using mp by (auto simp: avail_def)
  moreover have "only_mem s ?t" by (cases s) (simp add: only_mem_def)
  ultimately show ?thesis
    using run rf same p(1) pte n by (auto simp: released_def)
qed

lemma vm_kfree:
  assumes "vm_inv s R ext" "0 < refs s p" "1 \<le> ext p"
  shows "\<exists>t. kfree p s = Ok () t \<and> vm_inv t R (ext(p := ext p - 1)) \<and> released s R p t"
  using vm_kfree_shared [OF assms(1) _ assms(3)] vm_kfree_last [OF assms(1) _ assms(3)] assms(2)
  by (cases "refs s p = 1") auto

lemma vm_incref:
  assumes v: "vm_inv s R ext" and p: "0 < refs s p" "\<not> is_table (mem s) R p" "refs s p < 2 ^ 32 - 1"
  shows "\<exists>t. incref p s = Ok () t \<and> vm_inv t R (ext(p := ext p + 1)) \<and> only_mem s t \<and> mem t = mem s \<and>
    avail t = avail s \<and> refs t = (refs s)(p := refs s p + 1)"
proof -
  have mp: "managed s p" using p(1) by (rule refs_managed)
  let ?c = "pgref s (pgidx p) + 1"
  let ?s = "s\<lparr>pgref := (pgref s)(pgidx p := ?c)\<rparr>"
  have u: "refs s p = unat (pgref s (pgidx p))" using mp by (simp add: refs_def)
  have c: "unat ?c = refs s p + 1" using p(3) u by (simp add: unat_word_ariths)
  then have nz: "?c \<noteq> 0" "pgref s (pgidx p) \<noteq> 0" using u p(1) by auto
  have "kmem_ready s" using vm_invD(1) [OF v] by (simp add: kmem_inv_def)
  then have "incref p s = Ok () (settle ?s)" by (rule incref_run)
  moreover have "vm_inv ?s R (ext(p := ext p + int (unat ?c) - int (refs s p)))"
    using v mp p(2,1) nz(1) by (rule vm_pgref)
  then have "vm_inv (settle ?s) R (ext(p := ext p + 1))" using c by simp
  moreover have "avail (settle ?s) = avail s" using mp nz by (auto simp: avail_def)
  moreover have "refs (settle ?s) = (refs s)(p := refs s p + 1)" using refs_pgref_upd [OF mp] c by simp
  moreover have "only_mem s (settle ?s)" by (rule only_mem_trans [OF only_mem_upd(4) only_mem_upd(2)])
  ultimately show ?thesis by auto
qed

section \<open>Address spaces as functions\<close>

text \<open>
  The abstract view of a page table: the entry of every page of the address space, zero
  where nothing is mapped.
\<close>

definition pt :: "'z kmem_scheme \<Rightarrow> u64 \<Rightarrow> u64 \<Rightarrow> u64" where
  "pt s r va = (if page_aligned va \<and> va < MAXVA then pte_at (mem s) r va else 0)"

lemma pt_cong: "(\<And>va. pte_at (mem t) r va = pte_at (mem s) r va) \<Longrightarrow> pt t r = pt s r"
  by (simp add: pt_def fun_eq_iff)

lemma pt_settle [simp]: "pt (settle s) = pt s"
  by (simp add: pt_def fun_eq_iff)

lemma node_pt:
  assumes "valid (pt s r va)"
  obtains t where "node (mem s) r (vpath va) = Some t" "pt s r va = ld64 (mem s) (entry t (PX 0 va))"
    "page_aligned va" "va < MAXVA"
  using assms by (auto simp: pt_def pte_at_def split: if_splits option.splits)

lemma valid_or [simp]: "valid (e OR PTE_V)" "valid (e OR (f OR PTE_V))"
proof -
  have "(e OR PTE_V) AND PTE_V = PTE_V" for e by (rule bit_word_eqI) (auto simp: bit_simps)
  then have *: "valid (e OR PTE_V)" for e by (simp add: valid_def PTE_V_def)
  then show "valid (e OR PTE_V)" "valid (e OR (f OR PTE_V))" by (simp_all add: or.assoc [symmetric])
qed

lemma flags_or_less: "perm < 1024 \<Longrightarrow> perm OR PTE_V < (1024 :: u64)"
proof -
  assume "perm < 1024"
  then have "take_bit 10 perm = perm" by (rule take_bit_10_small)
  then have "take_bit 10 (perm OR PTE_V) = perm OR PTE_V" by (simp add: take_bit_or PTE_V_def)
  moreover have "unat (take_bit 10 (perm OR PTE_V)) < 1024"
    using take_bit_nat_less_exp [of 10 "unat (perm OR PTE_V)"]
    by (simp add: unsigned_take_bit_eq del: take_bit_or)
  ultimately show ?thesis by (simp add: word_less_nat_alt)
qed

lemma vm_leaf_pt:
  assumes v: "vm_inv s R ext" and r: "r \<in> R" "node (mem s) r (vpath va) = Some t"
    and va: "page_aligned va" "va < MAXVA"
    and new: "\<And>p. leaf_page va e = Some p \<Longrightarrow> 0 < refs s p \<and> \<not> is_table (mem s) R p"
    and r': "r' \<in> R"
  shows "pt (s\<lparr>mem := st64 (mem s) (entry t (PX 0 va)) e\<rparr>) r' = (if r' = r then (pt s r)(va := e) else pt s r')"
  using vm_leaf(3) [OF v r va new r'] va by (auto simp: pt_def fun_eq_iff)

lemma mappages_page:
  assumes v: "vm_inv s R ext" and r: "r \<in> R" and va: "page_aligned va" "va < MAXVA"
    and un: "\<not> valid (pt s r va)" and pa: "page_aligned pa" "perm < 1024"
    and tr: "va < TRAPFRAME \<Longrightarrow> 0 < refs s pa \<and> \<not> is_table (mem s) R pa"
  shows "\<exists>rc t. mappages r va PGSIZE pa perm s = Ok rc t \<and> grow R s t \<and> card (avail s) \<le> card (avail t) + 2 \<and>
    (if rc = 0 then vm_inv t R (if va < TRAPFRAME then ext(pa := ext pa - 1) else ext) \<and>
       (\<forall>r'\<in>R. pt t r' = (if r' = r then (pt s r)(va := PA2PTE pa OR perm OR PTE_V) else pt s r'))
     else rc = -1 \<and> avail t = {} \<and> vm_inv t R ext \<and> (\<forall>r'\<in>R. pt t r' = pt s r'))"
proof -
  let ?e = "PA2PTE pa OR perm OR PTE_V"
  obtain pte t where w: "walk r va True s = Ok pte t" "walked 2 s R ext r va pte t"
    using walk_alloc [OF v r va(2)] by blast
  have run: "mappages r va PGSIZE pa perm s = (if pte = 0 then Ok (-1) t
    else if valid (ld64 (mem t) pte) then Panic ''mappages: remap''
    else Ok 0 (t\<lparr>mem := st64 (mem t) pte ?e\<rparr>))"
    using w(1) va(1) by (simp add: mappages_def page_aligned_mod [symmetric] PGSIZE_def load_def store_def valid_def
        del: walk_lookup)
  from w(2) have wd: "vm_inv t R ext" "grow R s t" "card (avail s) \<le> card (avail t) + 2" and ptt: "\<And>r' vb. r' \<in> R \<Longrightarrow> pte_at (mem t) r' vb = pte_at (mem s) r' vb"
    by (auto simp: walked_def)
  have same: "pt t r' = pt s r'" if "r' \<in> R" for r' using ptt [OF that] by (rule pt_cong)
  show ?thesis
  proof (cases "pte = 0")
    case True
    then show ?thesis using run wd same w(2) by (auto simp: walked_def)
  next
    case False
    then obtain u where u: "node (mem t) r (vpath va) = Some u" "pte = entry u (PX 0 va)"
      using w(2) by (auto simp: walked_def)
    have "pt t r va = ld64 (mem t) pte" using u va by (simp add: pt_def pte_at_def)
    then have old: "\<not> valid (ld64 (mem t) pte)" using un same [OF r] by simp
    have e: "PTE2PA ?e = pa" using PTE2PA_PA2PTE [OF pa(1) flags_or_less [OF pa(2)]] by (simp add: or.assoc)
    have lp: "leaf_page va ?e = (if va < TRAPFRAME then Some pa else None)" using e by (simp add: leaf_page_def)
    have lp0: "leaf_page va (pte_at (mem t) r va) = None"
      using old u by (simp add: leaf_page_def pte_at_def)
    have new: "0 < refs t p \<and> \<not> is_table (mem t) R p" if "leaf_page va ?e = Some p" for p
    proof -
      have p: "p = pa" "va < TRAPFRAME" using that lp by (auto split: if_splits)
      then have "pa \<notin> avail s" using tr kmem_inv_refs_avail by fastforce
      then show ?thesis using wd(2) tr p by (auto simp: grow_def)
    qed
    let ?t = "t\<lparr>mem := st64 (mem t) pte ?e\<rparr>"
    have "vm_inv ?t R (\<lambda>p. ext p - (if leaf_page va ?e = Some p then 1 else 0) +
      (if leaf_page va (pte_at (mem t) r va) = Some p then 1 else 0))"
      unfolding u(2) using wd(1) r u(1) va new by (rule vm_leaf(1))
    then have "vm_inv ?t R (if va < TRAPFRAME then ext(pa := ext pa - 1) else ext)"
      by (rule vm_inv_ext_cong) (auto simp: lp lp0)
    moreover have "grow R t ?t" unfolding u(2) using wd(1) r u(1) va new by (rule vm_leaf(2))
    then have "grow R s ?t" using wd(2) grow_trans by blast
    moreover have "pt ?t r' = (if r' = r then (pt t r)(va := ?e) else pt t r')" if "r' \<in> R" for r'
      unfolding u(2) using wd(1) r u(1) va new that by (rule vm_leaf_pt)
    then have "\<forall>r'\<in>R. pt ?t r' = (if r' = r then (pt s r)(va := ?e) else pt s r')"
      using same r by simp
    ultimately show ?thesis using run False old wd(3) by auto
  qed
qed

section \<open>uvmunmap\<close>

text \<open>Releasing a page and clearing an entry of another page can be done in either order.\<close>

lemma st64_push_commute:
  assumes "page_aligned p" "page_aligned t" "t \<noteq> p" "unat i < 512"
  shows "st64 (st64 (memset m p c 4096) p f) (entry t i) e = st64 (memset (st64 m (entry t i) e) p c 4096) p f"
proof
  fix x
  let ?push = "\<lambda>m. st64 (memset m p c 4096) p f"
  have off_t: "st64 m' (entry t i) e x = m' x" if "PGROUNDDOWN x \<noteq> t" for m'
    using st64_same_page [OF assms(2,4), of "PGROUNDDOWN x"] that by (auto simp: same_page_def)
  have off_p: "?push m' x = m' x" if "PGROUNDDOWN x \<noteq> p" for m'
    using st64_same_page [OF assms(1), of 0 "PGROUNDDOWN x"] memset_page [OF assms(1)] that
    by (auto simp: same_page_def)
  show "st64 (?push m) (entry t i) e x = ?push (st64 m (entry t i) e) x"
  proof (cases "PGROUNDDOWN x = t")
    case True
    then have "?push m x = m x" using assms(3) by (intro off_p) auto
    then have "st64 (?push m) (entry t i) e x = st64 m (entry t i) e x" by (rule st64_local)
    also have "\<dots> = ?push (st64 m (entry t i) e) x" using True assms(3) by (intro off_p [symmetric]) auto
    finally show ?thesis .
  next
    case False
    then have "memset m p c 4096 x = memset (st64 m (entry t i) e) p c 4096 x"
      using off_t by (simp add: memset_page [OF assms(1)])
    then have "?push m x = ?push (st64 m (entry t i) e) x" by (rule st64_local)
    then show ?thesis using False off_t by simp
  qed
qed

lemma kfree_store_commute:
  assumes "kmem_ready s" "managed s p" "page_aligned t" "t \<noteq> p" "unat i < 512"
    and "kfree p (s\<lparr>mem := st64 (mem s) (entry t i) e\<rparr>) = Ok () u"
  shows "sq (kfree p) (store (entry t i) e) s = Ok () u"
proof (cases "pgref s (pgidx p) \<le> 1")
  case True
  let ?s = "s\<lparr>mem := st64 (mem s) (entry t i) e\<rparr>"
  note c = st64_push_commute [OF managed_aligned [OF assms(2)] assms(3-5)]
  have "kfree p s = Ok () (settle (s\<lparr>pgref := (pgref s)(pgidx p := 0),
    mem := st64 (memset (mem s) p 1 4096) p (freelist s), freelist := p\<rparr>))"
    using assms(1,2) True by (intro kfree_last) (auto simp: managed_def)
  moreover have "kfree p ?s = Ok () (settle (?s\<lparr>pgref := (pgref ?s)(pgidx p := 0),
    mem := st64 (memset (mem ?s) p 1 4096) p (freelist ?s), freelist := p\<rparr>))"
    using assms(1,2) True by (intro kfree_last) (auto simp: managed_def)
  ultimately show ?thesis using assms(6) by (cases s) (simp add: store_def c)
next
  case False
  let ?s = "s\<lparr>mem := st64 (mem s) (entry t i) e\<rparr>"
  have "kfree p s = Ok () (settle (s\<lparr>pgref := (pgref s)(pgidx p := pgref s (pgidx p) - 1)\<rparr>))"
    using assms(1,2) False by (intro kfree_shared) (auto simp: managed_def)
  moreover have "kfree p ?s = Ok () (settle (?s\<lparr>pgref := (pgref ?s)(pgidx p := pgref ?s (pgidx p) - 1)\<rparr>))"
    using assms(1,2) False by (intro kfree_shared) (auto simp: managed_def)
  ultimately show ?thesis using assms(6) by (cases s) (simp add: store_def)
qed

text \<open>What removing mappings leaves of the memory: pages that are still in use are untouched.\<close>

definition shrink :: "u64 set \<Rightarrow> 'z kmem_scheme \<Rightarrow> 'z kmem_scheme \<Rightarrow> bool" where
  "shrink R s t \<longleftrightarrow> only_mem s t \<and> avail s \<subseteq> avail t \<and> (\<forall>p. refs t p \<le> refs s p) \<and>
     (\<forall>p. is_table (mem t) R p = is_table (mem s) R p) \<and>
     (\<forall>p. p \<notin> avail t \<and> \<not> is_table (mem s) R p \<longrightarrow> same_page (mem s) (mem t) p)"

lemma shrink_refl [simp]: "shrink R s s"
  by (simp add: shrink_def)

lemma shrink_trans: "shrink R s t \<Longrightarrow> shrink R t u \<Longrightarrow> shrink R s u"
proof -
  assume st: "shrink R s t" and tu: "shrink R t u"
  have "only_mem s u" using st tu only_mem_trans by (auto simp: shrink_def)
  moreover have "refs u p \<le> refs s p" for p
    using st tu unfolding shrink_def by (blast intro: order_trans)
  moreover have "same_page (mem s) (mem u) p" if "p \<notin> avail u" "\<not> is_table (mem s) R p" for p
    using st tu that unfolding shrink_def by (blast intro: same_page_trans)
  ultimately show ?thesis using st tu by (auto simp: shrink_def)
qed

lemma shrink_grow0: "grow R s t \<Longrightarrow> refs t = refs s \<Longrightarrow> avail t = avail s \<Longrightarrow>
  (\<And>p. is_table (mem t) R p = is_table (mem s) R p) \<Longrightarrow>
  (\<And>p. \<not> is_table (mem s) R p \<Longrightarrow> same_page (mem s) (mem t) p) \<Longrightarrow> shrink R s t"
  by (simp add: shrink_def grow_def)

lemma released_shrink:
  assumes "released s R p t" "vm_inv s R ext" "0 < refs s p"
  shows "shrink R s t"
proof -
  have n: "node (mem t) r q = node (mem s) r q" if "r \<in> R" "okpath q" for r q
    using assms(1) that by (simp add: released_def)
  have "is_table (mem t) R u = is_table (mem s) R u" for u
    using vm_invD(3) [OF assms(2)] n by (rule forest_node_cong(2))
  moreover have "same_page (mem s) (mem t) u" if "u \<notin> avail t" for u
  proof (cases "refs s p = 1")
    case True
    then have "u \<noteq> p" using assms(1) that by (auto simp: released_def)
    then show ?thesis using assms(1) by (simp add: released_def)
  next
    case False
    then have "1 < refs s p" using assms(3) by simp
    then show ?thesis using assms(1) by (simp add: released_def)
  qed
  ultimately show ?thesis using assms(1) by (auto simp: shrink_def released_def split: if_splits)
qed

lemma clear_entry:
  assumes v: "vm_inv s R ext" and r: "r \<in> R" "node (mem s) r (vpath a) = Some t"
    and a: "page_aligned a" "a < MAXVA"
  defines "s' \<equiv> s\<lparr>mem := st64 (mem s) (entry t (PX 0 a)) 0\<rparr>"
  shows "vm_inv s' R (\<lambda>p. ext p + (if leaf_page a (pt s r a) = Some p then 1 else 0))"
    "shrink R s s'" "\<And>r'. r' \<in> R \<Longrightarrow> pt s' r' = (if r' = r then (pt s r)(a := 0) else pt s r')"
proof -
  have new: "0 < refs s p \<and> \<not> is_table (mem s) R p" if "leaf_page a 0 = Some p" for p
    using that by simp
  note L = vm_leaf [OF v r a, of 0, simplified]
  show "vm_inv s' R (\<lambda>p. ext p + (if leaf_page a (pt s r a) = Some p then 1 else 0))"
    unfolding s'_def using L(1) a by (simp add: pt_def)
  show "\<And>r'. r' \<in> R \<Longrightarrow> pt s' r' = (if r' = r then (pt s r)(a := 0) else pt s r')"
    unfolding s'_def using v r a new by (rule vm_leaf_pt)
  have tt: "is_table (mem s) R t" using r by (intro is_tableI) auto
  have "is_table (mem s') R u = is_table (mem s) R u" for u
    unfolding s'_def by (simp, rule forest_node_cong(2) [OF vm_invD(3) [OF v] L(4)])
  moreover have "same_page (mem s) (mem s') u" if "\<not> is_table (mem s) R u" for u
  proof -
    have "t \<noteq> u" using tt that by blast
    then show ?thesis
      unfolding s'_def
      using st64_same_page [OF is_table_aligned [OF vm_invD(3) [OF v] tt] PX_less] same_page_sym by simp
  qed
  ultimately show "shrink R s s'" by (simp add: shrink_def s'_def)
qed

lemma unmap_one:
  assumes v: "vm_inv s R ext" and r: "r \<in> R" "node (mem s) r (vpath a) = Some t"
    and a: "page_aligned a" "a < MAXVA" "valid (pt s r a)" and fr: "do_free \<longleftrightarrow> a < TRAPFRAME"
    and ex: "\<And>p. 0 \<le> ext p"
  shows "\<exists>u. sq (if do_free then kfree (PTE2PA (pt s r a)) else ret ()) (store (entry t (PX 0 a)) 0) s = Ok () u \<and>
    vm_inv u R ext \<and> shrink R s u \<and> (\<forall>r'\<in>R. pt u r' = (if r' = r then (pt s r)(a := 0) else pt s r'))"
proof -
  let ?s = "s\<lparr>mem := st64 (mem s) (entry t (PX 0 a)) 0\<rparr>"
  note c = clear_entry [OF v r a(1,2)]
  show ?thesis
  proof (cases do_free)
    case False
    then have "leaf_page a (pt s r a) = None" using fr by (simp add: leaf_page_def)
    then show ?thesis using c False by (auto simp: store_def)
  next
    case True
    let ?p = "PTE2PA (pt s r a)"
    have lp: "leaf_page a (pt s r a) = Some ?p" using True fr a(3) by (simp add: leaf_page_def)
    then have own: "page_at (mem s) r (Leaf a) = Some ?p" using a by (simp add: page_at_Leaf pt_def del: page_at.simps)
    have p: "0 < refs s ?p" "\<not> is_table (mem s) R ?p" using vm_invD(5,6) [OF v r(1) own] by blast+
    have mp: "managed s ?p" using p(1) by (rule refs_managed)
    have tt: "is_table (mem s) R t" using r by (intro is_tableI) auto
    have "0 < card (owners (mem s) R ?p)" using owner_card_pos [OF vm_invD(2) [OF v] r(1) own] .
    have e: "vm_inv ?s R (ext(?p := ext ?p + 1))" using c(1) lp by (auto elim: vm_inv_ext_cong)
    have "1 \<le> (ext(?p := ext ?p + 1)) ?p" using ex [of ?p] by simp
    then obtain u where u: "kfree ?p ?s = Ok () u" "vm_inv u R ext" "released ?s R ?p u"
      using vm_kfree [OF e, of ?p] p(1) by auto
    have "kmem_ready s" using vm_invD(1) [OF v] by (simp add: kmem_inv_def)
    then have run: "sq (kfree ?p) (store (entry t (PX 0 a)) 0) s = Ok () u"
      using mp is_table_aligned [OF vm_invD(3) [OF v] tt] _ PX_less u(1)
      by (rule kfree_store_commute) (use tt p(2) in auto)
    have "shrink R s u" using c(2) released_shrink [OF u(3) e] p(1) shrink_trans by auto
    moreover have "pt u r' = (if r' = r then (pt s r)(a := 0) else pt s r')" if "r' \<in> R" for r'
    proof -
      have "pt u r' = pt ?s r'" using u(3) that by (intro pt_cong) (simp add: released_def)
      then show ?thesis using c(3) [OF that] by simp
    qed
    ultimately show ?thesis using run True u(2) by auto
  qed
qed

lemma page_step:
  assumes "page_aligned a" "page_aligned e" "a < e"
  shows "unat (a + PGSIZE) = unat a + 4096" "a + PGSIZE \<le> e" "page_aligned (a + PGSIZE)" "a < a + PGSIZE"
    "page_aligned q \<Longrightarrow> a + PGSIZE \<le> q \<longleftrightarrow> a < q"
proof -
  have room: "unat a + 4096 \<le> unat q" if "page_aligned q" "a < q" for q
    using assms(1) that by (intro aligned_room) (simp_all add: page_aligned_def word_less_nat_alt dvd_eq_mod_eq_0)
  show u: "unat (a + PGSIZE) = unat a + 4096"
    using room [OF assms(2,3)] unsigned_less [of e, where ?'a = nat]
    by (simp add: unat_word_ariths PGSIZE_def)
  show "a + PGSIZE \<le> e" using room [OF assms(2,3)] by (simp add: word_le_nat_alt u)
  show "page_aligned (a + PGSIZE)" using assms(1) u by (simp add: page_aligned_def)
  show "a < a + PGSIZE" by (simp add: word_less_nat_alt u)
  show "a + PGSIZE \<le> q \<longleftrightarrow> a < q" if "page_aligned q"
    using room [OF that] by (auto simp: word_le_nat_alt word_less_nat_alt u)
qed

definition cleared :: "u64 \<Rightarrow> u64 \<Rightarrow> (u64 \<Rightarrow> u64) \<Rightarrow> u64 \<Rightarrow> u64" where
  "cleared a e f va = (if a \<le> va \<and> va < e then 0 else f va)"

lemma cleared_empty [simp]: "\<not> a < e \<Longrightarrow> cleared a e f = f"
  by (auto simp: cleared_def fun_eq_iff)

lemma pt_unaligned: "\<not> page_aligned va \<Longrightarrow> pt s r va = 0"
  by (simp add: pt_def)

lemma cleared_step:
  assumes "page_aligned a" "page_aligned e" "a < e"
  shows "cleared (a + PGSIZE) e ((pt s r)(a := 0)) = cleared a e (pt s r)"
proof
  fix q
  show "cleared (a + PGSIZE) e ((pt s r)(a := 0)) q = cleared a e (pt s r) q"
  proof (cases "page_aligned q")
    case True
    then show ?thesis using page_step(5) [OF assms True] assms(3) by (auto simp: cleared_def)
  next
    case False
    then show ?thesis using assms(1) by (auto simp: cleared_def pt_unaligned)
  qed
qed

lemma uvmunmap_loop_ok:
  assumes "vm_inv s R ext" "r \<in> R" "page_aligned a" "page_aligned e" "e \<le> MAXVA"
    "unat e \<le> unat a + 4096 * n"
    "\<And>va. page_aligned va \<Longrightarrow> a \<le> va \<Longrightarrow> va < e \<Longrightarrow>
       valid (pt s r va) \<and> PTE_FLAGS (pt s r va) \<noteq> PTE_V \<and> (do_free \<longleftrightarrow> va < TRAPFRAME)"
    "\<And>p. 0 \<le> ext p"
  shows "\<exists>t. uvmunmap_loop n r a e do_free s = Ok () t \<and> vm_inv t R ext \<and> shrink R s t \<and>
    (\<forall>r'\<in>R. pt t r' = (if r' = r then cleared a e (pt s r) else pt s r'))"
  using assms(1,3,6,7)
proof (induction n arbitrary: s a)
  case 0
  then have "\<not> a < e" by (simp add: word_less_nat_alt)
  with 0 show ?case by (simp add: uvmunmap_loop.simps [of 0])
next
  case (Suc n)
  show ?case
  proof (cases "a < e")
    case False
    with Suc.prems show ?thesis by (simp add: uvmunmap_loop.simps [of "Suc n"])
  next
    case True
    have am: "a < MAXVA" using True assms(5) by (rule less_le_trans)
    note here = Suc.prems(4) [OF Suc.prems(2) order_refl True]
    obtain t where t: "node (mem s) r (vpath a) = Some t" "pt s r a = ld64 (mem s) (entry t (PX 0 a))"
      using here by (auto elim: node_pt)
    have tt: "is_table (mem s) R t" using t assms(2) by (intro is_tableI) auto
    have nz: "entry t (PX 0 a) \<noteq> 0"
      using entry_nonnull [OF is_table_managed [OF Suc.prems(1) tt] vm_invD(1) [OF Suc.prems(1)] PX_less] .
    obtain u where u: "sq (if do_free then kfree (PTE2PA (pt s r a)) else ret ()) (store (entry t (PX 0 a)) 0) s = Ok () u"
      "vm_inv u R ext" "shrink R s u" "\<forall>r'\<in>R. pt u r' = (if r' = r then (pt s r)(a := 0) else pt s r')"
      using unmap_one [OF Suc.prems(1) assms(2) t(1) Suc.prems(2) am] here assms(8) by blast
    have "uvmunmap_loop (Suc n) r a e do_free s =
      sq (if do_free then kfree (PTE2PA (pt s r a)) else ret ())
        (sq (store (entry t (PX 0 a)) 0) (uvmunmap_loop n r (a + PGSIZE) e do_free)) s"
      using True am conjunct1 [OF here] conjunct1 [OF conjunct2 [OF here]] t nz
      by (simp add: uvmunmap_loop.simps [of "Suc n"] walk_lookup load_def valid_def not_le)
    also have "\<dots> = uvmunmap_loop n r (a + PGSIZE) e do_free u" by (rule sq_sq_Ok [OF u(1)])
    finally have run: "uvmunmap_loop (Suc n) r a e do_free s = uvmunmap_loop n r (a + PGSIZE) e do_free u" .
    note st = page_step [OF Suc.prems(2) assms(4) True]
    have "valid (pt u r va) \<and> PTE_FLAGS (pt u r va) \<noteq> PTE_V \<and> do_free = (va < TRAPFRAME)"
      if "page_aligned va" "a + PGSIZE \<le> va" "va < e" for va
    proof -
      have "a < va" using st(5) [OF that(1)] that(2) by blast
      then show ?thesis using Suc.prems(4) [OF that(1) _ that(3)] u(4) assms(2) by (auto simp: less_imp_le)
    qed
    from Suc.IH [OF u(2) st(3) _ this] st(1) Suc.prems(3) obtain w where
      w: "uvmunmap_loop n r (a + PGSIZE) e do_free u = Ok () w" "vm_inv w R ext" "shrink R u w"
        "\<forall>r'\<in>R. pt w r' = (if r' = r then cleared (a + PGSIZE) e (pt u r) else pt u r')" by auto
    have "\<forall>r'\<in>R. pt w r' = (if r' = r then cleared a e (pt s r) else pt s r')"
      using w(4) u(4) assms(2) cleared_step [OF Suc.prems(2) assms(4) True] by auto
    then show ?thesis using run w shrink_trans [OF u(3) w(3)] by auto
  qed
qed

lemma unat_pages: "unat n * 4096 < 2 ^ 64 \<Longrightarrow> unat (n * PGSIZE) = unat n * 4096"
  by (simp add: unat_word_ariths PGSIZE_def)

lemma uvmunmap_ok:
  assumes "vm_inv s R ext" "r \<in> R" "page_aligned a" "page_aligned e" "a \<le> e" "e \<le> MAXVA"
    "e = a + n * PGSIZE"
    "\<And>va. page_aligned va \<Longrightarrow> a \<le> va \<Longrightarrow> va < e \<Longrightarrow>
       valid (pt s r va) \<and> PTE_FLAGS (pt s r va) \<noteq> PTE_V \<and> (do_free \<longleftrightarrow> va < TRAPFRAME)"
    "\<And>p. 0 \<le> ext p"
  shows "\<exists>t. uvmunmap r a n do_free s = Ok () t \<and> vm_inv t R ext \<and> shrink R s t \<and>
    (\<forall>r'\<in>R. pt t r' = (if r' = r then cleared a e (pt s r) else pt s r'))"
proof -
  have "unat e \<le> unat a + 4096 * (unat e div 4096)"
    using assms(4) by (auto simp: page_aligned_def)
  from uvmunmap_loop_ok [OF assms(1-4,6) this, of do_free] assms(7,8,9)
  have "\<exists>t. uvmunmap_loop (unat e div 4096) r a e do_free s = Ok () t \<and> vm_inv t R ext \<and> shrink R s t \<and>
    (\<forall>r'\<in>R. pt t r' = (if r' = r then cleared a e (pt s r) else pt s r'))" by blast
  then show ?thesis using assms(3,7) by (simp add: uvmunmap_def page_aligned_mod)
qed

section \<open>Reference counts do not overflow\<close>

text \<open>
  Every mapping takes a slot of a table page, and table pages are different pages below
  PHYSTOP, so there are fewer owners than slots.
\<close>

definition slot_of :: "mem \<Rightarrow> u64 \<Rightarrow> u64 \<times> owner \<Rightarrow> nat \<times> nat" where
  "slot_of m p w = (case snd w of Table q \<Rightarrow> (unat p div 4096, 512)
     | Leaf va \<Rightarrow> (unat (the (node m (fst w) (vpath va))) div 4096, unat (PX 0 va)))"

lemma page_div_inj: "page_aligned p \<Longrightarrow> page_aligned q \<Longrightarrow> unat p div 4096 = unat q div 4096 \<Longrightarrow> p = q"
  using PGROUNDDOWN_aligned [of p] PGROUNDDOWN_aligned [of q] unat_PGROUNDDOWN [of p] unat_PGROUNDDOWN [of q]
  by (simp add: word_unat_eq_iff)

lemma leaf_slot:
  assumes "page_at m r (Leaf va) = Some p"
  obtains t where "node m r (vpath va) = Some t" "page_aligned va" "va < MAXVA"
proof -
  have a: "page_aligned va" "va < TRAPFRAME" "valid (pte_at m r va)"
    using assms by (auto split: if_splits)
  then have "node m r (vpath va) \<noteq> None" by (cases "node m r (vpath va)") (simp_all add: pte_at_def)
  moreover have "va < MAXVA" using a(2) by (rule less_trans) (simp add: TRAPFRAME_eq MAXVA_eq)
  ultimately show thesis using that a(1) by blast
qed

lemma slot_of_inj:
  assumes f: "forest m R"
  shows "inj_on (slot_of m p) (owners m R p)"
proof (rule inj_onI)
  fix x y assume x: "x \<in> owners m R p" and y: "y \<in> owners m R p" and e: "slot_of m p x = slot_of m p y"
  obtain r v where rx: "x = (r, v)" "r \<in> R" "page_at m r v = Some p" using x by (auto simp: owners_def)
  obtain r' w where ry: "y = (r', w)" "r' \<in> R" "page_at m r' w = Some p" using y by (auto simp: owners_def)
  have small: "unat (PX 0 va) \<noteq> 512" for va using PX_less [of 0 va] by simp
  consider q q' where "v = Table q" "w = Table q'" | va vb where "v = Leaf va" "w = Leaf vb"
    using e small by (cases v; cases w) (auto simp: slot_of_def rx(1) ry(1) dest: sym)
  then show "x = y"
  proof cases
    case 1
    then show ?thesis using rx ry forest_inj [OF f rx(2) ry(2)] by (auto split: if_splits)
  next
    case 2
    obtain t where t: "node m r (vpath va) = Some t" "page_aligned va" "va < MAXVA"
      using rx(3) 2 leaf_slot by blast
    obtain u where u: "node m r' (vpath vb) = Some u" "page_aligned vb" "vb < MAXVA"
      using ry(3) 2 leaf_slot by blast
    have "t = u" using e 2 t u rx(1) ry(1) page_div_inj forest_aligned [OF f] rx(2) ry(2)
      by (simp add: slot_of_def)
    then have "r = r'" "vpath va = vpath vb"
      using forest_inj [OF f rx(2) ry(2) okpath_vpath okpath_vpath t(1)] u(1) by blast+
    moreover have "PX 0 va = PX 0 vb" using e 2 rx(1) ry(1) by (simp add: slot_of_def word_unat_eq_iff)
    ultimately have "va = vb"
      using vpath_page [OF t(3) u(3)] t(2) u(2) by (simp add: PGROUNDDOWN_aligned)
    then show ?thesis using 2 rx(1) ry(1) \<open>r = r'\<close> by simp
  qed
qed

lemma owners_bound:
  assumes v: "vm_inv s R ext"
  shows "card (owners (mem s) R p) \<le> 0x88000 * 513"
proof -
  have low: "unat u div 4096 < 0x88000" if "managed s u" for u
    using that pgidx_bound [of u] pgidx_nat [of u] by (simp add: managed_def PHYSTOP_eq)
  have "slot_of (mem s) p ` owners (mem s) R p \<subseteq> {..< 0x88000} \<times> {..< 513}"
  proof (clarify)
    fix a b r w
    assume s: "(a, b) = slot_of (mem s) p (r, w)" and "(r, w) \<in> owners (mem s) R p"
    then have o': "r \<in> R" "page_at (mem s) r w = Some p" by (auto simp: owners_def)
    show "a \<in> {..< 0x88000} \<and> b \<in> {..< 513}"
    proof (cases w)
      case (Table q)
      have "managed s p" using owned_pos [OF v o'] by (rule refs_managed)
      then show ?thesis using s Table low by (simp add: slot_of_def)
    next
      case (Leaf va)
      then obtain t where t: "node (mem s) r (vpath va) = Some t" using o'(2) leaf_slot by blast
      then have "is_table (mem s) R t" using o'(1) by (intro is_tableI) auto
      then show ?thesis
        using s Leaf t low is_table_managed [OF v] PX_less [of 0 va] by (auto simp: slot_of_def)
    qed
  qed
  from card_inj_on_le [OF slot_of_inj [OF vm_invD(3) [OF v]] this] show ?thesis by simp
qed

lemma refs_bound:
  assumes "vm_inv s R ext" "ext p < 2 ^ 31"
  shows "refs s p < 2 ^ 32 - 1"
proof (cases "managed s p")
  case True
  then show ?thesis using vm_invD(7) [OF assms(1), of p] owners_bound [OF assms(1), of p] assms(2) by simp
qed (simp add: refs_def)

end
