(* ===== verification/Uvmcopy.thy ===== *)
theory Uvmcopy
  imports Uvm
begin

text \<open>
  The copy-on-write fork of \<^verbatim>\<open>uvmcopy\<close>: parent and child share every page, no
  shared page is writable, the reference counts account for every mapping, and what either
  address space holds is what the parent held before.
\<close>

section \<open>Flag bits\<close>

lemma flag_bits [pte_simps]:
  "e AND PTE_V \<noteq> 0 \<longleftrightarrow> bit e 0" "e AND PTE_V = 0 \<longleftrightarrow> \<not> bit e 0"
  "e AND PTE_W \<noteq> 0 \<longleftrightarrow> bit e 2" "e AND PTE_W = 0 \<longleftrightarrow> \<not> bit e 2"
  "e AND PTE_U \<noteq> 0 \<longleftrightarrow> bit e 4" "e AND PTE_U = 0 \<longleftrightarrow> \<not> bit e 4"
  "e AND PTE_COW \<noteq> 0 \<longleftrightarrow> bit e 8" "e AND PTE_COW = 0 \<longleftrightarrow> \<not> bit e 8"
proof -
  have *: "e AND 2 ^ n = 0 \<longleftrightarrow> \<not> bit e n" for n by (rule and_exp_eq_0_iff_not_bit)
  have f: "PTE_V = 2 ^ 0" "PTE_W = 2 ^ 2" "PTE_U = 2 ^ 4" "PTE_COW = 2 ^ 8" by (simp_all add: flag_defs)
  show "e AND PTE_V \<noteq> 0 \<longleftrightarrow> bit e 0" "e AND PTE_V = 0 \<longleftrightarrow> \<not> bit e 0"
    "e AND PTE_W \<noteq> 0 \<longleftrightarrow> bit e 2" "e AND PTE_W = 0 \<longleftrightarrow> \<not> bit e 2"
    "e AND PTE_U \<noteq> 0 \<longleftrightarrow> bit e 4" "e AND PTE_U = 0 \<longleftrightarrow> \<not> bit e 4"
    "e AND PTE_COW \<noteq> 0 \<longleftrightarrow> bit e 8" "e AND PTE_COW = 0 \<longleftrightarrow> \<not> bit e 8"
    unfolding f by (simp_all only: *) simp_all
qed

lemma valid_bit [pte_simps]: "valid e \<longleftrightarrow> bit e 0"
  by (simp add: valid_def flag_bits)

lemma bit_flag_consts [pte_simps]:
  "bit PTE_V n \<longleftrightarrow> n = 0" "bit PTE_W n \<longleftrightarrow> n = 2" "bit PTE_U n \<longleftrightarrow> n = 4" "bit PTE_COW n \<longleftrightarrow> n = 8"
proof -
  have f: "PTE_V = 2 ^ 0" "PTE_W = 2 ^ 2" "PTE_U = 2 ^ 4" "PTE_COW = 2 ^ 8" by (simp_all add: flag_defs)
  show "bit PTE_V n \<longleftrightarrow> n = 0" "bit PTE_W n \<longleftrightarrow> n = 2" "bit PTE_U n \<longleftrightarrow> n = 4" "bit PTE_COW n \<longleftrightarrow> n = 8"
    unfolding f bit_exp_iff by auto
qed

lemma bit_PTE_FLAGS [pte_simps]: "bit (PTE_FLAGS e) n \<longleftrightarrow> n < 10 \<and> bit e n"
proof -
  have m: "(0x3FF :: u64) = mask 10" by (simp add: mask_eq_exp_minus_1)
  show ?thesis unfolding PTE_FLAGS_def m by (auto simp: bit_simps dest: bit_imp_le_length)
qed

lemma PTE_FLAGS_less: "PTE_FLAGS e < 1024"
proof -
  have "take_bit 10 (PTE_FLAGS e) = PTE_FLAGS e"
    by (rule bit_word_eqI) (auto simp: bit_simps bit_PTE_FLAGS)
  moreover have "unat (take_bit 10 (PTE_FLAGS e)) < 1024"
    using take_bit_nat_less_exp [of 10 "unat (PTE_FLAGS e)"] by (simp add: unsigned_take_bit_eq)
  ultimately show ?thesis by (simp add: word_less_nat_alt)
qed

lemma PTE2PA_cong: "(\<And>n. 10 \<le> n \<Longrightarrow> bit e n = bit f n) \<Longrightarrow> PTE2PA e = PTE2PA f"
  unfolding PTE2PA_def by (rule arg_cong [of _ _ "push_bit 12"], rule bit_word_eqI) (simp add: bit_simps)

section \<open>The entries uvmcopy makes\<close>

text \<open>What becomes of an entry of the parent, and the entry the child gets.\<close>

definition cow :: "u64 \<Rightarrow> u64" where
  "cow v = (if v AND PTE_W \<noteq> 0 \<or> v AND PTE_COW \<noteq> 0 then (v AND NOT PTE_W) OR PTE_COW else v)"

definition share :: "u64 \<Rightarrow> u64" where
  "share v = PA2PTE (PTE2PA v) OR PTE_FLAGS (cow v) OR PTE_V"

definition is_leaf :: "u64 \<Rightarrow> bool" where
  "is_leaf v \<longleftrightarrow> valid v \<and> PTE_FLAGS v \<noteq> PTE_V"

lemma bit_cow: "bit (cow v) n \<longleftrightarrow> n < 64 \<and> (if n = 2 then False else if n = 8 then bit v 2 \<or> bit v 8 else bit v n)"
  by (auto simp: cow_def flag_bits bit_simps bit_flag_consts dest: bit_imp_le_length)

lemma cow_simps [simp]: "valid (cow v) = valid v" "PTE2PA (cow v) = PTE2PA v" "\<not> bit (cow v) 2"
  "bit (cow v) 4 = bit v 4"
proof -
  have "bit v n \<Longrightarrow> n < 64" for n using bit_imp_le_length [of v n] by simp
  then show "PTE2PA (cow v) = PTE2PA v" by (intro PTE2PA_cong) (auto simp: bit_cow)
qed (auto simp: valid_bit bit_cow)

lemma share_flags: "valid v \<Longrightarrow> PTE_FLAGS (share v) = PTE_FLAGS (cow v)"
proof -
  assume "valid v"
  then have "PTE_FLAGS (cow v) OR PTE_V = PTE_FLAGS (cow v)"
    by (intro bit_word_eqI) (auto simp: bit_simps pte_simps bit_cow)
  then show ?thesis
    unfolding share_def using PTE_FLAGS_PA2PTE [OF PTE_FLAGS_less, of _ "cow v"] by (simp add: or.assoc)
qed

lemma share_simps [simp]: "valid (share v)" "PTE2PA (share v) = PTE2PA v"
proof -
  show "valid (share v)" by (simp add: share_def or.assoc)
  have "PTE_FLAGS (cow v) OR PTE_V < 1024" using PTE_FLAGS_less by (rule flags_or_less)
  then show "PTE2PA (share v) = PTE2PA v"
    unfolding share_def or.assoc by (rule PTE2PA_PA2PTE [OF page_aligned_PTE2PA])
qed

lemma cow_cow [simp]: "cow (cow v) = cow v"
  by (rule bit_word_eqI) (simp add: bit_cow)

lemma share_cow [simp]: "share (cow v) = share v"
  by (simp add: share_def)

lemma share_bits: "valid v \<Longrightarrow> n < 10 \<Longrightarrow> bit (share v) n = bit (cow v) n"
  using share_flags [of v] bit_PTE_FLAGS by metis

lemma leaf_bits: "is_leaf v \<longleftrightarrow> bit v 0 \<and> (\<exists>n. 0 < n \<and> n < 10 \<and> bit v n)"
proof -
  have "PTE_FLAGS v = PTE_V \<longleftrightarrow> bit v 0 \<and> (\<forall>n. 0 < n \<and> n < 10 \<longrightarrow> \<not> bit v n)"
  proof
    assume e: "PTE_FLAGS v = PTE_V"
    have "n < 10 \<and> bit v n \<longleftrightarrow> n = 0" for n using bit_PTE_FLAGS [of v n] by (simp add: e pte_simps)
    then show "bit v 0 \<and> (\<forall>n. 0 < n \<and> n < 10 \<longrightarrow> \<not> bit v n)" by (metis not_gr_zero)
  next
    assume "bit v 0 \<and> (\<forall>n. 0 < n \<and> n < 10 \<longrightarrow> \<not> bit v n)"
    then show "PTE_FLAGS v = PTE_V"
      by (intro bit_word_eqI) (auto simp: pte_simps intro: gr0I)
  qed
  then show ?thesis by (auto simp: is_leaf_def valid_bit)
qed

lemma leaf_cow:
  assumes "is_leaf v"
  shows "is_leaf (cow v)"
proof -
  obtain n where n: "bit v 0" "0 < n" "n < 10" "bit v n" using assms by (auto simp: leaf_bits)
  have "bit (cow v) (if n = 2 then 8 else n)" using n by (auto simp: bit_cow)
  moreover have "bit (cow v) 0" using n(1) by (simp add: bit_cow)
  ultimately show ?thesis using n unfolding leaf_bits
    by (intro conjI exI [of _ "if n = 2 then 8 else n"]) auto
qed

lemma leaf_share: "is_leaf v \<Longrightarrow> is_leaf (share v)"
  using leaf_cow [of v] share_flags [of v] by (simp add: is_leaf_def)

section \<open>One round of the loop\<close>

text \<open>Pages in use keep their contents.\<close>

definition keeps :: "u64 set \<Rightarrow> 'z kmem_scheme \<Rightarrow> 'z kmem_scheme \<Rightarrow> bool" where
  "keeps R s t \<longleftrightarrow> only_mem s t \<and> avail t \<subseteq> avail s \<and>
     (\<forall>p. p \<notin> avail s \<and> \<not> is_table (mem s) R p \<longrightarrow>
        same_page (mem s) (mem t) p \<and> \<not> is_table (mem t) R p)"

lemma keeps_refl [simp]: "keeps R s s"
  by (simp add: keeps_def)

lemma grow_keeps: "grow R s t \<Longrightarrow> keeps R s t"
  by (simp add: keeps_def grow_def)

lemma keeps_trans: "keeps R s t \<Longrightarrow> keeps R t u \<Longrightarrow> keeps R s u"
proof -
  assume st: "keeps R s t" and tu: "keeps R t u"
  have sub: "p \<notin> avail s \<Longrightarrow> p \<notin> avail t" for p using st by (auto simp: keeps_def)
  have "only_mem s u" using st tu only_mem_trans by (auto simp: keeps_def)
  moreover have "avail u \<subseteq> avail s" using st tu unfolding keeps_def by blast
  moreover have "same_page (mem s) (mem u) p \<and> \<not> is_table (mem u) R p"
    if "p \<notin> avail s" "\<not> is_table (mem s) R p" for p
    using st tu that sub [OF that(1)] unfolding keeps_def by (blast intro: same_page_trans)
  ultimately show ?thesis by (simp add: keeps_def)
qed

lemma cow_step:
  assumes v: "vm_inv s R ext" and r: "r \<in> R" "node (mem s) r (vpath a) = Some t"
    and a: "page_aligned a" "a < TRAPFRAME" "valid (pt s r a)"
  defines "v0 \<equiv> pt s r a"
  shows "\<exists>u. sq (if v0 AND PTE_W \<noteq> 0 \<or> v0 AND PTE_COW \<noteq> 0
        then store (entry t (PX 0 a)) ((v0 AND NOT PTE_W) OR PTE_COW) else ret ())
      (load (entry t (PX 0 a))) s = Ok (cow v0) u \<and> vm_inv u R ext \<and> grow R s u \<and>
    (\<forall>r'\<in>R. pt u r' = (if r' = r then (pt s r)(a := cow v0) else pt s r')) \<and>
    refs u = refs s \<and> (\<forall>p. is_table (mem u) R p = is_table (mem s) R p)"
proof -
  have am: "a < MAXVA" using a(2) by (rule less_trans) (simp add: TRAPFRAME_eq MAXVA_eq)
  have v0: "v0 = ld64 (mem s) (entry t (PX 0 a))" "v0 = pte_at (mem s) r a"
    using a am r by (simp_all add: v0_def pt_def pte_at_def)
  have lp: "leaf_page a (cow v0) = leaf_page a v0" by (simp add: leaf_page_def)
  have al: "page_aligned t" using forest_aligned [OF vm_invD(3) [OF v] r] .
  have own: "page_at (mem s) r (Leaf a) = leaf_page a v0" using a v0(2) by (simp add: page_at_Leaf del: page_at.simps)
  let ?u = "s\<lparr>mem := st64 (mem s) (entry t (PX 0 a)) (cow v0)\<rparr>"
  have new: "0 < refs s p \<and> \<not> is_table (mem s) R p" if "leaf_page a (cow v0) = Some p" for p
    using that vm_invD(5,6) [OF v r(1)] own lp by simp
  have "vm_inv ?u R (\<lambda>p. ext p - (if leaf_page a (cow v0) = Some p then 1 else 0) +
      (if leaf_page a (pte_at (mem s) r a) = Some p then 1 else 0))"
    using v r a(1) am new by (rule vm_leaf(1))
  then have inv: "vm_inv ?u R ext" by (rule vm_inv_ext_cong) (simp add: lp flip: v0(2))
  have g: "grow R s ?u" using v r a(1) am new by (rule vm_leaf(2))
  have p: "pt ?u r' = (if r' = r then (pt s r)(a := cow v0) else pt s r')" if "r' \<in> R" for r'
    using v r a(1) am new that by (rule vm_leaf_pt)
  have n: "node (st64 (mem s) (entry t (PX 0 a)) (cow v0)) r' q = node (mem s) r' q" if "r' \<in> R" "okpath q" for r' q
    using v r a(1) am new that by (rule vm_leaf(4))
  have tab: "is_table (mem ?u) R x = is_table (mem s) R x" for x
    using forest_node_cong(2) [OF vm_invD(3) [OF v] n] by simp
  show ?thesis
  proof (cases "v0 AND PTE_W \<noteq> 0 \<or> v0 AND PTE_COW \<noteq> 0")
    case True
    then have c: "cow v0 = (v0 AND NOT PTE_W) OR PTE_COW" unfolding cow_def by simp
    have "sq (store (entry t (PX 0 a)) ((v0 AND NOT PTE_W) OR PTE_COW)) (load (entry t (PX 0 a))) s = Ok (cow v0) ?u"
      by (simp add: c store_def load_def ld64_st64_same)
    then show ?thesis using True inv g p tab by (intro exI [of _ ?u]) simp
  next
    case False
    then have c: "cow v0 = v0" unfolding cow_def by simp
    have "sq (ret ()) (load (entry t (PX 0 a))) s = Ok (cow v0) s" by (simp add: load_def c flip: v0(1))
    moreover have "pt s r' = (if r' = r then (pt s r)(a := cow v0) else pt s r')" for r'
      using c unfolding v0_def by simp
    ultimately show ?thesis using False v by (intro exI [of _ s]) simp
  qed
qed

lemma share_step:
  assumes v: "vm_inv s R ext" and R: "old \<in> R" "new \<in> R" "old \<noteq> new"
    and ex: "\<And>p. 0 \<le> ext p" "\<And>p. ext p < 2 ^ 31"
    and a: "page_aligned a" "a < TRAPFRAME" "valid (pt s old a)" "\<not> valid (pt s new a)"
  shows "\<exists>rc u. bind (mappages new a PGSIZE (PTE2PA (pt s old a)) (PTE_FLAGS (cow (pt s old a))))
      (\<lambda>r. if r \<noteq> 0 then ret r else sq (incref (PTE2PA (pt s old a))) (ret 0)) s = Ok rc u \<and>
    keeps R s u \<and> vm_inv u R ext \<and> (rc = 0 \<or> rc = -1) \<and>
    (\<forall>r'\<in>R. pt u r' = (if r' = new \<and> rc = 0 then (pt s new)(a := share (pt s old a)) else pt s r'))"
proof -
  let ?v = "pt s old a" and ?pa = "PTE2PA (pt s old a)"
  have am: "a < MAXVA" using a(2) by (rule less_trans) (simp add: TRAPFRAME_eq MAXVA_eq)
  have own: "page_at (mem s) old (Leaf a) = Some ?pa"
    using a am by (simp add: page_at_Leaf leaf_page_def pt_def del: page_at.simps)
  note pp = vm_invD(5,6) [OF v R(1) own]
  obtain rc t where m: "mappages new a PGSIZE ?pa (PTE_FLAGS (cow ?v)) s = Ok rc t" "grow R s t"
    "if rc = 0 then vm_inv t R (if a < TRAPFRAME then ext(?pa := ext ?pa - 1) else ext) \<and>
       (\<forall>r'\<in>R. pt t r' = (if r' = new then (pt s new)(a := PA2PTE ?pa OR PTE_FLAGS (cow ?v) OR PTE_V) else pt s r'))
     else rc = -1 \<and> avail t = {} \<and> vm_inv t R ext \<and> (\<forall>r'\<in>R. pt t r' = pt s r')"
    using mappages_page [OF v R(2) a(1) am a(4) page_aligned_PTE2PA PTE_FLAGS_less] pp by metis
  show ?thesis
  proof (cases "rc = 0")
    case False
    then show ?thesis using m grow_keeps [OF m(2)] by (intro exI [of _ rc] exI [of _ t]) auto
  next
    case True
    let ?e = "ext(?pa := ext ?pa - 1)"
    have t: "vm_inv t R ?e" "\<forall>r'\<in>R. pt t r' = (if r' = new then (pt s new)(a := share ?v) else pt s r')"
      using m(3) True a(2) by (auto simp: share_def)
    have "?pa \<notin> avail s" using pp(1) kmem_inv_refs_avail by fastforce
    then have q: "0 < refs t ?pa" "\<not> is_table (mem t) R ?pa" using m(2) pp by (auto simp: grow_def)
    have "?e ?pa < 2 ^ 31" using ex(2) [of ?pa] by simp
    then have "refs t ?pa < 2 ^ 32 - 1" by (rule refs_bound [OF t(1)])
    from vm_incref [OF t(1) q this] obtain u where u: "incref ?pa t = Ok () u" "vm_inv u R ext"
      "only_mem t u" "mem u = mem t" "avail u = avail t" by auto
    have "keeps R t u" using u by (simp add: keeps_def)
    then have "keeps R s u" using keeps_trans grow_keeps [OF m(2)] by blast
    moreover have "pt u = pt t" using u(4) by (intro ext) (simp add: pt_def)
    ultimately show ?thesis using m(1) True u(1,2) t(2) R by (intro exI [of _ 0] exI [of _ u]) auto
  qed
qed

section \<open>The loop\<close>

text \<open>The pages from \<open>a\<close> up to \<open>e\<close> take their entries from \<open>f\<close>, the others keep theirs.\<close>

definition on_pages :: "u64 \<Rightarrow> u64 \<Rightarrow> (u64 \<Rightarrow> u64) \<Rightarrow> (u64 \<Rightarrow> u64) \<Rightarrow> u64 \<Rightarrow> u64" where
  "on_pages a e f g va = (if page_aligned va \<and> a \<le> va \<and> va < e then f va else g va)"

lemma on_pages_empty [simp]: "\<not> a < e \<Longrightarrow> on_pages a e f g = g"
  by (auto simp: on_pages_def fun_eq_iff)

lemma on_pages_step:
  assumes "page_aligned a" "page_aligned b" "a < b" "a < e"
  shows "on_pages (a + PGSIZE) e f (g(a := f a)) = on_pages a e f g"
proof
  fix q
  show "on_pages (a + PGSIZE) e f (g(a := f a)) q = on_pages a e f g q"
    using page_step(5) [OF assms(1-3), of q] assms(1,4) by (auto simp: on_pages_def)
qed

lemma on_pages_cong:
  "(\<And>va. page_aligned va \<Longrightarrow> a \<le> va \<Longrightarrow> va < e \<Longrightarrow> f va = f' va) \<Longrightarrow> on_pages a e f g = on_pages a e f' g"
  by (auto simp: on_pages_def fun_eq_iff)

lemma bind_commit:
  assumes "bind m (\<lambda>r. if r \<noteq> 0 then ret r else sq c (ret 0)) s = Ok rc w"
  shows "bind m (\<lambda>r. if r \<noteq> (0 :: int) then e else sq c l) s = (if rc \<noteq> 0 then e w else l w)"
  using assms by (auto simp: bind_def sq_run split: outcome.splits if_splits)

text \<open>How the copy of the pages from \<open>i\<close> on can end.\<close>

definition copied :: "u64 set \<Rightarrow> u64 \<Rightarrow> u64 \<Rightarrow> u64 \<Rightarrow> u64 \<Rightarrow> 'z kmem_scheme \<Rightarrow> int \<Rightarrow> 'z kmem_scheme \<Rightarrow> bool" where
  "copied R old new i sz s rc t \<longleftrightarrow>
     (\<forall>r'\<in>R - {old, new}. pt t r' = pt s r') \<and>
     (rc = 0 \<and> keeps R s t \<and> pt t old = on_pages i sz (\<lambda>va. cow (pt s old va)) (pt s old) \<and>
        pt t new = on_pages i sz (\<lambda>va. share (pt s old va)) (pt s new) \<or>
      rc = -1 \<and> (\<exists>u. keeps R s u \<and> shrink R u t \<and> (\<forall>r'\<in>R - {new}. pt t r' = pt u r')) \<and>
        (\<forall>va. pt t old va = pt s old va \<or> pt t old va = cow (pt s old va)) \<and>
        (\<forall>va. va < sz \<longrightarrow> \<not> valid (pt t new va)) \<and> (\<forall>va. sz \<le> va \<longrightarrow> pt t new va = pt s new va))"

lemma copied_fail:
  assumes v: "vm_inv s R ext" and R: "old \<in> R" "new \<in> R" "old \<noteq> new" and ex: "\<And>p. 0 \<le> ext p"
    and i: "page_aligned i" "i < sz" "sz \<le> TRAPFRAME"
    and m: "\<And>va. page_aligned va \<Longrightarrow> va < i \<Longrightarrow> is_leaf (pt s new va)"
    and n: "\<And>va. page_aligned va \<Longrightarrow> i \<le> va \<Longrightarrow> va < sz \<Longrightarrow> \<not> valid (pt s new va)"
  shows "\<exists>t. uvmunmap new 0 (i div PGSIZE) True s = Ok () t \<and> vm_inv t R ext \<and> shrink R s t \<and>
    (\<forall>r'\<in>R - {new}. pt t r' = pt s r') \<and> (\<forall>va. va < sz \<longrightarrow> \<not> valid (pt t new va)) \<and>
    (\<forall>va. sz \<le> va \<longrightarrow> pt t new va = pt s new va)"
proof -
  have it: "i < TRAPFRAME" using i(2,3) by (rule less_le_trans)
  have tm: "TRAPFRAME \<le> MAXVA" by (simp add: TRAPFRAME_eq MAXVA_eq)
  have b: "unat (i div PGSIZE) * 4096 = unat i"
    using i(1) by (auto simp: unat_div PGSIZE_def page_aligned_def)
  then have "unat (i div PGSIZE * PGSIZE) = unat i"
    using unat_pages [of "i div PGSIZE"] unsigned_less [of i, where ?'a = nat] by simp
  then have e: "i = 0 + i div PGSIZE * PGSIZE" by (simp add: word_unat_eq_iff)
  have le: "i \<le> MAXVA" using it tm by (meson order.trans less_imp_le)
  have cond: "valid (pt s new va) \<and> PTE_FLAGS (pt s new va) \<noteq> PTE_V \<and> True = (va < TRAPFRAME)"
    if "page_aligned va" "0 \<le> va" "va < i" for va
    using m [OF that(1,3)] less_trans [OF that(3) it] by (simp add: is_leaf_def)
  have "page_aligned 0" by (simp add: page_aligned_def)
  from uvmunmap_ok [OF v R(2) this i(1) _ le e cond ex] obtain t where
    t: "uvmunmap new 0 (i div PGSIZE) True s = Ok () t" "vm_inv t R ext" "shrink R s t"
      "\<forall>r'\<in>R. pt t r' = (if r' = new then cleared 0 i (pt s new) else pt s r')" by auto
  have "\<not> valid (pt t new va)" if "va < sz" for va
    using t(4) R(2) n [of va] that by (cases "page_aligned va") (auto simp: cleared_def pt_unaligned not_less)
  moreover have "pt t new va = pt s new va" if "sz \<le> va" for va
  proof -
    have "\<not> va < i" using that i(2) by (meson leD order.strict_trans)
    then show ?thesis using t(4) R(2) by (simp add: cleared_def)
  qed
  ultimately show ?thesis using t by auto
qed

lemma uvmcopy_round:
  assumes v: "vm_inv s R ext" and R: "old \<in> R" "new \<in> R" "old \<noteq> new"
    and ex: "\<And>p. 0 \<le> ext p" "\<And>p. ext p < 2 ^ 31"
    and i: "page_aligned i" "i < sz" "i < TRAPFRAME" "valid (pt s old i)" "\<not> valid (pt s new i)"
  shows "\<exists>rc t. uvmcopy_loop (Suc n) old new i sz s =
      (if rc \<noteq> (0 :: int) then sq (uvmunmap new 0 (i div PGSIZE) True) (ret (-1)) t else uvmcopy_loop n old new (i + PGSIZE) sz t) \<and>
    keeps R s t \<and> vm_inv t R ext \<and>
    (\<forall>r'\<in>R. pt t r' = (if r' = old then (pt s old)(i := cow (pt s old i))
      else if r' = new \<and> rc = 0 then (pt s new)(i := share (pt s old i)) else pt s r'))"
proof -
  let ?v = "pt s old i"
  have im: "i < MAXVA" using i(3) by (rule less_trans) (simp add: TRAPFRAME_eq MAXVA_eq)
  obtain t where t: "node (mem s) old (vpath i) = Some t" "?v = ld64 (mem s) (entry t (PX 0 i))"
    using i(4) by (auto elim: node_pt)
  have tt: "is_table (mem s) R t" using t R(1) by (intro is_tableI) auto
  have nz: "entry t (PX 0 i) \<noteq> 0"
    using entry_nonnull [OF is_table_managed [OF v tt] vm_invD(1) [OF v] PX_less] .
  obtain u where u: "sq (if ?v AND PTE_W \<noteq> 0 \<or> ?v AND PTE_COW \<noteq> 0
        then store (entry t (PX 0 i)) ((?v AND NOT PTE_W) OR PTE_COW) else ret ())
      (load (entry t (PX 0 i))) s = Ok (cow ?v) u" "vm_inv u R ext" "grow R s u"
    "\<forall>r'\<in>R. pt u r' = (if r' = old then (pt s old)(i := cow ?v) else pt s r')"
    using cow_step [OF v R(1) t(1) i(1,3,4)] by blast
  have pu: "pt u old i = cow ?v" "pt u new = pt s new" using u(4) R by auto
  have "valid (pt u old i)" "\<not> valid (pt u new i)" using pu i(4,5) by simp_all
  from share_step [OF u(2) R ex i(1,3) this, unfolded pu(1) cow_cow share_cow cow_simps] obtain rc w where
    w: "bind (mappages new i PGSIZE (PTE2PA ?v) (PTE_FLAGS (cow ?v)))
      (\<lambda>r. if r \<noteq> 0 then ret r else sq (incref (PTE2PA ?v)) (ret 0)) u = Ok rc w" "keeps R u w" "vm_inv w R ext"
      "\<forall>r'\<in>R. pt w r' = (if r' = new \<and> rc = 0 then (pt u new)(i := share ?v) else pt u r')"
    by blast
  have ld: "load (entry t (PX 0 i)) s = Ok ?v s" using t(2) by (simp add: load_def)
  let ?E = "sq (uvmunmap new 0 (i div PGSIZE) True) (ret (-1))" and ?L = "uvmcopy_loop n old new (i + PGSIZE) sz"
  have "uvmcopy_loop (Suc n) old new i sz s =
    sq (if ?v AND PTE_W \<noteq> 0 \<or> ?v AND PTE_COW \<noteq> 0
        then store (entry t (PX 0 i)) ((?v AND NOT PTE_W) OR PTE_COW) else ret ())
      (bind (load (entry t (PX 0 i))) (\<lambda>x. bind (mappages new i PGSIZE (PTE2PA ?v) (PTE_FLAGS x))
        (\<lambda>r. if r \<noteq> 0 then ?E else sq (incref (PTE2PA ?v)) ?L))) s"
    using i(2,4) im t(1) nz ld
    by (simp add: uvmcopy_loop.simps [of "Suc n"] walk_lookup Let_def valid_def not_le)
  also have "\<dots> = bind (mappages new i PGSIZE (PTE2PA ?v) (PTE_FLAGS (cow ?v)))
        (\<lambda>r. if r \<noteq> 0 then ?E else sq (incref (PTE2PA ?v)) ?L) u"
    by (rule sq_bind_Ok [OF u(1)])
  also have "\<dots> = (if rc \<noteq> 0 then ?E w else ?L w)" by (rule bind_commit [OF w(1)])
  finally have run: "uvmcopy_loop (Suc n) old new i sz s = (if rc \<noteq> 0 then ?E w else ?L w)" .
  have "keeps R s w" using keeps_trans [OF grow_keeps [OF u(3)] w(2)] .
  moreover have "\<forall>r'\<in>R. pt w r' = (if r' = old then (pt s old)(i := cow ?v)
      else if r' = new \<and> rc = 0 then (pt s new)(i := share ?v) else pt s r')"
    using w(4) u(4) R pu by auto
  ultimately show ?thesis using run w(3) by blast
qed

lemma copied_step:
  assumes R: "old \<in> R" "new \<in> R" "old \<noteq> new" and i: "page_aligned i" "i < sz" "i < TRAPFRAME"
    and k: "keeps R s t" and p: "\<forall>r'\<in>R. pt t r' = (if r' = old then (pt s old)(i := cow (pt s old i))
        else if r' = new then (pt s new)(i := share (pt s old i)) else pt s r')"
    and c: "copied R old new (i + PGSIZE) sz t rc w"
  shows "copied R old new i sz s rc w"
proof -
  have ta: "page_aligned TRAPFRAME" by (simp add: TRAPFRAME_eq page_aligned_def)
  note st = page_step [OF i(1) ta i(3)] and ops = on_pages_step [OF i(1) ta i(3,2)]
  have po: "pt t old = (pt s old)(i := cow (pt s old i))" and pn: "pt t new = (pt s new)(i := share (pt s old i))"
    using p R by auto
  have pos: "pt t old va = pt s old va" if "page_aligned va" "i + PGSIZE \<le> va" for va
    using st(5) [OF that(1)] that(2) po by auto
  have cong: "on_pages (i + PGSIZE) sz (\<lambda>va. f (pt t old va)) g = on_pages (i + PGSIZE) sz (\<lambda>va. f (pt s old va)) g" for f g
    by (rule on_pages_cong) (simp add: pos)
  have rest: "\<forall>r'\<in>R - {old, new}. pt w r' = pt s r'" using c p by (auto simp: copied_def)
  from c consider (finished) "rc = 0" "keeps R t w"
      "pt w old = on_pages (i + PGSIZE) sz (\<lambda>va. cow (pt t old va)) (pt t old)"
      "pt w new = on_pages (i + PGSIZE) sz (\<lambda>va. share (pt t old va)) (pt t new)"
    | (failed) u where "rc = -1" "keeps R t u" "shrink R u w" "\<forall>r'\<in>R - {new}. pt w r' = pt u r'"
      "\<forall>va. pt w old va = pt t old va \<or> pt w old va = cow (pt t old va)"
      "\<forall>va. va < sz \<longrightarrow> \<not> valid (pt w new va)" "\<forall>va. sz \<le> va \<longrightarrow> pt w new va = pt t new va"
    unfolding copied_def by blast
  then show ?thesis
  proof cases
    case finished
    have "pt w old = on_pages i sz (\<lambda>va. cow (pt s old va)) (pt s old)"
      using finished(3) ops [of "\<lambda>va. cow (pt s old va)" "pt s old"] cong [of cow "pt t old"] po by metis
    moreover have "pt w new = on_pages i sz (\<lambda>va. share (pt s old va)) (pt s new)"
      using finished(4) ops [of "\<lambda>va. share (pt s old va)" "pt s new"] cong [of share "pt t new"] pn by metis
    ultimately show ?thesis using finished(1) keeps_trans [OF k finished(2)] rest by (simp add: copied_def)
  next
    case failed
    have "pt w old va = pt s old va \<or> pt w old va = cow (pt s old va)" for va
      using spec [OF failed(5), of va] po by (cases "va = i") auto
    moreover have "\<forall>va. sz \<le> va \<longrightarrow> pt w new va = pt s new va" using failed(7) pn i(2) by auto
    moreover have "\<exists>u. keeps R s u \<and> shrink R u w \<and> (\<forall>r'\<in>R - {new}. pt w r' = pt u r')"
      using keeps_trans [OF k failed(2)] failed(3,4) by blast
    ultimately show ?thesis using failed(1,6) rest by (simp add: copied_def)
  qed
qed

lemma uvmcopy_loop_ok:
  assumes R: "old \<in> R" "new \<in> R" "old \<noteq> new"
    and ex: "\<And>p. 0 \<le> ext p" "\<And>p. ext p < 2 ^ 31" and sz: "sz \<le> TRAPFRAME"
    and "vm_inv s R ext" "page_aligned i" "unat sz \<le> unat i + 4096 * n"
    "\<And>va. page_aligned va \<Longrightarrow> i \<le> va \<Longrightarrow> va < sz \<Longrightarrow> is_leaf (pt s old va) \<and> \<not> valid (pt s new va)"
    "\<And>va. page_aligned va \<Longrightarrow> va < i \<Longrightarrow> is_leaf (pt s new va)"
  shows "\<exists>rc t. uvmcopy_loop n old new i sz s = Ok rc t \<and> vm_inv t R ext \<and> copied R old new i sz s rc t"
  using assms(7-)
proof (induction n arbitrary: s i)
  case 0
  then have "\<not> i < sz" by (simp add: word_less_nat_alt)
  with 0 show ?case by (simp add: uvmcopy_loop.simps [of 0] copied_def)
next
  case (Suc n)
  show ?case
  proof (cases "i < sz")
    case False
    with Suc.prems show ?thesis by (simp add: uvmcopy_loop.simps [of "Suc n"] copied_def)
  next
    case lt: True
    have it: "i < TRAPFRAME" using lt sz by (rule less_le_trans)
    have ta: "page_aligned TRAPFRAME" by (simp add: TRAPFRAME_eq page_aligned_def)
    note here = Suc.prems(4) [OF Suc.prems(2) order_refl lt]
    have vh: "valid (pt s old i)" "\<not> valid (pt s new i)" using here by (simp_all add: is_leaf_def)
    obtain rc :: int and t where t: "uvmcopy_loop (Suc n) old new i sz s =
        (if rc \<noteq> 0 then sq (uvmunmap new 0 (i div PGSIZE) True) (ret (-1)) t else uvmcopy_loop n old new (i + PGSIZE) sz t)"
      "keeps R s t" "vm_inv t R ext" and p: "\<forall>r'\<in>R. pt t r' = (if r' = old then (pt s old)(i := cow (pt s old i))
        else if r' = new \<and> rc = 0 then (pt s new)(i := share (pt s old i)) else pt s r')"
      using uvmcopy_round [OF Suc.prems(1) R ex Suc.prems(2) lt it vh] by blast
    note st = page_step [OF Suc.prems(2) ta it]
    have after: "i < va" if "page_aligned va" "i + PGSIZE \<le> va" for va using st(5) [OF that(1)] that(2) by blast
    have po: "pt t old = (pt s old)(i := cow (pt s old i))" using p R(1) by simp
    show ?thesis
    proof (cases "rc = 0")
      case True
      have pn: "pt t new = (pt s new)(i := share (pt s old i))" using p R True by simp
      have 1: "is_leaf (pt t old va) \<and> \<not> valid (pt t new va)"
        if "page_aligned va" "i + PGSIZE \<le> va" "va < sz" for va
        using Suc.prems(4) [OF that(1) _ that(3)] after [OF that(1,2)] po pn by (simp add: less_imp_le)
      have 2: "is_leaf (pt t new va)" if "page_aligned va" "va < i + PGSIZE" for va
      proof (cases "va = i")
        case True
        then show ?thesis using pn leaf_share here by simp
      next
        case False
        then have "va < i" using st(5) [OF that(1)] that(2) by (meson leD linorder_less_linear)
        then show ?thesis using Suc.prems(5) [OF that(1)] pn False by simp
      qed
      have fuel: "unat sz \<le> unat (i + PGSIZE) + 4096 * n" using st(1) Suc.prems(3) by simp
      from Suc.IH [OF t(3) st(3) fuel 1 2] obtain rc' w where
        w: "uvmcopy_loop n old new (i + PGSIZE) sz t = Ok rc' w" "vm_inv w R ext"
          "copied R old new (i + PGSIZE) sz t rc' w" by blast
      have "copied R old new i sz s rc' w"
        using R Suc.prems(2) lt it t(2) _ w(3) by (rule copied_step) (use p True in auto)
      then show ?thesis using w t True by auto
    next
      case False
      have pn: "pt t new = pt s new" using p R False by auto
      from copied_fail [OF t(3) R ex(1) Suc.prems(2) lt sz, unfolded pn] Suc.prems(4,5) obtain w where
        w: "uvmunmap new 0 (i div PGSIZE) True t = Ok () w" "vm_inv w R ext" "shrink R t w"
        "\<forall>r'\<in>R - {new}. pt w r' = pt t r'" "\<forall>va. va < sz \<longrightarrow> \<not> valid (pt w new va)"
        "\<forall>va. sz \<le> va \<longrightarrow> pt w new va = pt s new va" by blast
      have "\<forall>va. pt w old va = pt s old va \<or> pt w old va = cow (pt s old va)"
        using w(4) po R by auto
      moreover have "\<forall>r'\<in>R - {old, new}. pt w r' = pt s r'" using w(4) p by auto
      ultimately have "copied R old new i sz s (-1) w"
        using t(2) w(3-6) unfolding copied_def by auto
      then show ?thesis using w(1,2) t(1) False by simp
    qed
  qed
qed

end
