(* ===== verification/Ualloc.thy ===== *)
theory Ualloc
  imports Uvmcopy
begin

text \<open>
  Creating, growing and shrinking a user address space: uvmcreate, uvmalloc and
  uvmdealloc of \<^verbatim>\<open>kernel/vm.c\<close> under the invariant of page tables and reference
  counts, and the properties of the address space routines.
\<close>

section \<open>uvmcreate\<close>

lemma node_zero_page:
  assumes "\<And>j. unat j < 512 \<Longrightarrow> ld64 m (entry p j) = 0" "okpath q"
  shows "node m p q = (if q = [] then Some p else None)"
  using assms by (cases q) (auto simp: okpath_def child_def Let_def)

lemma vm_root:
  fixes s :: "'z kmem_scheme"
  assumes v: "vm_inv s R ext" and p: "p \<in> avail s" "kmem_inv (after_kalloc p s)"
  defines "m' \<equiv> memset (memset (mem s) p 5 4096) p 0 4096"
  defines "s' \<equiv> (after_kalloc p s)\<lparr>mem := m'\<rparr>"
  shows "vm_inv s' (insert p R) ext" "p \<notin> R" "\<And>r. r \<in> R \<Longrightarrow> pt s' r = pt s r" "pt s' p = (\<lambda>_. 0)"
proof -
  note f = vm_invD(3) [OF v]
  have mp: "managed s p" using p(1) by (rule avail_managed)
  have al: "page_aligned p" using mp by (rule managed_aligned)
  have np: "\<not> is_table (mem s) R p" using avail_not_table v p(1) by blast
  then show pR: "p \<notin> R" using is_tableI [of p R "[]" "mem s" p] by auto
  have same: "same_page (mem s) m' u" if "u \<noteq> p" for u
    using memset_page_other [OF al, of u] that by (auto simp: same_page_def m'_def)
  have tsame: "same_page (mem s) m' u" if "is_table (mem s) R u" for u
    using that np by (intro same) auto
  have n: "node m' r q = node (mem s) r q" if "r \<in> R" "okpath q" for r q
    using f tsame that by (rule node_frame)
  have pte: "pte_at m' r va = pte_at (mem s) r va" if "r \<in> R" for r va
    using f tsame that by (rule pte_at_frame)
  have z: "ld64 m' (entry p j) = 0" if "unat j < 512" for j
    unfolding m'_def using al that by (rule ld64_zero_page)
  have n0: "node m' p q = (if q = [] then Some p else None)" if "okpath q" for q
    using z that by (rule node_zero_page)
  have pte0: "pte_at m' p va = 0" for va
    using n0 [OF okpath_vpath, of va] by (simp add: pte_at_def vpath_def)
  have ms: "mem s' = m'" by (simp add: s'_def)
  show "pt s' r = pt s r" if "r \<in> R" for r using pte [OF that] by (intro pt_cong) (simp add: ms)
  show "pt s' p = (\<lambda>_. 0)" by (simp add: pt_def ms pte0 fun_eq_iff)
  have ntp: "node (mem s) r q \<noteq> Some p" if "r \<in> R" "okpath q" for r q
    using np that by (auto simp: is_table_def)
  have frm: "forest m' (insert p R)"
    unfolding forest_def
  proof (intro conjI ballI allI impI)
    fix r assume "r \<in> insert p R"
    then show "page_aligned r" using f al by (auto simp: forest_def)
  next
    fix r r' q q' u
    assume a: "r \<in> insert p R" "r' \<in> insert p R"
      "okpath q \<and> okpath q' \<and> node m' r q = Some u \<and> node m' r' q' = Some u"
    then have "r = r' \<and> q = q'"
      using n n0 ntp forest_inj [OF f, of r r' q q' u] pR by (cases "r = p"; cases "r' = p") (auto split: if_splits)
    then show "r = r'" "q = q'" by auto
  qed
  have tab: "is_table m' (insert p R) u \<longleftrightarrow> is_table (mem s) R u \<or> u = p" for u
  proof -
    have "is_table m' (insert p R) u \<longleftrightarrow> is_table m' R u \<or> (\<exists>q. okpath q \<and> node m' p q = Some u)"
      by (auto simp: is_table_def)
    moreover have "is_table m' R u = is_table (mem s) R u" using f n by (rule forest_node_cong(2))
    moreover have "(\<exists>q. okpath q \<and> node m' p q = Some u) \<longleftrightarrow> u = p"
      using n0 okpath_Nil by (metis option.distinct(1) option.inject)
    ultimately show ?thesis by simp
  qed
  have av: "avail s' = avail s - {p}" unfolding s'_def using avail_after_kalloc [OF mp] by simp
  have rf: "refs s' = (refs s)(p := 1)" unfolding s'_def using refs_after_kalloc [OF mp] by simp
  have kk: "kmem_inv s'"
    unfolding s'_def
  proof (rule kmem_inv_mem [OF p(2)])
    fix u assume "u \<in> avail (after_kalloc p s)"
    then have "u \<noteq> p" using avail_after_kalloc [OF mp] by auto
    then show "same_page (mem (after_kalloc p s)) m' u"
      using memset_page_other [OF al, of u] by (auto simp: after_kalloc_def same_page_def m'_def)
  qed
  have pa: "page_at m' r w = page_at (mem s) r w" if "r \<in> R" for r w
    using n [OF that] pte [OF that] by (cases w) auto
  have pa0: "page_at m' p w = (if w = Table [] then Some p else None)" for w
    using n0 pte0 by (cases w) auto
  have ow: "owners m' (insert p R) u = owners (mem s) R u \<union> (if u = p then {(p, Table [])} else {})" for u
    using pa pa0 pR by (auto simp: owners_def simp del: page_at.simps split: if_splits)
  have o0: "owners (mem s) R p = {}" using avail_unowned v p(1) by blast
  have man: "managed s' = managed s" unfolding s'_def by (simp add: only_mem_fields(6) [OF only_mem_after_kalloc])
  show "vm_inv s' (insert p R) ext"
    unfolding vm_inv_def ms man
  proof (intro conjI allI impI ballI)
    fix r va u assume a: "r \<in> insert p R" "page_at m' r (Leaf va) = Some u"
    then have r: "r \<in> R" using pa0 by (auto simp del: page_at.simps)
    then have "page_at (mem s) r (Leaf va) = Some u" using a pa by (simp del: page_at.simps)
    then have "0 < refs s u" "\<not> is_table (mem s) R u" using vm_invD(5,6) [OF v r] by blast+
    then show "0 < refs s' u" "\<not> is_table m' (insert p R) u"
      using kmem_inv_refs_avail [OF p(1)] by (auto simp: rf tab)
  next
    fix u assume "managed s u"
    then show "int (refs s' u) = int (card (owners m' (insert p R) u)) + ext u"
      using vm_invD(7) [OF v, of u] kmem_inv_refs_avail [OF p(1)] o0 by (auto simp: rf ow)
  qed (use kk vm_invD(2,4) [OF v] frm in \<open>auto simp: rf tab\<close>)
qed

lemma uvmcreate_ok:
  assumes "vm_inv s R ext"
  shows "avail s = {} \<Longrightarrow> uvmcreate s = Ok 0 (settle s)"
    and "avail s \<noteq> {} \<Longrightarrow> \<exists>r t. uvmcreate s = Ok r t \<and> r \<noteq> 0 \<and> r \<notin> R \<and> vm_inv t (insert r R) ext \<and>
      (\<forall>r'\<in>R. pt t r' = pt s r') \<and> pt t r = (\<lambda>_. 0) \<and> card (avail t) = card (avail s) - 1"
proof -
  assume "avail s = {}"
  then show "uvmcreate s = Ok 0 (settle s)"
    using kalloc_exhausted [OF vm_invD(1) [OF assms]] by (simp add: uvmcreate_def)
next
  assume "avail s \<noteq> {}"
  with assms obtain p where p: "kalloc s = Ok p (after_kalloc p s)" "p \<in> avail s" "p \<noteq> 0"
    "kmem_inv (after_kalloc p s)" by (auto elim: kalloc_cases)
  have run: "uvmcreate s = Ok p ((after_kalloc p s)\<lparr>mem := memset (memset (mem s) p 5 4096) p 0 4096\<rparr>)"
    using p by (simp add: uvmcreate_def fill_def pgsize32 after_kalloc_def)
  have "card (avail s - {p}) = card (avail s) - 1" using p(2) by (simp add: card_Diff_singleton)
  then show "\<exists>r t. uvmcreate s = Ok r t \<and> r \<noteq> 0 \<and> r \<notin> R \<and> vm_inv t (insert r R) ext \<and>
      (\<forall>r'\<in>R. pt t r' = pt s r') \<and> pt t r = (\<lambda>_. 0) \<and> card (avail t) = card (avail s) - 1"
    using run p(3) vm_root [OF assms p(2,4)] avail_after_kalloc [OF avail_managed [OF p(2)]]
    by (intro exI [of _ p] exI) auto
qed

section \<open>uvmdealloc\<close>

lemma PGROUNDUP_bounds:
  assumes "e \<le> b" "page_aligned b"
  shows "e \<le> PGROUNDUP e" "PGROUNDUP e \<le> b"
proof -
  have "unat b + 4096 \<le> 2 ^ 64" by (rule unat_page_room [OF assms(2)])
  then have room: "unat e + 4095 < 2 ^ 64" using assms(1) by (simp add: word_le_nat_alt)
  note u = unat_PGROUNDUP [OF room]
  have "unat e \<le> (unat e + 4095) div 4096 * 4096"
    using div_mult_mod_eq [of "unat e + 4095" 4096] mod_less_divisor [of 4096 "unat e + 4095"] by linarith
  then show "e \<le> PGROUNDUP e" by (simp add: u word_le_nat_alt)
  obtain k where k: "unat b = 4096 * k" using assms(2) by (auto simp: page_aligned_def)
  have "(unat e + 4095) div 4096 \<le> (4096 * k + 4095) div 4096"
    using assms(1) k by (intro div_le_mono) (simp add: word_le_nat_alt)
  then show "PGROUNDUP e \<le> b" using k by (simp add: u word_le_nat_alt)
qed

lemma int_pages:
  fixes x :: u64
  assumes "unat x < 2 ^ 31"
  shows "scast (ucast x :: u32) = x"
proof (rule bit_word_eqI)
  have hi: "\<not> bit x n" if "31 \<le> n" for n
  proof -
    have "take_bit 31 x = x"
      using assms by (simp add: word_unat_eq_iff unsigned_take_bit_eq take_bit_nat_eq_self)
    then show ?thesis using that by (metis bit_take_bit_iff not_le)
  qed
  fix n assume "n < LENGTH(64)"
  then show "bit (scast (ucast x :: u32) :: u64) n = bit x n"
    using hi [of n] hi [of 31] by (cases "n < 31") (auto simp: bit_simps)
qed

lemma uvmdealloc_ok:
  assumes v: "vm_inv s R ext" and r: "r \<in> R" and ex: "\<And>p. 0 \<le> ext p"
    and sz: "newsz \<le> oldsz" "oldsz \<le> TRAPFRAME"
    and leaf: "\<And>va. page_aligned va \<Longrightarrow> PGROUNDUP newsz \<le> va \<Longrightarrow> va < PGROUNDUP oldsz \<Longrightarrow> is_leaf (pt s r va)"
  shows "\<exists>t. uvmdealloc r oldsz newsz s = Ok newsz t \<and> vm_inv t R ext \<and> shrink R s t \<and>
    (\<forall>r'\<in>R. pt t r' = (if r' = r then cleared (PGROUNDUP newsz) (PGROUNDUP oldsz) (pt s r) else pt s r'))"
proof (cases "PGROUNDUP newsz < PGROUNDUP oldsz")
  case False
  then show ?thesis using v sz(1) by (auto simp: uvmdealloc_def)
next
  case True
  let ?a = "PGROUNDUP newsz" and ?e = "PGROUNDUP oldsz"
  let ?n = "(?e - ?a) div PGSIZE"
  have "newsz \<noteq> oldsz" using True by auto
  then have nle: "\<not> oldsz \<le> newsz" using sz(1) by simp
  have ta: "page_aligned TRAPFRAME" by (simp add: TRAPFRAME_eq page_aligned_def)
  have et: "?e \<le> TRAPFRAME" using PGROUNDUP_bounds(2) [OF sz(2) ta] .
  have d: "unat (?e - ?a) = unat ?e - unat ?a" using True by (simp add: unat_sub less_imp_le)
  have "unat ?e \<le> 0x3FFFFFE000" using et by (simp add: word_le_nat_alt TRAPFRAME_eq)
  then have un: "unat ?n < 2 ^ 31" using d by (simp add: unat_div PGSIZE_def)
  have "4096 dvd unat ?e" "4096 dvd unat ?a"
    using page_aligned_PGROUNDUP [of oldsz] page_aligned_PGROUNDUP [of newsz] by (auto simp: page_aligned_def)
  then have "unat ?n * 4096 = unat ?e - unat ?a"
    using d by (simp add: unat_div PGSIZE_def dvd_diff_nat)
  moreover have "unat ?a < unat ?e" using True by (simp add: word_less_nat_alt)
  ultimately have e: "?e = ?a + ?n * PGSIZE"
    using unat_pages [of ?n] unsigned_less [of ?e, where ?'a = nat]
    by (simp add: word_unat_eq_iff unat_word_ariths)
  have em: "?e \<le> MAXVA" using et by (rule order_trans) (simp add: TRAPFRAME_eq MAXVA_eq)
  have cond: "valid (pt s r va) \<and> PTE_FLAGS (pt s r va) \<noteq> PTE_V \<and> True = (va < TRAPFRAME)"
    if "page_aligned va" "?a \<le> va" "va < ?e" for va
    using leaf [OF that] less_le_trans [OF that(3) et] by (simp add: is_leaf_def)
  from uvmunmap_ok [OF v r page_aligned_PGROUNDUP page_aligned_PGROUNDUP less_imp_le [OF True] em e cond ex]
  obtain t where "uvmunmap r ?a ?n True s = Ok () t" "vm_inv t R ext" "shrink R s t"
    "\<forall>r'\<in>R. pt t r' = (if r' = r then cleared ?a ?e (pt s r) else pt s r')" by blast
  then show ?thesis
    using nle True by (simp add: uvmdealloc_def Let_def int_pages [OF un])
qed

section \<open>uvmalloc\<close>

lemma PGROUNDUP_aligned: "page_aligned a \<Longrightarrow> PGROUNDUP a = a"
  using PGROUNDUP_bounds [of a a] by (simp add: order.antisym)

definition zero_page :: "mem \<Rightarrow> u64 \<Rightarrow> bool" where
  "zero_page m p \<longleftrightarrow> (\<forall>x. PGROUNDDOWN x = p \<longrightarrow> m x = 0)"

lemma zero_page_same: "zero_page m p \<Longrightarrow> same_page m m' p \<Longrightarrow> zero_page m' p"
  by (simp add: zero_page_def same_page_def)

lemma alloc_zeroed:
  fixes s :: "'z kmem_scheme"
  assumes v: "vm_inv s R ext" and p: "p \<in> avail s" "kmem_inv (after_kalloc p s)"
  defines "s' \<equiv> (after_kalloc p s)\<lparr>mem := memset (memset (mem s) p 5 4096) p 0 4096\<rparr>"
  shows "vm_inv s' R (ext(p := 1))" "keeps R s s'" "\<And>r. r \<in> R \<Longrightarrow> pt s' r = pt s r"
    "zero_page (mem s') p" "\<not> is_table (mem s') R p" "refs s' p = 1"
proof -
  note k = vm_kalloc [OF v p]
  let ?t = "after_kalloc p s" and ?m = "memset (memset (mem s) p 5 4096) p 0 4096"
  have mp: "managed s p" using p(1) by (rule avail_managed)
  have al: "page_aligned p" using mp by (rule managed_aligned)
  have m: "mem ?t = memset (mem s) p 5 4096" by (simp add: after_kalloc_def)
  have same: "same_page (mem ?t) ?m u" if "u \<noteq> p" for u
    using memset_page_other [OF al that [symmetric]] m by (simp add: same_page_sym)
  have 1: "same_page (mem ?t) ?m u" if "is_table (mem ?t) R u" for u using that k(4) by (intro same) auto
  have 2: "same_page (mem ?t) ?m u" if "u \<in> avail ?t" for u
    using that avail_after_kalloc [OF mp] by (intro same) auto
  have mm: "mem s' = ?m" by (simp add: s'_def)
  show "vm_inv s' R (ext(p := 1))" unfolding s'_def using k(1) 1 2 by (rule vm_mem(1))
  have pte: "pte_at ?m r va = pte_at (mem ?t) r va" if "r \<in> R" for r va
    using k(1) 1 2 that by (rule vm_mem(2))
  show "pt s' r = pt s r" if "r \<in> R" for r
    using pte [OF that] k(3) [OF that] by (intro pt_cong) (simp add: mm)
  have tab: "is_table ?m R u = is_table (mem ?t) R u" for u
    using k(1) 1 2 by (rule vm_mem(4))
  show "\<not> is_table (mem s') R p" using tab k(4) mm by simp
  show "zero_page (mem s') p" unfolding mm zero_page_def using al by (simp add: memset_page)
  show "refs s' p = 1" using refs_after_kalloc [OF mp] by (simp add: s'_def)
  have "keeps R s ?t" using k(2) by (rule grow_keeps)
  moreover have "same_page (mem s) ?m u \<and> \<not> is_table ?m R u" if "u \<notin> avail s" "\<not> is_table (mem s) R u" for u
  proof -
    have "u \<noteq> p" using that(1) p(1) by blast
    then show ?thesis using \<open>keeps R s ?t\<close> that same tab same_page_trans unfolding keeps_def by blast
  qed
  ultimately show "keeps R s s'"
    using only_mem_trans [OF only_mem_after_kalloc only_mem_upd(1)] by (simp add: keeps_def s'_def)
qed

lemma alloc_round:
  fixes s :: "'z kmem_scheme" and F :: "('z kmem_scheme, 'b) routine"
  assumes v: "vm_inv s R ext" and r: "r \<in> R" and ex: "\<And>p. 0 \<le> ext p"
    and a: "page_aligned a" "a < TRAPFRAME" "\<not> valid (pt s r a)" "perm < 1024"
  defines "body \<equiv> \<lambda>L. bind kalloc (\<lambda>p. if p = 0 then F
      else sq (fill p 0) (bind (mappages r a PGSIZE p perm) (\<lambda>rc. if rc \<noteq> 0 then sq (kfree p) F else L)))"
  shows "(\<exists>t. (\<forall>L. body L s = F t) \<and> vm_inv t R ext \<and> (\<forall>r'\<in>R. pt t r' = pt s r') \<and>
      (\<exists>u. keeps R s u \<and> shrink R u t)) \<or>
    (\<exists>p t. (\<forall>L. body L s = L t) \<and> vm_inv t R ext \<and> keeps R s t \<and> p \<in> avail s \<and> zero_page (mem t) p \<and>
      p \<notin> avail t \<and> \<not> is_table (mem t) R p \<and>
      (\<forall>r'\<in>R. pt t r' = (if r' = r then (pt s r)(a := PA2PTE p OR perm OR PTE_V) else pt s r')))"
  using v
proof (cases rule: kalloc_cases)
  case none
  then have "body L s = F (settle s)" for L by (simp add: body_def)
  moreover have "\<exists>u. keeps R s u \<and> shrink R u (settle s)"
    by (rule exI [of _ s]) (simp add: shrink_def)
  ultimately show ?thesis using v by (intro disjI1 exI [of _ "settle s"]) auto
next
  case (some p)
  let ?s = "(after_kalloc p s)\<lparr>mem := memset (memset (mem s) p 5 4096) p 0 4096\<rparr>"
  note z = alloc_zeroed [OF v some(2,4)]
  have e0: "ext p = 0" using vm_kalloc(5) [OF v some(2,4)] .
  have am: "a < MAXVA" using a(2) by (rule less_trans) (simp add: TRAPFRAME_eq MAXVA_eq)
  have al: "page_aligned p" using managed_aligned [OF avail_managed [OF some(2)]] .
  have un: "\<not> valid (pt ?s r a)" using z(3) [OF r] a(3) by simp
  have pp: "0 < refs ?s p \<and> \<not> is_table (mem ?s) R p" using z(5,6) by simp
  from mappages_page [OF z(1) r a(1) am un al a(4) pp] obtain rc t where
    m: "mappages r a PGSIZE p perm ?s = Ok rc t" "grow R ?s t"
     "if rc = 0 then vm_inv t R (if a < TRAPFRAME then (ext(p := 1))(p := (ext(p := 1)) p - 1) else ext(p := 1)) \<and>
       (\<forall>r'\<in>R. pt t r' = (if r' = r then (pt ?s r)(a := PA2PTE p OR perm OR PTE_V) else pt ?s r'))
     else rc = -1 \<and> avail t = {} \<and> vm_inv t R (ext(p := 1)) \<and> (\<forall>r'\<in>R. pt t r' = pt ?s r')" by blast
  have body: "body L s = (if rc \<noteq> 0 then sq (kfree p) F t else L t)" for L
    using some(1,3) m(1) by (simp add: body_def fill_def pgsize32 after_kalloc_def)
  have k: "keeps R s t" using keeps_trans [OF z(2) grow_keeps [OF m(2)]] .
  have "p \<notin> avail ?s" using z(6) kmem_inv_refs_avail by fastforce
  then have g: "refs t p = 1" "same_page (mem ?s) (mem t) p" "\<not> is_table (mem t) R p" "p \<notin> avail t"
    using m(2) z(5,6) by (auto simp: grow_def)
  show ?thesis
  proof (cases "rc = 0")
    case True
    have "vm_inv t R ext" using m(3) True a(2) e0 by (auto elim: vm_inv_ext_cong)
    moreover have "\<forall>r'\<in>R. pt t r' = (if r' = r then (pt s r)(a := PA2PTE p OR perm OR PTE_V) else pt s r')"
      using m(3) True z(3) r by auto
    ultimately show ?thesis
      using body True k some(2) zero_page_same [OF z(4) g(2)] g(3,4) by (intro disjI2 exI [of _ p] exI [of _ t]) simp
  next
    case False
    then have t: "vm_inv t R (ext(p := 1))" "\<forall>r'\<in>R. pt t r' = pt ?s r'" using m(3) by auto
    have "0 < refs t p" "1 \<le> (ext(p := 1)) p" using g(1) by simp_all
    from vm_kfree [OF t(1) this] obtain w where
      w: "kfree p t = Ok () w" "vm_inv w R ((ext(p := 1))(p := (ext(p := 1)) p - 1))" "released t R p w" by blast
    have "vm_inv w R ext" using w(2) e0 by (auto elim: vm_inv_ext_cong)
    moreover have "shrink R t w" using w(3) t(1) \<open>0 < refs t p\<close> by (rule released_shrink)
    moreover have "pt w r' = pt s r'" if "r' \<in> R" for r'
    proof -
      have "pt w r' = pt t r'" using w(3) that by (intro pt_cong) (simp add: released_def)
      then show ?thesis using t(2) z(3) that by simp
    qed
    moreover have "body L s = F w" for L using body False w(1) by simp
    ultimately show ?thesis using k by blast
  qed
qed

text \<open>How the growth from \<open>a\<close> on can end; the pages from \<open>old\<close> up to \<open>a\<close> were added before.\<close>

definition grown :: "u64 set \<Rightarrow> u64 \<Rightarrow> u64 \<Rightarrow> u64 \<Rightarrow> u64 \<Rightarrow> u64 \<Rightarrow> 'z kmem_scheme \<Rightarrow> u64 \<Rightarrow> 'z kmem_scheme \<Rightarrow> bool" where
  "grown R r old a new perm s rv t \<longleftrightarrow>
     (\<forall>r'\<in>R - {r}. pt t r' = pt s r') \<and>
     (rv = new \<and> keeps R s t \<and>
        (\<forall>va. page_aligned va \<and> a \<le> va \<and> va < new \<longrightarrow>
          (\<exists>p. pt t r va = PA2PTE p OR perm OR PTE_V \<and> p \<in> avail s \<and> zero_page (mem t) p)) \<and>
        (\<forall>va. \<not> (page_aligned va \<and> a \<le> va \<and> va < new) \<longrightarrow> pt t r va = pt s r va) \<or>
      rv = 0 \<and> (\<exists>u. keeps R s u \<and> shrink R u t) \<and>
        (\<forall>va. pt t r va = (if old \<le> va \<and> va < new then 0 else pt s r va)))"

lemma uvmalloc_loop_Suc:
  "a < newsz \<Longrightarrow> uvmalloc_loop (Suc n) r a oldsz newsz xperm =
   bind kalloc (\<lambda>p. if p = 0 then sq (uvmdealloc r a oldsz) (ret 0)
      else sq (fill p 0) (bind (mappages r a PGSIZE p (PTE_R OR PTE_U OR xperm)) (\<lambda>rc.
        if rc \<noteq> 0 then sq (kfree p) (sq (uvmdealloc r a oldsz) (ret 0))
        else uvmalloc_loop n r (a + PGSIZE) oldsz newsz xperm)))"
  by (simp add: uvmalloc_loop.simps [of "Suc n"])

lemma perm_leaf: "is_leaf (PA2PTE p OR (PTE_R OR PTE_U OR x) OR PTE_V)"
proof -
  have "bit (PA2PTE p OR (PTE_R OR PTE_U OR x) OR PTE_V) 0" "bit (PA2PTE p OR (PTE_R OR PTE_U OR x) OR PTE_V) 4"
    by (simp_all add: bit_simps pte_simps)
  then show ?thesis unfolding leaf_bits by (auto intro: exI [of _ 4])
qed

lemma grown_fail:
  assumes v: "vm_inv s R ext" and r: "r \<in> R" and ex: "\<And>p. 0 \<le> ext p"
    and al: "page_aligned old" "page_aligned a" "old \<le> a" "a < new" "new \<le> TRAPFRAME"
    and m: "\<And>va. page_aligned va \<Longrightarrow> old \<le> va \<Longrightarrow> va < a \<Longrightarrow> is_leaf (pt s r va)"
    and z: "\<And>va. a \<le> va \<Longrightarrow> va < new \<Longrightarrow> pt s r va = 0"
  shows "\<exists>t. sq (uvmdealloc r a old) (ret 0) s = Ok (0 :: u64) t \<and> vm_inv t R ext \<and> shrink R s t \<and>
    (\<forall>r'\<in>R - {r}. pt t r' = pt s r') \<and> (\<forall>va. pt t r va = (if old \<le> va \<and> va < new then 0 else pt s r va))"
proof -
  have at: "a \<le> TRAPFRAME" using al(4,5) by (meson less_imp_le order_trans)
  have "\<exists>t. uvmdealloc r a old s = Ok old t \<and> vm_inv t R ext \<and> shrink R s t \<and>
    (\<forall>r'\<in>R. pt t r' = (if r' = r then cleared (PGROUNDUP old) (PGROUNDUP a) (pt s r) else pt s r'))"
    using v r ex al(3) at by (rule uvmdealloc_ok) (simp add: PGROUNDUP_aligned al m)
  then obtain t where t: "uvmdealloc r a old s = Ok old t" "vm_inv t R ext" "shrink R s t"
    "\<forall>r'\<in>R. pt t r' = (if r' = r then cleared old a (pt s r) else pt s r')"
    using al(1,2) by (auto simp: PGROUNDUP_aligned)
  have "pt t r va = (if old \<le> va \<and> va < new then 0 else pt s r va)" for va
  proof (cases "va < a")
    case True
    then have "va < new" using al(4) by (rule less_trans)
    then show ?thesis using t(4) r True by (simp add: cleared_def)
  next
    case False
    then have "a \<le> va" "old \<le> va" using al(3) by (auto intro: order_trans)
    then show ?thesis using t(4) r False z [of va] by (simp add: cleared_def)
  qed
  then show ?thesis using t by auto
qed

lemma grown_step:
  assumes r: "r \<in> R" and a: "page_aligned a" "a < new" "a < TRAPFRAME" "old \<le> a"
    and k: "keeps R s t" and p: "p \<in> avail s" "zero_page (mem t) p" "p \<notin> avail t" "\<not> is_table (mem t) R p"
    and pt: "\<forall>r'\<in>R. pt t r' = (if r' = r then (pt s r)(a := PA2PTE p OR perm OR PTE_V) else pt s r')"
    and g: "grown R r old (a + PGSIZE) new perm t rv w"
  shows "grown R r old a new perm s rv w"
proof -
  have ta: "page_aligned TRAPFRAME" by (simp add: TRAPFRAME_eq page_aligned_def)
  note st = page_step [OF a(1) ta a(3)]
  have rest: "\<forall>r'\<in>R - {r}. pt w r' = pt s r'" using g pt by (auto simp: grown_def)
  have pr: "pt t r = (pt s r)(a := PA2PTE p OR perm OR PTE_V)" using pt r by simp
  from g consider (finished) "rv = new" "keeps R t w"
      "\<And>va. page_aligned va \<Longrightarrow> a + PGSIZE \<le> va \<Longrightarrow> va < new \<Longrightarrow>
        \<exists>q. pt w r va = PA2PTE q OR perm OR PTE_V \<and> q \<in> avail t \<and> zero_page (mem w) q"
      "\<And>va. \<not> (page_aligned va \<and> a + PGSIZE \<le> va \<and> va < new) \<Longrightarrow> pt w r va = pt t r va"
    | (failed) u where "rv = 0" "keeps R t u" "shrink R u w"
      "\<And>va. pt w r va = (if old \<le> va \<and> va < new then 0 else pt t r va)"
    unfolding grown_def by blast
  then show ?thesis
  proof cases
    case finished
    have sub: "avail t \<subseteq> avail s" using k by (simp add: keeps_def)
    have "zero_page (mem w) p" using finished(2) p(2-4) zero_page_same by (auto simp: keeps_def)
    moreover have "pt w r a = PA2PTE p OR perm OR PTE_V" using finished(4) [of a] st(4) pr by (simp add: leD)
    ultimately have here: "\<exists>q. pt w r a = PA2PTE q OR perm OR PTE_V \<and> q \<in> avail s \<and> zero_page (mem w) q"
      using p(1) by blast
    have "\<exists>q. pt w r va = PA2PTE q OR perm OR PTE_V \<and> q \<in> avail s \<and> zero_page (mem w) q"
      if "page_aligned va" "a \<le> va" "va < new" for va
      using here finished(3) [OF that(1) _ that(3)] st(5) [OF that(1)] that(2) sub by (cases "va = a") auto
    moreover have "pt w r va = pt s r va" if "\<not> (page_aligned va \<and> a \<le> va \<and> va < new)" for va
    proof -
      have "va \<noteq> a" using that a(1,2) by blast
      moreover have "\<not> (page_aligned va \<and> a + PGSIZE \<le> va \<and> va < new)"
        using that st(5) [of va] less_imp_le by blast
      ultimately show ?thesis using finished(4) [of va] pr by simp
    qed
    ultimately show ?thesis using finished(1) keeps_trans [OF k finished(2)] rest unfolding grown_def by blast
  next
    case failed
    have "pt w r va = (if old \<le> va \<and> va < new then 0 else pt s r va)" for va
      using failed(4) [of va] pr a(2,4) by auto
    then show ?thesis using failed(1,3) keeps_trans [OF k failed(2)] rest unfolding grown_def by blast
  qed
qed

lemma uvmalloc_loop_ok:
  assumes r: "r \<in> R" and ex: "\<And>p. 0 \<le> ext p" and x: "PTE_R OR PTE_U OR xperm < 1024"
    and old: "page_aligned old" "new \<le> TRAPFRAME"
    and "vm_inv s R ext" "page_aligned a" "old \<le> a" "unat new \<le> unat a + 4096 * n"
    "\<And>va. page_aligned va \<Longrightarrow> old \<le> va \<Longrightarrow> va < a \<Longrightarrow> is_leaf (pt s r va)"
    "\<And>va. a \<le> va \<Longrightarrow> va < new \<Longrightarrow> pt s r va = 0"
  shows "\<exists>rv t. uvmalloc_loop n r a old new xperm s = Ok rv t \<and> vm_inv t R ext \<and>
    grown R r old a new (PTE_R OR PTE_U OR xperm) s rv t"
  using assms(6-)
proof (induction n arbitrary: s a)
  case 0
  then have "\<not> a < new" by (simp add: word_less_nat_alt)
  with 0 show ?case by (auto simp: uvmalloc_loop.simps [of 0] grown_def not_le)
next
  case (Suc n)
  let ?perm = "PTE_R OR PTE_U OR xperm"
  show ?case
  proof (cases "a < new")
    case False
    with Suc.prems show ?thesis by (auto simp: uvmalloc_loop.simps [of "Suc n"] grown_def not_le)
  next
    case lt: True
    have at: "a < TRAPFRAME" using lt old(2) by (rule less_le_trans)
    have ta: "page_aligned TRAPFRAME" by (simp add: TRAPFRAME_eq page_aligned_def)
    have inv: "\<not> valid (pt s r a)" using Suc.prems(6) [OF order_refl lt] by simp
    note st = page_step [OF Suc.prems(2) ta at]
    let ?F = "sq (uvmdealloc r a old) (ret 0)"
    note loop = uvmalloc_loop_Suc [OF lt, of n r old xperm]
    from alloc_round [OF Suc.prems(1) r ex Suc.prems(2) at inv x, of ?F]
    consider (fail) t where "uvmalloc_loop (Suc n) r a old new xperm s = ?F t" "vm_inv t R ext"
        "\<forall>r'\<in>R. pt t r' = pt s r'" "\<exists>u. keeps R s u \<and> shrink R u t"
      | (more) p t where "uvmalloc_loop (Suc n) r a old new xperm s = uvmalloc_loop n r (a + PGSIZE) old new xperm t"
        "vm_inv t R ext" "keeps R s t" "p \<in> avail s" "zero_page (mem t) p" "p \<notin> avail t" "\<not> is_table (mem t) R p"
        "\<forall>r'\<in>R. pt t r' = (if r' = r then (pt s r)(a := PA2PTE p OR ?perm OR PTE_V) else pt s r')"
      unfolding loop by blast
    then show ?thesis
    proof cases
      case fail
      have p: "pt t r = pt s r" using fail(3) r by simp
      from grown_fail [OF fail(2) r ex old(1) Suc.prems(2,3) lt old(2), unfolded p, OF Suc.prems(5,6)]
      obtain w where w: "?F t = Ok (0 :: u64) w" "vm_inv w R ext" "shrink R t w" "\<forall>r'\<in>R - {r}. pt w r' = pt t r'"
        "\<forall>va. pt w r va = (if old \<le> va \<and> va < new then 0 else pt s r va)" by blast
      have "\<exists>u. keeps R s u \<and> shrink R u w" using fail(4) shrink_trans [OF _ w(3)] by blast
      moreover have "\<forall>r'\<in>R - {r}. pt w r' = pt s r'" using w(4) fail(3) by simp
      ultimately have "grown R r old a new ?perm s 0 w" using w(5) unfolding grown_def by simp
      then show ?thesis using fail(1) w(1,2) by auto
    next
      case more
      have p: "pt t r = (pt s r)(a := PA2PTE p OR ?perm OR PTE_V)" using more(8) r by simp
      have 1: "is_leaf (pt t r va)" if "page_aligned va" "old \<le> va" "va < a + PGSIZE" for va
        using Suc.prems(5) [OF that(1,2)] st(5) [OF that(1)] that(3) perm_leaf p
        by (cases "va = a") (auto simp: not_le [symmetric])
      have 2: "pt t r va = 0" if "a + PGSIZE \<le> va" "va < new" for va
      proof -
        have "a < va" using st(4) that(1) by (rule less_le_trans)
        then show ?thesis using Suc.prems(6) [OF _ that(2)] p by auto
      qed
      have "old \<le> a + PGSIZE" using Suc.prems(3) st(4) by (meson less_imp_le order_trans)
      moreover have "unat new \<le> unat (a + PGSIZE) + 4096 * n" using st(1) Suc.prems(4) by simp
      ultimately obtain rv w where
        w: "uvmalloc_loop n r (a + PGSIZE) old new xperm t = Ok rv w" "vm_inv w R ext"
          "grown R r old (a + PGSIZE) new ?perm t rv w"
        using Suc.IH [OF more(2) st(3) _ _ 1 2] by blast
      have "grown R r old a new ?perm s rv w"
        using r Suc.prems(2) lt at Suc.prems(3) more(3-8) w(3) by (rule grown_step)
      then show ?thesis using w(1,2) more(1) by auto
    qed
  qed
qed

end
