(* ===== verification/Usermem.thy ===== *)
theory Usermem
  imports Ualloc
begin

text \<open>
  What a user program sees of its memory, and what the routines of
  \<^verbatim>\<open>kernel/vm.c\<close> do to it: growth adds zeroed bytes, a forked child reads what its
  parent had, and no routine changes the memory of another address space.
\<close>

section \<open>Bytes of an address space\<close>

definition user_byte :: "'z kmem_scheme \<Rightarrow> u64 \<Rightarrow> u64 \<Rightarrow> u8 option" where
  "user_byte s r va =
     (let va0 = PGROUNDDOWN va; e = pt s r va0 in
      if va0 < TRAPFRAME \<and> e AND PTE_V \<noteq> 0 \<and> e AND PTE_U \<noteq> 0
      then Some (mem s (PTE2PA e + (va - va0))) else None)"

lemma page_offset: "unat (va - PGROUNDDOWN va) = unat va mod 4096"
proof -
  have "unat (va - PGROUNDDOWN va) = unat va - unat (PGROUNDDOWN va)"
    by (rule unat_sub [OF PGROUNDDOWN_le])
  then show ?thesis by (simp add: unat_PGROUNDDOWN minus_div_mult_eq_mod)
qed

lemma PGROUNDDOWN_in_page: "page_aligned p \<Longrightarrow> PGROUNDDOWN (p + (va - PGROUNDDOWN va)) = p"
proof -
  assume "page_aligned p"
  moreover have "unat (va - PGROUNDDOWN va) < 4096" by (simp add: page_offset)
  ultimately have "PGROUNDDOWN (p + of_nat (unat (va - PGROUNDDOWN va))) = p" by (rule PGROUNDDOWN_offset)
  then show ?thesis by simp
qed

lemma user_byte_cong:
  assumes "valid (pt t r' va0) = valid (pt s r va0)" "bit (pt t r' va0) 4 = bit (pt s r va0) 4"
    "PTE2PA (pt t r' va0) = PTE2PA (pt s r va0)"
    "va0 < TRAPFRAME \<Longrightarrow> valid (pt s r va0) \<Longrightarrow> same_page (mem s) (mem t) (PTE2PA (pt s r va0))"
    and va0: "va0 = PGROUNDDOWN va"
  shows "user_byte t r' va = user_byte s r va"
proof (cases "va0 < TRAPFRAME \<and> valid (pt s r va0)")
  case True
  then have "same_page (mem s) (mem t) (PTE2PA (pt s r va0))" using assms(4) by blast
  then have "mem s (PTE2PA (pt s r va0) + (va - va0)) = mem t (PTE2PA (pt s r va0) + (va - va0))"
    using PGROUNDDOWN_in_page [OF page_aligned_PTE2PA] va0 by (simp add: same_page_def)
  then show ?thesis using True assms(1-3) va0 by (simp add: user_byte_def Let_def flag_bits valid_bit)
next
  case False
  then show ?thesis using assms(1) va0 by (auto simp: user_byte_def Let_def valid_def)
qed

lemma pt_owned:
  assumes "vm_inv s R ext" "r \<in> R" "va < TRAPFRAME" "valid (pt s r va)"
  shows "0 < refs s (PTE2PA (pt s r va))" "\<not> is_table (mem s) R (PTE2PA (pt s r va))"
    "PTE2PA (pt s r va) \<notin> avail s"
proof -
  have "page_aligned va" "pt s r va = pte_at (mem s) r va" using assms(4) by (auto simp: pt_def split: if_splits)
  then have o': "page_at (mem s) r (Leaf va) = Some (PTE2PA (pt s r va))" using assms(3,4) by simp
  show "0 < refs s (PTE2PA (pt s r va))" "\<not> is_table (mem s) R (PTE2PA (pt s r va))"
    using vm_invD(5,6) [OF assms(1,2) o'] by blast+
  then show "PTE2PA (pt s r va) \<notin> avail s" using kmem_inv_refs_avail by fastforce
qed

text \<open>Contents of a mapped page across growth and shrinking.\<close>

lemma keeps_mapped:
  assumes "vm_inv s R ext" "r \<in> R" "va < TRAPFRAME" "valid (pt s r va)" "keeps R s t"
  shows "same_page (mem s) (mem t) (PTE2PA (pt s r va))"
  using pt_owned [OF assms(1-4)] assms(5) by (auto simp: keeps_def)

lemma keeps_shrink_mapped:
  assumes "vm_inv s R ext" "r \<in> R" "va < TRAPFRAME" "valid (pt s r va)"
    "keeps R s u" "shrink R u t" "vm_inv t R ext'" "valid (pt t r va)" "PTE2PA (pt t r va) = PTE2PA (pt s r va)"
  shows "same_page (mem s) (mem t) (PTE2PA (pt s r va))"
proof -
  let ?p = "PTE2PA (pt s r va)"
  have "same_page (mem s) (mem u) ?p \<and> \<not> is_table (mem u) R ?p"
    using pt_owned [OF assms(1-4)] assms(5) by (auto simp: keeps_def)
  moreover have "?p \<notin> avail t" using pt_owned(3) [OF assms(7,2,3,8)] assms(9) by simp
  ultimately show ?thesis using assms(6) same_page_trans unfolding shrink_def by blast
qed

section \<open>A machine with two address spaces\<close>

text \<open>
  A machine after kinit with sixteen pages, two page tables made by uvmcreate, and one
  writable page mapped at address 0 of the first.
\<close>

definition boot16 :: kmem where
  "boot16 = machine.extend machine0 \<lparr>freelist = 0, pgref = (\<lambda>_. 0), kernel_end = 0x87ff0000\<rparr>"

lemma boot16_vm: "\<exists>s :: kmem. vm_inv s {} (\<lambda>_. 0) \<and> 8 \<le> card (avail s)"
proof -
  have "cpu_ok boot16" "KERNBASE \<le> kernel_end boot16" "kernel_end boot16 \<le> PHYSTOP" "freelist boot16 = 0"
    "pgref boot16 = (\<lambda>_. 0)"
    by (simp_all add: boot16_def machine.defs machine0_def cpu_ok_def mycpu_def KERNBASE_def PHYSTOP_eq)
  from kinit_ok [OF this] obtain t :: kmem where
    t: "kmem_inv t" "avail t = {p. managed boot16 p}" "managed t = managed boot16" by blast
  have z: "refs t p = 0" if "managed t p" for p
    using that t(2,3) kmem_inv_refs_avail by auto
  have "vm_inv t {} (\<lambda>_. 0)"
    using t(1) z by (simp add: vm_inv_def forest_def is_table_def owners_def)
  moreover have "(\<lambda>k. 0x87ff0000 + 0x1000 * k) ` {0, 1, 2, 3, 4, 5, 6, 7} \<subseteq> avail t"
    unfolding t(2) by (auto simp: managed_def boot16_def machine.defs page_aligned_def PHYSTOP_eq)
  then have "card ((\<lambda>k. 0x87ff0000 + 0x1000 * k :: u64) ` {0, 1, 2, 3, 4, 5, 6, 7}) \<le> card (avail t)"
    by (intro card_mono finite_avail)
  then have "8 \<le> card (avail t)" by simp
  ultimately show ?thesis by blast
qed

lemma two_spaces:
  "\<exists>(s :: kmem) R old new. vm_inv s R (\<lambda>_. 0) \<and> R = {old, new} \<and> old \<in> R \<and> new \<in> R \<and> old \<noteq> new \<and>
    (\<forall>va. pt s new va = 0) \<and> is_leaf (pt s old 0) \<and> bit (pt s old 0) 2 \<and> bit (pt s old 0) 4 \<and>
    (\<forall>va. va \<noteq> 0 \<longrightarrow> pt s old va = 0) \<and> 3 \<le> card (avail s) \<and>
    (\<exists>p. pt s old 0 = PA2PTE p OR (PTE_R OR PTE_U OR PTE_W) OR PTE_V \<and> managed s p \<and> refs s p = 1)"
proof -
  obtain s :: kmem where s: "vm_inv s {} (\<lambda>_. 0)" "8 \<le> card (avail s)" using boot16_vm by blast
  have "avail s \<noteq> {}" using s(2) by auto
  from uvmcreate_ok(2) [OF s(1) this] obtain r and t :: kmem where t: "vm_inv t {r} (\<lambda>_. 0)" "pt t r = (\<lambda>_. 0)" "card (avail t) = card (avail s) - 1" by auto
  have "avail t \<noteq> {}" using t(3) s(2) by auto
  from uvmcreate_ok(2) [OF t(1) this] obtain r' and u :: kmem where
    u: "r' \<noteq> r" "vm_inv u {r', r} (\<lambda>_. 0)" "pt u r = (\<lambda>_. 0)" "pt u r' = (\<lambda>_. 0)"
      "card (avail u) = card (avail t) - 1"
    using t(2) by auto
  have u6: "6 \<le> card (avail u)" using u(5) t(3) s(2) by simp
  then have "avail u \<noteq> {}" by auto
  with u(2) obtain p where p: "p \<in> avail u" "kmem_inv (after_kalloc p u)" by (auto elim: kalloc_cases)
  let ?w = "after_kalloc p u"
  note k = vm_kalloc [OF u(2) p]
  have al: "page_aligned p" using managed_aligned [OF avail_managed [OF p(1)]] .
  have "refs ?w p = 1" using refs_after_kalloc [OF avail_managed [OF p(1)]] by simp
  then have pp: "0 < refs ?w p \<and> \<not> is_table (mem ?w) {r', r} p" using k(4) by simp
  have pw: "pt ?w x = pt u x" if "x \<in> {r', r}" for x using k(3) [OF that] by (rule pt_cong)
  let ?perm = "PTE_R OR PTE_U OR PTE_W"
  have c: "5 \<le> card (avail ?w)"
    using avail_after_kalloc [OF avail_managed [OF p(1)]] u6 p(1) by (simp add: card_Diff_singleton)
  have "\<exists>rc v. mappages r 0 PGSIZE p ?perm ?w = Ok rc v \<and> grow {r', r} ?w v \<and> card (avail ?w) \<le> card (avail v) + 2 \<and>
    (if rc = 0 then vm_inv v {r', r} (if (0 :: u64) < TRAPFRAME then ((\<lambda>_. 0)(p := 1))(p := ((\<lambda>_. 0)(p := 1)) p - 1) else (\<lambda>_. 0)(p := 1)) \<and>
       (\<forall>r''\<in>{r', r}. pt v r'' = (if r'' = r then (pt ?w r)(0 := PA2PTE p OR ?perm OR PTE_V) else pt ?w r''))
     else rc = -1 \<and> avail v = {} \<and> vm_inv v {r', r} ((\<lambda>_. 0)(p := 1)) \<and> (\<forall>r''\<in>{r', r}. pt v r'' = pt ?w r''))"
    by (rule mappages_page [OF k(1) _ _ _ _ al _ pp])
      (use pw u(3) in \<open>simp_all add: page_aligned_def MAXVA_eq flag_defs\<close>)
  moreover have z0: "(\<lambda>_. 0 :: int)(p := 0) = (\<lambda>_. 0)" by auto
  ultimately obtain v :: kmem where v: "vm_inv v {r', r} (\<lambda>_. 0)" "card (avail ?w) \<le> card (avail v) + 2"
    "\<forall>r''\<in>{r', r}. pt v r'' = (if r'' = r then (pt ?w r)(0 := PA2PTE p OR ?perm OR PTE_V) else pt ?w r'')"
    "grow {r', r} ?w v"
    using c z0 by (auto simp: TRAPFRAME_eq split: if_splits)
  have rv: "refs v p = 1"
    using v(4) \<open>refs ?w p = 1\<close> avail_after_kalloc [OF avail_managed [OF p(1)]] by (simp add: grow_def)
  then have "managed v p" using refs_managed [of v p] by simp
  have e: "is_leaf (PA2PTE p OR ?perm OR PTE_V)" by (rule perm_leaf)
  have b: "bit (PA2PTE p OR ?perm OR PTE_V) 2" "bit (PA2PTE p OR ?perm OR PTE_V) 4"
    by (simp_all add: bit_simps pte_simps)
  show ?thesis
    using v c u(1,3,4) pw e b rv \<open>managed v p\<close> by (intro exI [of _ v] exI [of _ "{r', r}"] exI [of _ r] exI [of _ r']) auto
qed

section \<open>uvmcopy\<close>


lemma aligned_below_page: "page_aligned va \<Longrightarrow> va < 4096 \<Longrightarrow> va = 0"
  by (simp add: page_aligned_def word_less_nat_alt word_unat_eq_iff)


section \<open>Reference counts\<close>

text \<open>
  C18: the 32-bit reference counts never wrap: under the invariant, incref of a page in
  use raises its count by exactly one, as there are not enough page table slots below
  PHYSTOP for 2^32 mappings.
\<close>

theorem incref_never_wraps:
  assumes "vm_inv s R ext" "0 < refs s p" "\<not> is_table (mem s) R p" "ext p < 2 ^ 31"
  shows "\<exists>t. incref p s = Ok () t \<and> refs t p = refs s p + 1 \<and> kmem_inv t \<and> avail t = avail s"
proof -
  obtain t where "incref p s = Ok () t" "vm_inv t R (ext(p := ext p + 1))" "avail t = avail s"
    "refs t = (refs s)(p := refs s p + 1)"
    using vm_incref [OF assms(1-3) refs_bound [OF assms(1,4)]] by blast
  then show ?thesis using vm_invD(1) by auto
qed

theorem incref_never_wraps_witness:
  "\<exists>(s :: kmem) p t. 0 < refs s p \<and> incref p s = Ok () t \<and> refs t p = refs s p + 1"
proof -
  from two_spaces obtain s :: kmem and R old new where
    s: "vm_inv s R (\<lambda>_. 0)" "old \<in> R" "is_leaf (pt s old 0)" by blast
  have v: "(0 :: u64) < TRAPFRAME" "valid (pt s old 0)" using s(3) by (simp_all add: TRAPFRAME_eq is_leaf_def)
  note o' = pt_owned [OF s(1,2) v]
  from incref_never_wraps [OF s(1) o'(1,2)] o'(1) show ?thesis by auto
qed

section \<open>uvmalloc and uvmdealloc\<close>

lemma perm_small: "x < 1024 \<Longrightarrow> PTE_R OR PTE_U OR x < 1024"
proof -
  assume "x < 1024"
  then have "take_bit 10 x = x" by (rule take_bit_10_small)
  then have "take_bit 10 (PTE_R OR PTE_U OR x) = PTE_R OR PTE_U OR x" by (simp add: take_bit_or flag_defs)
  moreover have "unat (take_bit 10 (PTE_R OR PTE_U OR x)) < 1024"
    using take_bit_nat_less_exp [of 10 "unat (PTE_R OR PTE_U OR x)"]
    by (simp add: unsigned_take_bit_eq del: take_bit_or)
  ultimately show ?thesis by (simp add: word_less_nat_alt)
qed

lemma user_byte_none: "\<not> valid (pt s r (PGROUNDDOWN va)) \<Longrightarrow> user_byte s r va = None"
  by (simp add: user_byte_def valid_def Let_def)

lemma user_byte_zero:
  assumes "pt s r (PGROUNDDOWN va) = PA2PTE p OR (PTE_R OR PTE_U OR x) OR PTE_V" "x < 1024" "page_aligned p"
    "zero_page (mem s) p" "PGROUNDDOWN va < TRAPFRAME"
  shows "user_byte s r va = Some 0"
proof -
  let ?e = "PA2PTE p OR (PTE_R OR PTE_U OR x) OR PTE_V"
  have "PTE2PA ?e = p"
    using PTE2PA_PA2PTE [OF assms(3) flags_or_less [OF perm_small [OF assms(2)]]] by (simp add: or.assoc)
  moreover have "bit ?e 0" "bit ?e 4" by (simp_all add: bit_simps pte_simps)
  moreover have "mem s (p + (va - PGROUNDDOWN va)) = 0"
    using assms(4) PGROUNDDOWN_in_page [OF assms(3)] by (simp add: zero_page_def)
  ultimately show ?thesis using assms(1,5) by (simp add: user_byte_def Let_def flag_bits)
qed

text \<open>
  C16: growing an address space from oldsz to newsz returns, keeps the invariant and
  touches no other address space. Either every byte of the new pages reads zero, the bytes
  outside them are as before and the result is newsz; or memory ran out, the result is 0
  and the page table is what it was.
\<close>

theorem uvmalloc_grows:
  assumes "vm_inv s R ext" "r \<in> R" "\<And>p. 0 \<le> ext p" "oldsz \<le> newsz" "newsz \<le> TRAPFRAME" "xperm < 1024"
    "\<And>va. PGROUNDUP oldsz \<le> va \<Longrightarrow> va < newsz \<Longrightarrow> pt s r va = 0"
  shows "\<exists>rv t. uvmalloc r oldsz newsz xperm s = Ok rv t \<and> vm_inv t R ext \<and>
    (\<forall>r'\<in>R - {r}. user_byte t r' = user_byte s r') \<and>
    (rv = newsz \<and> (\<forall>va. user_byte t r va =
        (if PGROUNDUP oldsz \<le> PGROUNDDOWN va \<and> PGROUNDDOWN va < newsz then Some 0 else user_byte s r va)) \<or>
     rv = 0 \<and> pt t r = pt s r \<and> user_byte t r = user_byte s r)"
proof -
  let ?o = "PGROUNDUP oldsz" and ?p = "PTE_R OR PTE_U OR xperm"
  have fuel: "unat newsz \<le> unat ?o + 4096 * (unat newsz div 4096 + 1)"
    using div_mult_mod_eq [of "unat newsz" 4096] mod_less_divisor [of 4096 "unat newsz"] by simp
  have no: "is_leaf (pt s r va)" if "page_aligned va" "?o \<le> va" "va < ?o" for va
    using that by simp
  have "\<exists>rv t. uvmalloc_loop (unat newsz div 4096 + 1) r ?o ?o newsz xperm s = Ok rv t \<and> vm_inv t R ext \<and>
    grown R r ?o ?o newsz ?p s rv t"
    using assms(2,3) perm_small [OF assms(6)] page_aligned_PGROUNDUP assms(5,1) page_aligned_PGROUNDUP order_refl fuel no assms(7)
    by (rule uvmalloc_loop_ok)
  moreover have "uvmalloc r oldsz newsz xperm s = uvmalloc_loop (unat newsz div 4096 + 1) r ?o ?o newsz xperm s"
    using assms(4) by (simp add: uvmalloc_def leD)
  ultimately obtain rv t where
    t: "uvmalloc r oldsz newsz xperm s = Ok rv t" "vm_inv t R ext" "grown R r ?o ?o newsz ?p s rv t" by metis
  have frame: "user_byte t r' va = user_byte s r' va"
    if r': "r' \<in> R" and p: "pt t r' (PGROUNDDOWN va) = pt s r' (PGROUNDDOWN va)" for r' va
  proof (rule user_byte_cong [OF _ _ _ _ refl])
    assume v: "PGROUNDDOWN va < TRAPFRAME" "valid (pt s r' (PGROUNDDOWN va))"
    from t(3) show "same_page (mem s) (mem t) (PTE2PA (pt s r' (PGROUNDDOWN va)))"
      using keeps_mapped [OF assms(1) r' v] keeps_shrink_mapped [OF assms(1) r' v _ _ t(2)] p v(2)
      unfolding grown_def by metis
  qed (simp_all add: p)
  have "\<forall>r'\<in>R - {r}. user_byte t r' = user_byte s r'"
    using t(3) frame by (auto simp: grown_def fun_eq_iff)
  moreover consider (ok) "rv = newsz" "keeps R s t"
      "\<And>va. page_aligned va \<Longrightarrow> ?o \<le> va \<Longrightarrow> va < newsz \<Longrightarrow>
        \<exists>p. pt t r va = PA2PTE p OR ?p OR PTE_V \<and> p \<in> avail s \<and> zero_page (mem t) p"
      "\<And>va. \<not> (page_aligned va \<and> ?o \<le> va \<and> va < newsz) \<Longrightarrow> pt t r va = pt s r va"
    | (none) "rv = 0" "\<And>va. pt t r va = (if ?o \<le> va \<and> va < newsz then 0 else pt s r va)"
    using t(3) unfolding grown_def by blast
  then have "rv = newsz \<and> (\<forall>va. user_byte t r va =
        (if ?o \<le> PGROUNDDOWN va \<and> PGROUNDDOWN va < newsz then Some 0 else user_byte s r va)) \<or>
     rv = 0 \<and> pt t r = pt s r \<and> user_byte t r = user_byte s r"
  proof cases
    case ok
    have "user_byte t r va = Some 0" if "?o \<le> PGROUNDDOWN va" "PGROUNDDOWN va < newsz" for va
      using ok(3) [OF page_aligned_PGROUNDDOWN that] less_le_trans [OF that(2) assms(5)] assms(6)
        user_byte_zero avail_managed managed_aligned by metis
    then show ?thesis using ok(1,4) frame [OF assms(2)] by auto
  next
    case none
    then have "pt t r = pt s r" using assms(7) by auto
    then show ?thesis using none(1) frame [OF assms(2)] by auto
  qed
  ultimately show ?thesis using t(1,2) by blast
qed

theorem uvmalloc_grows_witness:
  "\<exists>(s :: kmem) r rv t. pt s r 0 = 0 \<and> uvmalloc r 0 4096 PTE_W s = Ok rv t \<and>
    (rv = 4096 \<and> user_byte t r 5 = Some 0 \<or> rv = 0 \<and> user_byte t r 5 = None)"
proof -
  from two_spaces obtain s :: kmem and R new where
    s: "vm_inv s R (\<lambda>_. 0)" "new \<in> R" "\<forall>va. pt s new va = 0" by blast
  have "\<exists>rv t. uvmalloc new 0 4096 PTE_W s = Ok rv t \<and> vm_inv t R (\<lambda>_. 0) \<and>
    (\<forall>r'\<in>R - {new}. user_byte t r' = user_byte s r') \<and>
    (rv = 4096 \<and> (\<forall>va. user_byte t new va =
        (if PGROUNDUP 0 \<le> PGROUNDDOWN va \<and> PGROUNDDOWN va < 4096 then Some 0 else user_byte s new va)) \<or>
     rv = 0 \<and> pt t new = pt s new \<and> user_byte t new = user_byte s new)"
    using s(1,2) by (rule uvmalloc_grows) (use s(3) in \<open>simp_all add: TRAPFRAME_eq PTE_W_def\<close>)
  then obtain rv t where t: "uvmalloc new 0 4096 PTE_W s = Ok rv t"
    "rv = 4096 \<and> user_byte t new 5 =
        (if PGROUNDUP 0 \<le> PGROUNDDOWN 5 \<and> PGROUNDDOWN 5 < 4096 then Some 0 else user_byte s new 5) \<or>
     rv = 0 \<and> user_byte t new 5 = user_byte s new 5" by auto
  moreover have "PGROUNDUP 0 \<le> PGROUNDDOWN 5" "PGROUNDDOWN 5 < 4096" "user_byte s new 5 = None"
    using s(3) by (simp_all add: PGROUNDUP_def PGROUNDDOWN_def PGSIZE_def user_byte_def)
  ultimately show ?thesis using s(3) by (intro exI [of _ s] exI [of _ new] exI [of _ rv] exI [of _ t]) simp
qed

text \<open>
  C17: shrinking an address space from oldsz to newsz returns, keeps the invariant, makes
  exactly the pages above the new size unreadable and changes no other byte of this or
  any other address space.
\<close>

theorem uvmdealloc_shrinks:
  assumes "vm_inv s R ext" "r \<in> R" "\<And>p. 0 \<le> ext p" "newsz \<le> oldsz" "oldsz \<le> TRAPFRAME"
    "\<And>va. page_aligned va \<Longrightarrow> PGROUNDUP newsz \<le> va \<Longrightarrow> va < PGROUNDUP oldsz \<Longrightarrow> is_leaf (pt s r va)"
  shows "\<exists>t. uvmdealloc r oldsz newsz s = Ok newsz t \<and> vm_inv t R ext \<and>
    (\<forall>r'\<in>R - {r}. user_byte t r' = user_byte s r') \<and>
    (\<forall>va. user_byte t r va =
      (if PGROUNDUP newsz \<le> PGROUNDDOWN va \<and> PGROUNDDOWN va < PGROUNDUP oldsz then None else user_byte s r va))"
proof -
  obtain t where t: "uvmdealloc r oldsz newsz s = Ok newsz t" "vm_inv t R ext" "shrink R s t"
    "\<forall>r'\<in>R. pt t r' = (if r' = r then cleared (PGROUNDUP newsz) (PGROUNDUP oldsz) (pt s r) else pt s r')"
    using uvmdealloc_ok [OF assms] by blast
  have frame: "user_byte t r' va = user_byte s r' va"
    if r': "r' \<in> R" and p: "pt t r' (PGROUNDDOWN va) = pt s r' (PGROUNDDOWN va)" for r' va
    using keeps_shrink_mapped [OF assms(1) r' _ _ keeps_refl t(3,2)] p by (intro user_byte_cong [OF _ _ _ _ refl]) simp_all
  have "user_byte t r va = None" if "PGROUNDUP newsz \<le> PGROUNDDOWN va" "PGROUNDDOWN va < PGROUNDUP oldsz" for va
    using t(4) assms(2) that by (intro user_byte_none) (simp add: cleared_def)
  then show ?thesis using t frame assms(2) by (auto simp: cleared_def fun_eq_iff)
qed

theorem uvmdealloc_shrinks_witness:
  "\<exists>(s :: kmem) r t. user_byte s r 7 \<noteq> None \<and> uvmdealloc r 4096 0 s = Ok 0 t \<and> user_byte t r 7 = None"
proof -
  from two_spaces obtain s :: kmem and R old where
    s: "vm_inv s R (\<lambda>_. 0)" "old \<in> R" "is_leaf (pt s old 0)" "bit (pt s old 0) 4" by blast
  have r: "PGROUNDUP 0 = 0" "PGROUNDUP 4096 = 4096" "PGROUNDDOWN 7 = 0"
    by (simp_all add: PGROUNDUP_def PGROUNDDOWN_def PGSIZE_def)
  have "\<exists>t. uvmdealloc old 4096 0 s = Ok 0 t \<and> vm_inv t R (\<lambda>_. 0) \<and>
    (\<forall>r'\<in>R - {old}. user_byte t r' = user_byte s r') \<and>
    (\<forall>va. user_byte t old va =
      (if PGROUNDUP 0 \<le> PGROUNDDOWN va \<and> PGROUNDDOWN va < PGROUNDUP 4096 then None else user_byte s old va))"
    using s(1,2) by (rule uvmdealloc_shrinks) (use s(3) aligned_below_page in \<open>auto simp: TRAPFRAME_eq r\<close>)
  then obtain t where "uvmdealloc old 4096 0 s = Ok 0 t" "user_byte t old 7 = None" using r by auto
  moreover have "user_byte s old 7 \<noteq> None"
    using s(3,4) r by (simp add: user_byte_def is_leaf_def TRAPFRAME_eq flag_bits valid_bit)
  ultimately show ?thesis by blast
qed

end
