(* ===== verification/Proc.thy ===== *)
theory Proc
  imports Usermem
begin

text \<open>
  The process table of \<^verbatim>\<open>kernel/proc.h\<close> and the routines of
  \<^verbatim>\<open>kernel/proc.c\<close> that need no file system: allocation and release of table slots,
  page tables of processes, sleep and wakeup, kill, and the two halves of the switch to
  the scheduler. A pointer into the table is an index, a null pointer is \<open>None\<close>.

  \<^verbatim>\<open>swtch\<close> hands the hart to another kernel thread. A routine that calls
  \<^verbatim>\<open>sched\<close> is therefore given as the part up to the switch and the part after it;
  the theory Scheduling composes the parts in every order.
\<close>

section \<open>State\<close>

datatype procstate = UNUSED | USED | SLEEPING | RUNNABLE | RUNNING | ZOMBIE

text \<open>The objects whose addresses serve as sleep channels.\<close>

datatype channel =
    NullChan | ProcChan nat | TicksChan | LogChan | SleeplockChan lockid
  | PipeRead u64 | PipeWrite u64 | ConsR | UartTxR | DiskFree | BufDisk nat

record kcontext =
  ctx_ra :: u64
  ctx_sp :: u64
  ctx_s :: "u64 list" \<comment> \<open>s0 to s11\<close>

record proc =
  state :: procstate
  chan :: channel
  killed :: u32
  xstate :: u32
  pid :: u32
  parent :: "nat option"
  kstack :: u64
  sz :: u64
  pagetable :: u64
  trapframe :: u64
  pcontext :: kcontext
  ofile :: "nat option list" \<comment> \<open>indices into the file table\<close>
  cwd :: "nat option" \<comment> \<open>index into the inode table\<close>
  pname :: "u8 list"

text \<open>
  \<open>trampoline\<close> and \<open>forkret_addr\<close> are the addresses of the code in trampoline.S and of
  forkret.
\<close>

record ptable = kmem +
  procs :: "nat \<Rightarrow> proc"
  nextpid :: u32
  initproc :: "nat option"
  ticks :: u32
  trampoline :: u64
  forkret_addr :: u64

text \<open>Offsets of the fields of struct trapframe.\<close>

definition TF_kernel_satp :: u64 where "TF_kernel_satp = 0"
definition TF_kernel_sp :: u64 where "TF_kernel_sp = 8"
definition TF_kernel_trap :: u64 where "TF_kernel_trap = 16"
definition TF_epc :: u64 where "TF_epc = 24"
definition TF_kernel_hartid :: u64 where "TF_kernel_hartid = 32"
definition TF_sp :: u64 where "TF_sp = 48"
definition TF_a0 :: u64 where "TF_a0 = 112"
definition TF_a1 :: u64 where "TF_a1 = 120"
definition TF_a7 :: u64 where "TF_a7 = 168"
definition TF_size :: u32 where "TF_size = 288"

section \<open>Routines without a switch\<close>

definition upd_proc :: "nat \<Rightarrow> (proc \<Rightarrow> proc) \<Rightarrow> ('z ptable_scheme, unit) routine" where
  "upd_proc p f = modify (\<lambda>s. s\<lparr>procs := (procs s)(p := f (procs s p))\<rparr>)"

definition myproc :: "('z ptable_scheme, nat option) routine" where
  "myproc =
     sq push_off
     (bind (gets (\<lambda>s. cpu.proc (mycpu s))) (\<lambda>p.
     sq pop_off (ret p)))"

text \<open>
  A routine that follows the pointer given by myproc: through a null pointer the access
  faults, and kerneltrap panics.
\<close>

definition this_proc :: "('z ptable_scheme, nat) routine" where
  "this_proc = bind myproc (\<lambda>p. case p of None \<Rightarrow> panic ''kerneltrap'' | Some p \<Rightarrow> ret p)"

definition procinit :: "('z ptable_scheme, unit) routine" where
  "procinit =
     sq (initlock PidLock ''nextpid'')
     (sq (initlock WaitLock ''wait_lock'')
         (for_each [0..<NPROC] (\<lambda>p.
            sq (initlock (ProcLock p) ''proc'')
               (upd_proc p (\<lambda>r. r\<lparr>state := UNUSED, kstack := KSTACK p\<rparr>)))))"

definition allocpid :: "('z ptable_scheme, u32) routine" where
  "allocpid =
     sq (acquire PidLock)
     (bind (gets nextpid) (\<lambda>pid.
     sq (modify (\<lambda>s. s\<lparr>nextpid := nextpid s + 1\<rparr>))
     (sq (release PidLock) (ret pid))))"

definition proc_pagetable :: "nat \<Rightarrow> ('z ptable_scheme, u64) routine" where
  "proc_pagetable p =
     bind uvmcreate (\<lambda>pt.
     if pt = 0 then ret 0
     else bind (gets trampoline) (\<lambda>tr.
       bind (mappages pt TRAMPOLINE PGSIZE tr (PTE_R OR PTE_X)) (\<lambda>r.
       if r < 0 then sq (uvmfree pt 0) (ret 0)
       else bind (gets (\<lambda>s. trapframe (procs s p))) (\<lambda>tf.
         bind (mappages pt TRAPFRAME PGSIZE tf (PTE_R OR PTE_W)) (\<lambda>r.
         if r < 0 then sq (uvmunmap pt TRAMPOLINE 1 False) (sq (uvmfree pt 0) (ret 0))
         else ret pt)))))"

definition proc_freepagetable :: "u64 \<Rightarrow> u64 \<Rightarrow> ('z kmem_scheme, unit) routine" where
  "proc_freepagetable pgt n =
     sq (uvmunmap pgt TRAMPOLINE 1 False)
     (sq (uvmunmap pgt TRAPFRAME 1 False)
         (uvmfree pgt n))"

definition freeproc :: "nat \<Rightarrow> ('z ptable_scheme, unit) routine" where
  "freeproc p =
     bind (gets (\<lambda>s. trapframe (procs s p))) (\<lambda>tf.
     sq (if tf \<noteq> 0 then kfree tf else ret ())
     (sq (upd_proc p (\<lambda>r. r\<lparr>trapframe := 0\<rparr>))
     (bind (gets (\<lambda>s. procs s p)) (\<lambda>r.
     sq (if pagetable r \<noteq> 0 then proc_freepagetable (pagetable r) (sz r) else ret ())
        (upd_proc p (\<lambda>r. r\<lparr>pagetable := 0, sz := 0, pid := 0, parent := None,
           pname := (pname r)[0 := 0], chan := NullChan, killed := 0, xstate := 0,
           state := UNUSED\<rparr>))))))"

text \<open>The search of allocproc comes back with the lock of the slot it found.\<close>

definition find_unused :: "('z ptable_scheme, nat option) routine" where
  "find_unused = for_until [0..<NPROC] (\<lambda>p.
     sq (acquire (ProcLock p))
     (bind (gets (\<lambda>s. state (procs s p))) (\<lambda>st.
      if st = UNUSED then ret (Some p)
      else sq (release (ProcLock p)) (ret None))))"

definition allocproc :: "('z ptable_scheme, nat option) routine" where
  "allocproc =
     bind find_unused (\<lambda>found.
     case found of None \<Rightarrow> ret None
     | Some p \<Rightarrow>
       bind allocpid (\<lambda>i.
       sq (upd_proc p (\<lambda>r. r\<lparr>pid := i, state := USED\<rparr>))
       (bind kalloc (\<lambda>tf.
       sq (upd_proc p (\<lambda>r. r\<lparr>trapframe := tf\<rparr>))
       (if tf = 0 then sq (freeproc p) (sq (release (ProcLock p)) (ret None))
        else bind (proc_pagetable p) (\<lambda>pt.
          sq (upd_proc p (\<lambda>r. r\<lparr>pagetable := pt\<rparr>))
          (if pt = 0 then sq (freeproc p) (sq (release (ProcLock p)) (ret None))
           else bind (gets forkret_addr) (\<lambda>ra.
             sq (upd_proc p (\<lambda>r. r\<lparr>pcontext :=
                   \<lparr>ctx_ra = ra, ctx_sp = kstack r + PGSIZE, ctx_s = replicate 12 0\<rparr>\<rparr>))
                (ret (Some p))))))))))"

text \<open>The argument of growproc is an \<^verbatim>\<open>int\<close>, sign-extended when added to sz.\<close>

definition growproc :: "u32 \<Rightarrow> ('z ptable_scheme, int) routine" where
  "growproc n =
     bind this_proc (\<lambda>p.
     bind (gets (\<lambda>s. procs s p)) (\<lambda>r.
     if sint n > 0 then
       bind (uvmalloc (pagetable r) (sz r) (sz r + scast n) PTE_W) (\<lambda>size.
       if size = 0 then ret (-1)
       else sq (upd_proc p (\<lambda>r. r\<lparr>sz := size\<rparr>)) (ret 0))
     else if sint n < 0 then
       bind (uvmdealloc (pagetable r) (sz r) (sz r + scast n)) (\<lambda>size.
       sq (upd_proc p (\<lambda>r. r\<lparr>sz := size\<rparr>)) (ret 0))
     else sq (upd_proc p (\<lambda>r'. r'\<lparr>sz := sz r\<rparr>)) (ret 0)))"

definition wakeup :: "channel \<Rightarrow> ('z ptable_scheme, unit) routine" where
  "wakeup c = for_each [0..<NPROC] (\<lambda>p.
     bind myproc (\<lambda>me.
     if me = Some p then ret ()
     else sq (acquire (ProcLock p))
       (bind (gets (\<lambda>s. procs s p)) (\<lambda>r.
        sq (if state r = SLEEPING \<and> chan r = c then upd_proc p (\<lambda>r. r\<lparr>state := RUNNABLE\<rparr>) else ret ())
           (release (ProcLock p))))))"

text \<open>A pointer to a process as a channel.\<close>

definition proc_chan :: "nat option \<Rightarrow> channel" where
  "proc_chan p = (case p of None \<Rightarrow> NullChan | Some i \<Rightarrow> ProcChan i)"

definition reparent :: "nat \<Rightarrow> ('z ptable_scheme, unit) routine" where
  "reparent p = for_each [0..<NPROC] (\<lambda>pp.
     bind (gets (\<lambda>s. parent (procs s pp))) (\<lambda>par.
     if par = Some p then
       bind (gets initproc) (\<lambda>ini.
       sq (upd_proc pp (\<lambda>r. r\<lparr>parent := ini\<rparr>)) (wakeup (proc_chan ini)))
     else ret ()))"

definition kill :: "u32 \<Rightarrow> ('z ptable_scheme, int) routine" where
  "kill i =
     bind (for_until [0..<NPROC] (\<lambda>p.
       sq (acquire (ProcLock p))
       (bind (gets (\<lambda>s. pid (procs s p))) (\<lambda>q.
        if q = i then
          sq (upd_proc p (\<lambda>r. r\<lparr>killed := 1\<rparr>))
          (sq (upd_proc p (\<lambda>r. if state r = SLEEPING then r\<lparr>state := RUNNABLE\<rparr> else r))
          (sq (release (ProcLock p)) (ret (Some 0))))
        else sq (release (ProcLock p)) (ret None)))))
     (\<lambda>r. ret (case r of Some x \<Rightarrow> x | None \<Rightarrow> -1))"

definition setkilled :: "nat \<Rightarrow> ('z ptable_scheme, unit) routine" where
  "setkilled p =
     sq (acquire (ProcLock p))
     (sq (upd_proc p (\<lambda>r. r\<lparr>killed := 1\<rparr>)) (release (ProcLock p)))"

definition is_killed :: "nat \<Rightarrow> ('z ptable_scheme, u32) routine" where
  "is_killed p =
     sq (acquire (ProcLock p))
     (bind (gets (\<lambda>s. killed (procs s p))) (\<lambda>k.
     sq (release (ProcLock p)) (ret k)))"

section \<open>Around the switch\<close>

text \<open>sched up to the switch gives the saved intena; the rest restores it.\<close>

definition sched_out :: "('z ptable_scheme, bool) routine" where
  "sched_out =
     bind this_proc (\<lambda>p.
     bind (gets (holding (ProcLock p))) (\<lambda>h.
     sq (panic_if (\<not> h) ''sched p->lock'')
     (bind (gets (\<lambda>s. noff (mycpu s))) (\<lambda>n.
     sq (panic_if (n \<noteq> 1) ''sched locks'')
     (bind (gets (\<lambda>s. state (procs s p))) (\<lambda>st.
     sq (panic_if (st = RUNNING) ''sched running'')
     (bind (gets intr_get) (\<lambda>i.
     sq (panic_if i ''sched interruptible'')
        (gets (\<lambda>s. intena (mycpu s)))))))))))"

definition sched_in :: "bool \<Rightarrow> ('z ptable_scheme, unit) routine" where
  "sched_in i = upd_mycpu (\<lambda>c. c\<lparr>intena := i\<rparr>)"

definition yield_out :: "('z ptable_scheme, nat \<times> bool) routine" where
  "yield_out =
     bind this_proc (\<lambda>p.
     sq (acquire (ProcLock p))
     (sq (upd_proc p (\<lambda>r. r\<lparr>state := RUNNABLE\<rparr>))
     (bind sched_out (\<lambda>i. ret (p, i)))))"

definition yield_in :: "nat \<Rightarrow> bool \<Rightarrow> ('z ptable_scheme, unit) routine" where
  "yield_in p i = sq (sched_in i) (release (ProcLock p))"

definition sleep_out :: "channel \<Rightarrow> lockid \<Rightarrow> ('z ptable_scheme, nat \<times> bool) routine" where
  "sleep_out c lk =
     bind this_proc (\<lambda>p.
     sq (acquire (ProcLock p))
     (sq (release lk)
     (sq (upd_proc p (\<lambda>r. r\<lparr>chan := c\<rparr>))
     (sq (upd_proc p (\<lambda>r. r\<lparr>state := SLEEPING\<rparr>))
     (bind sched_out (\<lambda>i. ret (p, i)))))))"

definition sleep_in :: "lockid \<Rightarrow> nat \<Rightarrow> bool \<Rightarrow> ('z ptable_scheme, unit) routine" where
  "sleep_in lk p i =
     sq (sched_in i)
     (sq (upd_proc p (\<lambda>r. r\<lparr>chan := NullChan\<rparr>))
     (sq (release (ProcLock p)) (acquire lk)))"

text \<open>One turn of the scheduler's loop for one slot, up to the switch and after it.\<close>

definition scheduler_pick :: "nat \<Rightarrow> ('z ptable_scheme, bool) routine" where
  "scheduler_pick p =
     sq (acquire (ProcLock p))
     (bind (gets (\<lambda>s. state (procs s p))) (\<lambda>st.
      if st = RUNNABLE then
        sq (upd_proc p (\<lambda>r. r\<lparr>state := RUNNING\<rparr>))
        (sq (upd_mycpu (\<lambda>c. c\<lparr>proc := Some p\<rparr>)) (ret True))
      else sq (release (ProcLock p)) (ret False)))"

definition scheduler_back :: "nat \<Rightarrow> ('z ptable_scheme, unit) routine" where
  "scheduler_back p =
     sq (upd_mycpu (\<lambda>c. c\<lparr>proc := None\<rparr>)) (release (ProcLock p))"

section \<open>Updates of the table commute with taking locks\<close>

lemma settle_ptable [simp]:
  "(settle s)\<lparr>procs := a\<rparr> = settle (s\<lparr>procs := a\<rparr>)"
  "(settle s)\<lparr>nextpid := b\<rparr> = settle (s\<lparr>nextpid := b\<rparr>)"
  "(settle s)\<lparr>initproc := c\<rparr> = settle (s\<lparr>initproc := c\<rparr>)"
  "(settle s)\<lparr>ticks := d\<rparr> = settle (s\<lparr>ticks := d\<rparr>)"
  by (simp_all add: settle_def mycpu_def intr_get_def)

lemma enter_ptable [simp]:
  "(enter lk s)\<lparr>procs := a\<rparr> = enter lk (s\<lparr>procs := a\<rparr>)"
  "(enter lk s)\<lparr>nextpid := b\<rparr> = enter lk (s\<lparr>nextpid := b\<rparr>)"
  "(enter lk s)\<lparr>initproc := c\<rparr> = enter lk (s\<lparr>initproc := c\<rparr>)"
  "(enter lk s)\<lparr>ticks := d\<rparr> = enter lk (s\<lparr>ticks := d\<rparr>)"
  by (simp_all add: enter_def mycpu_def intr_get_def w_sstatus_def)

lemma ptable_settle [simp, frame_simps]:
  "procs (settle s) = procs s" "nextpid (settle s) = nextpid s" "initproc (settle s) = initproc s"
  "ticks (settle s) = ticks s" "trampoline (settle s) = trampoline s" "forkret_addr (settle s) = forkret_addr s"
  by (simp_all add: settle_def)

lemma ptable_enter [simp, frame_simps]:
  "procs (enter lk s) = procs s" "nextpid (enter lk s) = nextpid s" "initproc (enter lk s) = initproc s"
  "ticks (enter lk s) = ticks s" "trampoline (enter lk s) = trampoline s" "forkret_addr (enter lk s) = forkret_addr s"
  by (simp_all add: enter_def w_sstatus_def)

lemma lock_free_ptable [simp]:
  "lock_free lk (s\<lparr>procs := a\<rparr>) = lock_free lk s" "lock_free lk (s\<lparr>nextpid := b\<rparr>) = lock_free lk s"
  "lock_free lk (s\<lparr>initproc := c\<rparr>) = lock_free lk s" "lock_free lk (s\<lparr>ticks := d\<rparr>) = lock_free lk s"
  by (simp_all add: lock_free_def)

lemma cpu_ok_ptable [simp]:
  "cpu_ok (s\<lparr>procs := a\<rparr>) = cpu_ok s" "cpu_ok (s\<lparr>nextpid := b\<rparr>) = cpu_ok s"
  "cpu_ok (s\<lparr>initproc := c\<rparr>) = cpu_ok s" "cpu_ok (s\<lparr>ticks := d\<rparr>) = cpu_ok s"
  by (simp_all add: cpu_ok_def mycpu_def intr_get_def)

lemma mycpu_ptable [simp]:
  "mycpu (s\<lparr>procs := a\<rparr>) = mycpu s" "mycpu (s\<lparr>nextpid := b\<rparr>) = mycpu s"
  "mycpu (s\<lparr>initproc := c\<rparr>) = mycpu s" "mycpu (s\<lparr>ticks := d\<rparr>) = mycpu s"
  "mycpu (s\<lparr>mem := m\<rparr>) = mycpu s"
  by (simp_all add: mycpu_def)

section \<open>Running the routines\<close>

lemma upd_proc_run [run_simps]: "upd_proc p f s = Ok () (s\<lparr>procs := (procs s)(p := f (procs s p))\<rparr>)"
  by (simp add: upd_proc_def)

lemma myproc_run [run_simps]:
  assumes "cpu_ok s"
  shows "myproc s = Ok (cpu.proc (mycpu s)) (settle s)"
proof -
  have h: "(harts s (tp s))\<lparr>sstatus := sstatus (harts s (tp s))\<rparr> = harts s (tp s)"
    by (cases "harts s (tp s)") simp
  show ?thesis
    using assms
    by (auto simp: myproc_def push_off_run sq_run pop_off_def upd_mycpu_def intr_on_def w_sstatus_def
        intr_get_def mycpu_def cpu_ok_def settle_def bind_run sie_clear_set sie_clear_id h)
qed

lemma this_proc_run [run_simps]:
  "cpu_ok s \<Longrightarrow> cpu.proc (mycpu s) = Some p \<Longrightarrow> this_proc s = Ok p (settle s)"
  by (simp add: this_proc_def myproc_run)

definition procs_free :: "'z ptable_scheme \<Rightarrow> bool" where
  "procs_free s \<longleftrightarrow> cpu_ok s \<and> (\<forall>p. lock_free (ProcLock p) s)"

lemma procs_free_simps [simp]:
  "procs_free (settle s) = procs_free s" "procs_free (s\<lparr>procs := a\<rparr>) = procs_free s"
  "procs_free (s\<lparr>nextpid := b\<rparr>) = procs_free s" "procs_free (s\<lparr>ticks := d\<rparr>) = procs_free s"
  by (simp_all add: procs_free_def)

lemma procs_free_enter [simp]:
  "procs_free s \<Longrightarrow> (\<And>p. lk \<noteq> ProcLock p) \<Longrightarrow> procs_free (enter lk s)"
  by (auto simp: procs_free_def)

text \<open>A loop over the table whose body changes the slot it looks at under the slot's lock.\<close>

lemma fold_slots:
  "distinct xs \<Longrightarrow> fold (\<lambda>p ps. ps(p := h p (ps p))) xs f = (\<lambda>p. if p \<in> set xs then h p (f p) else f p)"
  by (induction xs arbitrary: f) (auto simp: fun_eq_iff)

lemma for_each_slots:
  assumes "procs_free s" "xs \<noteq> []"
    and body: "\<And>p s. procs_free s \<Longrightarrow> cpu.proc (mycpu s) = me \<Longrightarrow>
      body p s = Ok () (settle (s\<lparr>procs := (procs s)(p := h p (procs s p))\<rparr>))"
    and "cpu.proc (mycpu s) = me"
  shows "for_each xs body s = Ok () (settle (s\<lparr>procs := fold (\<lambda>p ps. ps(p := h p (ps p))) xs (procs s)\<rparr>))"
  using assms(1,2,4)
proof (induction xs arbitrary: s)
  case (Cons x xs)
  let ?t = "settle (s\<lparr>procs := (procs s)(x := h x (procs s x))\<rparr>)"
  have b: "body x s = Ok () ?t" using Cons.prems by (intro body) auto
  show ?case
  proof (cases "xs = []")
    case True
    with b show ?thesis by (simp add: fun_upd_def)
  next
    case False
    have "for_each xs body ?t = Ok () (settle (?t\<lparr>procs := fold (\<lambda>p ps. ps(p := h p (ps p))) xs (procs ?t)\<rparr>))"
      using Cons.prems False by (intro Cons.IH) simp_all
    with b show ?thesis by (simp add: fun_upd_def)
  qed
qed simp

section \<open>wakeup and kill\<close>

text \<open>What wakeup does to the table, \<open>me\<close> being the caller's process.\<close>

definition woken :: "channel \<Rightarrow> nat option \<Rightarrow> nat \<Rightarrow> proc \<Rightarrow> proc" where
  "woken c me p r = (if me \<noteq> Some p \<and> state r = SLEEPING \<and> chan r = c then r\<lparr>state := RUNNABLE\<rparr> else r)"

lemma wakeup_run [run_simps]:
  assumes "procs_free s"
  shows "wakeup c s = Ok () (settle (s\<lparr>procs := \<lambda>p. if p < NPROC then woken c (cpu.proc (mycpu s)) p (procs s p)
    else procs s p\<rparr>))"
proof -
  let ?me = "cpu.proc (mycpu s)"
  have "wakeup c s = Ok () (settle (s\<lparr>procs := fold (\<lambda>p ps. ps(p := woken c ?me p (ps p))) [0..<NPROC] (procs s)\<rparr>))"
    unfolding wakeup_def
  proof (rule for_each_slots [OF assms _ _ refl])
    fix p and s' :: "'a ptable_scheme"
    assume "procs_free s'" "cpu.proc (mycpu s') = ?me"
    then show "bind myproc (\<lambda>me. if me = Some p then ret ()
       else sq (acquire (ProcLock p)) (bind (gets (\<lambda>s. procs s p)) (\<lambda>r.
         sq (if state r = SLEEPING \<and> chan r = c then upd_proc p (\<lambda>r. r\<lparr>state := RUNNABLE\<rparr>) else ret ())
           (release (ProcLock p))))) s' =
       Ok () (settle (s'\<lparr>procs := (procs s')(p := woken c ?me p (procs s' p))\<rparr>))"
      by (auto simp: procs_free_def myproc_run acquire_run release_enter upd_proc_run woken_def)
  qed (simp add: NPROC_def)
  then show ?thesis by (simp add: fold_slots)
qed

end
