(* ===== verification/Cow.thy ===== *)
theory Cow
  imports Proc
begin

text \<open>
  Copy-on-write: \<^verbatim>\<open>CowHandler\<close> of \<^verbatim>\<open>kernel/trap.c\<close>, and
  \<^verbatim>\<open>copyout\<close> of \<^verbatim>\<open>kernel/vm.c\<close>, which calls it, with the routines of
  proc.c that choose between a user and a kernel address. The invariant is that a page
  that is writable in some address space belongs to that address space alone.
\<close>

section \<open>Routines\<close>

text \<open>
  The end of CowHandler, once a page has been allocated: the page is copied, its old
  reference dropped, and the entry set to the copy.
\<close>

definition cow_replace :: "u64 \<Rightarrow> u64 \<Rightarrow> ('z kmem_scheme, int) routine" where
  "cow_replace pte page =
     bind (load pte) (\<lambda>v.
     let pa = PTE2PA v in
     sq (modify (\<lambda>s. s\<lparr>mem := memmove (mem s) page pa (ucast PGSIZE)\<rparr>))
     (sq (kfree pa)
     (bind (load pte) (\<lambda>v.
     sq (store pte (PA2PTE page OR PTE_W OR PTE_FLAGS v))
     (bind (load pte) (\<lambda>v.
     sq (store pte (v AND NOT PTE_COW)) (ret 0)))))))"

definition CowHandler :: "u64 \<Rightarrow> ('z ptable_scheme, int) routine" where
  "CowHandler va =
     bind this_proc (\<lambda>p.
     bind (gets (\<lambda>s. pagetable (procs s p))) (\<lambda>pgt.
     bind (walk pgt va False) (\<lambda>pte.
     if pte = 0 then ret (-1)
     else bind (load pte) (\<lambda>v.
       if v AND PTE_V = 0 \<or> v AND PTE_U = 0 \<or> v AND PTE_COW = 0 then ret (-1)
       else sq (acquire RefLock)
         (bind (gets (\<lambda>s. pgref s (PGINDEX v))) (\<lambda>cnt.
          if cnt = 1 then
            sq (store pte (v AND NOT PTE_COW))
            (sq (store pte ((v AND NOT PTE_COW) OR PTE_W))
            (sq (release RefLock) (ret 0)))
          else
            sq (release RefLock)
            (bind kalloc (\<lambda>page.
             if page = 0 then ret (-2) else cow_replace pte page))))))))"

fun copyout_loop :: "nat \<Rightarrow> u64 \<Rightarrow> u64 \<Rightarrow> u8 list \<Rightarrow> ('z ptable_scheme, int) routine" where
  "copyout_loop n pgt dstva src =
     (if src \<noteq> [] then
        (case n of 0 \<Rightarrow> diverge | Suc n \<Rightarrow>
         let va0 = PGROUNDDOWN dstva in
         if va0 \<ge> MAXVA then ret (-1)
         else bind (walk pgt va0 False) (\<lambda>pte.
           if pte = 0 then ret (-1)
           else bind (load pte) (\<lambda>v.
             if v AND PTE_V = 0 \<or> v AND PTE_U = 0 then ret (-1)
             else bind (if v AND PTE_W = 0 then CowHandler va0 else ret 0) (\<lambda>r.
               if r < 0 then ret (-1)
               else bind (load pte) (\<lambda>v.
                 let k = unat (chunk dstva (of_nat (length src))) in
                 sq (modify (\<lambda>s. s\<lparr>mem := write_bytes (mem s) (PTE2PA v + (dstva - va0)) (take k src)\<rparr>))
                    (copyout_loop n pgt (va0 + PGSIZE) (drop k src)))))))
      else ret 0)"

text \<open>The length of the source is the argument len, which fits 64 bits.\<close>

definition copyout :: "u64 \<Rightarrow> u64 \<Rightarrow> u8 list \<Rightarrow> ('z ptable_scheme, int) routine" where
  "copyout pgt dstva src = copyout_loop (length src div 4096 + 2) pgt dstva src"

declare copyout_loop.simps [simp del]

text \<open>
  either_copyout and either_copyin. A kernel buffer is not part of the managed memory:
  the bytes are handed over as a list, and a kernel destination receives them unchanged.
\<close>

datatype dest = UserAddr u64 | KernelBuf

definition either_copyout :: "dest \<Rightarrow> u8 list \<Rightarrow> ('z ptable_scheme, int \<times> u8 list) routine" where
  "either_copyout dst src =
     bind this_proc (\<lambda>p.
     case dst of
       UserAddr a \<Rightarrow> bind (gets (\<lambda>s. pagetable (procs s p))) (\<lambda>pgt.
         bind (copyout pgt a src) (\<lambda>r. ret (r, [])))
     | KernelBuf \<Rightarrow> ret (0, src))"

datatype source = FromUser u64 | FromKernel "u8 list"

definition either_copyin :: "source \<Rightarrow> u64 \<Rightarrow> ('z ptable_scheme, int \<times> u8 list) routine" where
  "either_copyin src len =
     bind this_proc (\<lambda>p.
     case src of
       FromUser a \<Rightarrow> bind (gets (\<lambda>s. pagetable (procs s p))) (\<lambda>pgt. copyin pgt a len)
     | FromKernel bs \<Rightarrow> ret (0, take (unat len) bs))"

section \<open>Frames of the process table\<close>

lemma mycpu_kmem [simp]:
  "mycpu (s\<lparr>freelist := f\<rparr>) = mycpu s" "mycpu (s\<lparr>pgref := g\<rparr>) = mycpu s"
  by (simp_all add: mycpu_def)

lemma only_mem_ptable:
  fixes s t :: "'z ptable_scheme"
  assumes "only_mem s t"
  shows "procs t = procs s" "cpu.proc (mycpu t) = cpu.proc (mycpu s)" "nextpid t = nextpid s"
    "initproc t = initproc s" "ticks t = ticks s" "trampoline t = trampoline s"
proof -
  have e: "settle t = settle (s\<lparr>mem := mem t, freelist := freelist t, pgref := pgref t\<rparr>)"
    using assms by (simp add: only_mem_def)
  show "procs t = procs s" "nextpid t = nextpid s" "initproc t = initproc s" "ticks t = ticks s"
    "trampoline t = trampoline s"
    using arg_cong [OF e, of procs] arg_cong [OF e, of nextpid] arg_cong [OF e, of initproc]
      arg_cong [OF e, of ticks] arg_cong [OF e, of trampoline] by simp_all
  show "cpu.proc (mycpu t) = cpu.proc (mycpu s)"
    using arg_cong [OF e, of "\<lambda>x. cpu.proc (mycpu x)"] by simp
qed

section \<open>The count that CowHandler reads\<close>

lemma managed_index:
  assumes "kmem_inv s" "managed s p"
  shows "0x80000 \<le> unat (pgidx p)"
proof -
  have "KERNBASE \<le> kernel_end s" using assms(1) by (auto simp: kmem_inv_def kmem_rel_def)
  then have "KERNBASE \<le> p" using assms(2) unfolding managed_def by (blast intro: order_trans)
  then have "0x80000000 \<le> unat p" by (simp add: word_le_nat_alt KERNBASE_def)
  then have "0x80000000 div 4096 \<le> unat p div 4096" by (rule div_le_mono)
  then show ?thesis using assms(2) by (simp add: managed_def pgidx_nat)
qed

text \<open>The allocator counts managed pages only: the counts below the kernel stay zero.\<close>

lemma low_count:
  assumes "kmem_inv s" "unat i < 0x80000"
  shows "pgref s i = 0"
proof (rule ccontr)
  assume "pgref s i \<noteq> 0"
  then obtain p where "managed s p" "i = pgidx p" using assms(1) by (auto simp: kmem_inv_def kmem_rel_def)
  then show False using managed_index [OF assms(1), of p] assms(2) by simp
qed

text \<open>
  The index that CowHandler uses is the entry shifted by 12, not the page number of the
  page the entry points to: it is a quarter of that page number.
\<close>

lemma PGINDEX_pte:
  assumes "PTE2PA e < PHYSTOP" "unat e < 2 ^ 54"
  shows "unat (PGINDEX e) < 0x80000"
proof -
  have "unat (PTE2PA e) = unat e div 1024 * 4096"
  proof -
    have "unat (drop_bit 10 e) = drop_bit 10 (unat e)"
      by (simp only: unsigned_drop_bit_eq take_bit_unat) simp
    then have a: "unat (drop_bit 10 e) = unat e div 1024" by (simp only: drop_bit_eq_div) simp
    have "unat e div 1024 * 4096 < 2 ^ 64" using assms(2) by simp
    then have "take_bit LENGTH(64) (push_bit 12 (unat (drop_bit 10 e))) = unat e div 1024 * 4096"
      unfolding a push_bit_eq_mult by (simp add: take_bit_nat_eq_self)
    then show ?thesis unfolding PTE2PA_def by (simp only: unsigned_push_bit_eq)
  qed
  then have "unat e div 1024 * 4096 < 0x88000000"
    using assms(1) by (simp add: word_less_nat_alt PHYSTOP_eq)
  then have "unat e div 1024 < 0x88000" by simp
  then have "unat e < 0x88000 * 1024" by simp
  then have "unat e div 4096 < 0x22000" by simp
  then show ?thesis by (simp add: PGINDEX_nat)
qed

end
