(* ===== verification/Cowfault.thy ===== *)
theory Cowfault
  imports Cow
begin

text \<open>
  Correctness of \<^verbatim>\<open>CowHandler\<close>: a fault on a copy-on-write page gives the process
  a private writable copy, and no byte of any address space changes.
\<close>

section \<open>The entry of the private copy\<close>

definition fixed :: "u64 \<Rightarrow> u64 \<Rightarrow> u64" where
  "fixed v p = (PA2PTE p OR PTE_W OR PTE_FLAGS v) AND NOT PTE_COW"

lemma bit_PA2PTE_low: "n < 10 \<Longrightarrow> \<not> bit (PA2PTE p) n"
  by (simp add: PA2PTE_def bit_simps)

lemma fixed_low: "n < 10 \<Longrightarrow> bit (fixed v p) n \<longleftrightarrow> n = 2 \<or> n \<noteq> 8 \<and> bit v n"
  by (auto simp: fixed_def bit_simps pte_simps bit_PA2PTE_low)

lemma fixed_high: "10 \<le> n \<Longrightarrow> bit (fixed v p) n = bit (PA2PTE p) n"
  by (auto simp: fixed_def bit_simps pte_simps dest: bit_imp_le_length)

lemma PTE2PA_fixed: "page_aligned p \<Longrightarrow> PTE2PA (fixed v p) = p"
proof -
  assume "page_aligned p"
  have "PTE2PA (fixed v p) = PTE2PA (PA2PTE p OR 0)"
    by (rule PTE2PA_cong) (simp add: fixed_high)
  also have "\<dots> = p" using \<open>page_aligned p\<close> by (rule PTE2PA_PA2PTE) simp
  finally show ?thesis .
qed

lemma valid_fixed: "valid (fixed v p) = valid v"
  by (simp add: valid_bit fixed_low)

lemma bits_bound:
  fixes w :: u64
  shows "(\<And>n. k \<le> n \<Longrightarrow> \<not> bit w n) \<Longrightarrow> unat w < 2 ^ k"
proof -
  assume "\<And>n. k \<le> n \<Longrightarrow> \<not> bit w n"
  then have "take_bit k w = w" by (intro bit_word_eqI) (auto simp: bit_simps not_less [symmetric])
  then have "unat w = take_bit k (unat w)" by (metis unsigned_take_bit_eq)
  then show ?thesis using take_bit_nat_less_exp [of k "unat w"] by simp
qed

lemma bound_bits:
  fixes w :: u64
  assumes "unat w < 2 ^ k" "k \<le> n"
  shows "\<not> bit w n"
proof -
  have "bit (unat w) n = bit (take_bit k (unat w)) n" using assms(1) by (simp add: take_bit_nat_eq_self)
  also have "\<dots> = False" using assms(2) by (simp add: bit_take_bit_iff)
  finally show ?thesis by (auto simp: bit_unsigned_iff dest: bit_imp_le_length)
qed

lemma fixed_small:
  assumes "p < PHYSTOP"
  shows "unat (fixed v p) < 2 ^ 54"
proof (rule bits_bound)
  fix n :: nat assume n: "54 \<le> n"
  have "unat (drop_bit 12 p) = unat p div 4096"
    using PGINDEX_nat [of p] by (simp add: PGINDEX_def)
  moreover have "unat p < 0x88000000" using assms by (simp add: word_less_nat_alt PHYSTOP_eq)
  ultimately have "unat (drop_bit 12 p) < 2 ^ 44" by simp
  then have "\<not> bit (drop_bit 12 p) (n - 10)" using n bound_bits [of "drop_bit 12 p" 44 "n - 10"] by simp
  then show "\<not> bit (fixed v p) n" using n by (simp add: fixed_high PA2PTE_def bit_push_bit_iff)
qed

section \<open>Releasing a page around an entry\<close>

lemma st64_st64 [mem_simps]: "st64 (st64 m a x) a y = st64 m a y"
  by (rule ext) (auto simp: st64_def)

lemma kfree_ld64:
  assumes "kmem_ready s" "managed s p" "page_aligned t" "t \<noteq> p" "unat i < 512" "kfree p s = Ok () w"
  shows "ld64 (mem w) (entry t i) = ld64 (mem s) (entry t i)"
proof (cases "pgref s (pgidx p) \<le> 1")
  case True
  let ?m = "st64 (memset (mem s) p 1 4096) p (freelist s)"
  have al: "page_aligned p" using assms(2) by (rule managed_aligned)
  have "kfree p s = Ok () (settle (s\<lparr>pgref := (pgref s)(pgidx p := 0), mem := ?m, freelist := p\<rparr>))"
    using assms(1,2) True by (intro kfree_last) (auto simp: managed_def)
  then have m: "mem w = ?m" using assms(6) by auto
  have "same_page ?m (mem s) t"
    using st64_same_page [OF al, of 0 t] memset_page_other [OF al, of t] assms(4) by (auto simp: same_page_def)
  then show ?thesis unfolding m using assms(3,5) by (intro ld64_same_page)
next
  case False
  have "kfree p s = Ok () (settle (s\<lparr>pgref := (pgref s)(pgidx p := pgref s (pgidx p) - 1)\<rparr>))"
    using assms(1,2) False by (intro kfree_shared) (auto simp: managed_def)
  then show ?thesis using assms(6) by auto
qed

section \<open>Copying the page\<close>

lemma copy_page:
  assumes "page_aligned p" "page_aligned pa"
  shows "memmove m p pa (ucast PGSIZE) a = (if PGROUNDDOWN a = p then m (pa + (a - p)) else m a)"
  using memmove_eq [of p 4096 pa m] unat_page_room [OF assms(1)] unat_page_room [OF assms(2)]
  by (simp add: pgsize32 off_page [OF assms(1)])

lemma cow_copy:
  assumes v: "vm_inv s R ext" and r: "r \<in> R" "node (mem s) r (vpath va) = Some t"
    and va: "page_aligned va" "va < TRAPFRAME" "valid (pt s r va)"
    and p: "p \<in> avail s" "kmem_inv (after_kalloc p s)" and ex: "\<And>x. 0 \<le> ext x"
  defines "a \<equiv> entry t (PX 0 va)" and "e \<equiv> fixed (pt s r va) p" and "pa \<equiv> PTE2PA (pt s r va)"
  defines "s2 \<equiv> (after_kalloc p s)\<lparr>mem := memmove (mem (after_kalloc p s)) p pa (ucast PGSIZE)\<rparr>"
  shows "\<exists>w. kfree pa s2 = Ok () w \<and> ld64 (mem w) a = pt s r va \<and> vm_inv (w\<lparr>mem := st64 (mem w) a e\<rparr>) R ext \<and>
    only_mem s (w\<lparr>mem := st64 (mem w) a e\<rparr>) \<and>
    (\<forall>r'\<in>R. pt (w\<lparr>mem := st64 (mem w) a e\<rparr>) r' = (if r' = r then (pt s r)(va := e) else pt s r')) \<and>
    (\<forall>x. x \<noteq> p \<and> \<not> is_table (mem s) R x \<and> x \<notin> avail (w\<lparr>mem := st64 (mem w) a e\<rparr>) \<longrightarrow>
       same_page (mem s) (st64 (mem w) a e) x) \<and>
    (\<forall>b. PGROUNDDOWN b = p \<longrightarrow> st64 (mem w) a e b = mem s (pa + (b - p))) \<and>
    (\<forall>q. okpath q \<longrightarrow> node (st64 (mem w) a e) r q = node (mem s) r q)"
proof -
  let ?s1 = "after_kalloc p s"
  note k = vm_kalloc [OF v p]
  have mp: "managed s p" using p(1) by (rule avail_managed)
  have al: "page_aligned p" "page_aligned pa" using managed_aligned [OF mp] by (simp_all add: pa_def)
  note own = pt_owned [OF v r(1) va(2,3), folded pa_def]
  have ne: "p \<noteq> pa" using own(3) p(1) by blast
  have mv: "va < MAXVA" using va(2) by (rule less_trans) (simp add: TRAPFRAME_eq MAXVA_eq)
  have m1: "mem ?s1 = memset (mem s) p 5 4096" by (simp add: after_kalloc_def)
  have m2: "mem s2 b = (if PGROUNDDOWN b = p then mem s (pa + (b - p)) else mem s b)" for b
  proof (cases "PGROUNDDOWN b = p")
    case True
    then have "PGROUNDDOWN (pa + (b - p)) = pa" using PGROUNDDOWN_in_page [OF al(2), of b] by simp
    then show ?thesis using True ne by (simp add: s2_def copy_page [OF al] m1 memset_page [OF al(1)])
  qed (simp add: s2_def copy_page [OF al] m1 memset_page [OF al(1)])
  have same1: "same_page (mem ?s1) (mem s2) x" if "x \<noteq> p" for x
    using that by (auto simp: same_page_def m2 m1 memset_page [OF al(1)])
  have same2: "same_page (mem s) (mem s2) x" if "x \<noteq> p" for x using that by (simp add: same_page_def m2)
  have av1: "avail ?s1 = avail s - {p}" by (rule avail_after_kalloc [OF mp])
  have t1: "same_page (mem ?s1) (mem s2) x" if "is_table (mem ?s1) R x" for x
    using that k(4) by (intro same1) auto
  have t2: "same_page (mem ?s1) (mem s2) x" if "x \<in> avail ?s1" for x
    using that av1 by (intro same1) auto
  have v2: "vm_inv (?s1\<lparr>mem := mem s2\<rparr>) R (ext(p := 1))"
    "pte_at (mem s2) r' vb = pte_at (mem ?s1) r' vb" if "r' \<in> R" for r' vb
    subgoal using k(1) t1 t2 by (rule vm_mem(1))
    subgoal using k(1) t1 t2 that by (rule vm_mem(2))
    done
  have v2n: "node (mem s2) r' q = node (mem ?s1) r' q" if "r' \<in> R" "okpath q" for r' q
    using k(1) t1 t2 that by (rule vm_mem(3))
  have v2t: "is_table (mem s2) R x = is_table (mem ?s1) R x" for x
    using k(1) t1 t2 by (rule vm_mem(4))
  have s2': "s2 = ?s1\<lparr>mem := mem s2\<rparr>" by (simp add: s2_def)
  have inv2: "vm_inv s2 R (ext(p := 1))" by (subst s2') (rule v2(1) [OF r(1)])
  have n2: "node (mem s2) r q = node (mem s) r q" if "okpath q" for q
    using v2n [OF r(1) that] k(6) [OF r(1) that] by simp
  have node2: "node (mem s2) r (vpath va) = Some t" using n2 r(2) by simp
  have pt2: "pt s2 r' = pt s r'" if "r' \<in> R" for r'
    using v2(2) [OF that] k(3) [OF that] by (intro pt_cong) simp
  have refs2: "refs s2 = (refs s)(p := 1)" using refs_after_kalloc [OF mp] by (simp add: s2_def)
  have np2: "\<not> is_table (mem s2) R p" using v2t k(4) by simp
  have e: "leaf_page va e = Some p" using va by (simp add: leaf_page_def e_def valid_fixed PTE2PA_fixed al)
  have new: "0 < refs s2 x \<and> \<not> is_table (mem s2) R x" if "leaf_page va e = Some x" for x
    using that e refs2 np2 by simp
  have lp: "leaf_page va (pte_at (mem s2) r va) = Some pa"
    using fun_cong [OF pt2 [OF r(1)], of va] va mv by (simp add: leaf_page_def pa_def pt_def)
  let ?s3 = "s2\<lparr>mem := st64 (mem s2) a e\<rparr>"
  have "vm_inv ?s3 R (\<lambda>x. (ext(p := 1)) x - (if leaf_page va e = Some x then 1 else 0) +
      (if leaf_page va (pte_at (mem s2) r va) = Some x then 1 else 0))"
    unfolding a_def using inv2 r(1) node2 va(1) mv new by (rule vm_leaf(1))
  then have v3: "vm_inv ?s3 R (ext(pa := ext pa + 1))"
    by (rule vm_inv_ext_cong) (use e lp ne k(5) in auto)
  have pt3: "pt ?s3 r' = (if r' = r then (pt s r)(va := e) else pt s r')" if "r' \<in> R" for r'
    unfolding a_def using vm_leaf_pt [OF inv2 r(1) node2 va(1) mv new that] pt2 that r(1) by simp
  have "1 \<le> (ext(pa := ext pa + 1)) pa" using ex [of pa] by simp
  moreover have "0 < refs ?s3 pa" using own(1) refs2 ne by simp
  ultimately obtain u where u: "kfree pa ?s3 = Ok () u" "released ?s3 R pa u"
    "vm_inv u R ((ext(pa := ext pa + 1))(pa := (ext(pa := ext pa + 1)) pa - 1))"
    using vm_kfree [OF v3, of pa] by blast
  have uv: "vm_inv u R ext" using u(3) by (auto elim: vm_inv_ext_cong)
  have mpa: "managed s2 pa" using refs_managed [OF own(1)] by (simp add: s2_def only_mem_fields(6) [OF only_mem_after_kalloc])
  have tt: "is_table (mem s) R t" using r by (intro is_tableI) auto
  have alt: "page_aligned t" using vm_invD(3) [OF v] tt by (rule is_table_aligned)
  have tpa: "t \<noteq> pa" "t \<noteq> p" using tt own(2) avail_not_table [OF v p(1)] by blast+
  have rd: "kmem_ready s2" using vm_invD(1) [OF inv2] by (simp add: kmem_inv_def)
  have "sq (kfree pa) (store a e) s2 = Ok () u"
    unfolding a_def using rd mpa alt tpa(1) PX_less u(1) [unfolded a_def] by (rule kfree_store_commute)
  then obtain w where w: "kfree pa s2 = Ok () w" "u = w\<lparr>mem := st64 (mem w) a e\<rparr>"
    by (auto simp: sq_eq_Ok store_def)
  have "ld64 (mem w) a = ld64 (mem s2) a"
    unfolding a_def using rd mpa alt tpa(1) PX_less w(1) by (rule kfree_ld64)
  also have "\<dots> = pt s2 r va" using node2 va(1) mv by (simp add: pt_def pte_at_def a_def)
  finally have ldw: "ld64 (mem w) a = pt s r va" using pt2 [OF r(1)] by simp
  have "grow R s2 ?s3" unfolding a_def using inv2 r(1) node2 va(1) mv new by (rule vm_leaf(2))
  have sh: "shrink R ?s3 u" using u(2) v3 \<open>0 < refs ?s3 pa\<close> by (rule released_shrink)
  have same3: "same_page (mem s2) (mem ?s3) x" if "x \<noteq> t" for x
    unfolding a_def using st64_same_page [OF alt PX_less that [symmetric]] by (simp add: same_page_sym)
  have tab: "is_table (mem ?s3) R x = is_table (mem s) R x" for x
    unfolding a_def using vm_leaf(4) [OF inv2 r(1) node2 va(1) mv new] v2n k(6)
    by (intro forest_node_cong(2) [OF vm_invD(3) [OF v]]) simp
  have keep: "same_page (mem s) (mem u) x" if "x \<noteq> p" "\<not> is_table (mem s) R x" "x \<notin> avail u" for x
  proof -
    have "x \<noteq> t" using tt that(2) by blast
    then have "same_page (mem s) (mem ?s3) x" using same2 [OF that(1)] same3 same_page_trans by blast
    moreover have "same_page (mem ?s3) (mem u) x" using sh that(2,3) tab by (simp add: shrink_def)
    ultimately show ?thesis by (rule same_page_trans)
  qed
  have cp: "mem u b = mem s (pa + (b - p))" if "PGROUNDDOWN b = p" for b
  proof -
    have "same_page (mem ?s3) (mem u) p" using u(2) ne by (simp add: released_def)
    with same3 [OF tpa(2) [symmetric]] have "same_page (mem s2) (mem u) p" by (rule same_page_trans)
    then show ?thesis using that m2 [of b] by (simp add: same_page_def)
  qed
  have om: "only_mem s u"
  proof -
    have "only_mem s s2" unfolding s2_def by (rule only_mem_trans [OF only_mem_after_kalloc only_mem_upd(1)])
    moreover have "only_mem s2 ?s3" by (rule only_mem_upd(1))
    moreover have "only_mem ?s3 u" using u(2) by (simp add: released_def)
    ultimately show ?thesis by (blast intro: only_mem_trans)
  qed
  have ptu: "\<forall>r'\<in>R. pt u r' = (if r' = r then (pt s r)(va := e) else pt s r')"
  proof
    fix r' assume "r' \<in> R"
    then have "pt u r' = pt ?s3 r'" using u(2) by (intro pt_cong) (simp add: released_def)
    then show "pt u r' = (if r' = r then (pt s r)(va := e) else pt s r')" using pt3 [OF \<open>r' \<in> R\<close>] by simp
  qed
  have nu: "node (mem u) r q = node (mem s) r q" if "okpath q" for q
    using u(2) vm_leaf(4) [OF inv2 r(1) node2 va(1) mv new r(1) that] n2 [OF that] r(1) that
    by (simp add: released_def a_def)
  show ?thesis
    using w(1) ldw uv om ptu keep cp nu unfolding w(2) by auto
qed

section \<open>Privacy of writable pages\<close>

text \<open>
  What the copy-on-write scheme maintains: a page that some address space can write is
  mapped nowhere else. Besides, the valid entries at and above TRAPFRAME are not for the
  user, and the reserved bits of valid entries are zero.
\<close>

definition cow_inv :: "'z kmem_scheme \<Rightarrow> u64 set \<Rightarrow> bool" where
  "cow_inv s R \<longleftrightarrow>
     (\<forall>r\<in>R. \<forall>va. valid (pt s r va) \<longrightarrow> unat (pt s r va) < 2 ^ 54 \<and> (TRAPFRAME \<le> va \<longrightarrow> \<not> bit (pt s r va) 4)) \<and>
     (\<forall>r\<in>R. \<forall>r'\<in>R. \<forall>va va'. va < TRAPFRAME \<and> va' < TRAPFRAME \<and> valid (pt s r va) \<and> bit (pt s r va) 2 \<and>
        valid (pt s r' va') \<and> PTE2PA (pt s r' va') = PTE2PA (pt s r va) \<longrightarrow> r' = r \<and> va' = va)"

lemma cow_invD:
  assumes "cow_inv s R"
  shows "r \<in> R \<Longrightarrow> valid (pt s r va) \<Longrightarrow> unat (pt s r va) < 2 ^ 54"
    "r \<in> R \<Longrightarrow> valid (pt s r va) \<Longrightarrow> TRAPFRAME \<le> va \<Longrightarrow> \<not> bit (pt s r va) 4"
    "r \<in> R \<Longrightarrow> r' \<in> R \<Longrightarrow> va < TRAPFRAME \<Longrightarrow> va' < TRAPFRAME \<Longrightarrow> valid (pt s r va) \<Longrightarrow> bit (pt s r va) 2 \<Longrightarrow>
      valid (pt s r' va') \<Longrightarrow> PTE2PA (pt s r' va') = PTE2PA (pt s r va) \<Longrightarrow> r' = r \<and> va' = va"
  using assms unfolding cow_inv_def by blast+

lemma cow_inv_cong: "(\<And>r. r \<in> R \<Longrightarrow> pt t r = pt s r) \<Longrightarrow> cow_inv t R = cow_inv s R"
  by (simp add: cow_inv_def cong: ball_cong)

lemma cow_inv_settle [simp]: "cow_inv (settle s) R = cow_inv s R"
  by (simp add: cow_inv_def)

lemma user_byte_settle [simp]: "user_byte (settle s) = user_byte s"
  by (simp add: user_byte_def fun_eq_iff Let_def)

text \<open>A fresh page mapped in place of another one keeps the invariant.\<close>

lemma cow_inv_fresh:
  assumes c: "cow_inv s R" and v: "vm_inv s R ext" and r: "r \<in> R" and va: "va < TRAPFRAME"
    and p: "p \<in> avail s" "PTE2PA e = p" "unat e < 2 ^ 54"
    and pt: "\<And>r'. r' \<in> R \<Longrightarrow> pt t r' = (if r' = r then (pt s r)(va := e) else pt s r')"
  shows "cow_inv t R"
proof -
  have fresh: "PTE2PA (pt s r' vb) \<noteq> p" if "r' \<in> R" "vb < TRAPFRAME" "valid (pt s r' vb)" for r' vb
    using pt_owned(3) [OF v that] p(1) by blast
  have "r2 = r1 \<and> v2 = v1"
    if a: "r1 \<in> R" "r2 \<in> R" "v1 < TRAPFRAME" "v2 < TRAPFRAME" "valid (pt t r1 v1)" "bit (pt t r1 v1) 2"
      "valid (pt t r2 v2)" "PTE2PA (pt t r2 v2) = PTE2PA (pt t r1 v1)" for r1 r2 v1 v2
  proof (cases "(r1 = r \<and> v1 = va) \<or> (r2 = r \<and> v2 = va)")
    case True
    then show ?thesis using a fresh [OF a(1,3)] fresh [OF a(2,4)] p(2) pt [OF a(1)] pt [OF a(2)] by (auto split: if_splits)
  next
    case False
    then have "pt t r1 v1 = pt s r1 v1" "pt t r2 v2 = pt s r2 v2" using pt [OF a(1)] pt [OF a(2)] by auto
    then show ?thesis using a cow_invD(3) [OF c a(1-4)] by simp
  qed
  moreover have "valid (pt t r' vb) \<longrightarrow> unat (pt t r' vb) < 2 ^ 54 \<and> (TRAPFRAME \<le> vb \<longrightarrow> \<not> bit (pt t r' vb) 4)" if "r' \<in> R" for r' vb
    using cow_invD(1,2) [OF c that, of vb] pt [OF that] p(3) va that by auto
  ultimately show ?thesis unfolding cow_inv_def by blast
qed

section \<open>The handler\<close>

lemma walk_page: "va < MAXVA \<Longrightarrow> vpath (PGROUNDDOWN va) = vpath va \<and> PX 0 (PGROUNDDOWN va) = PX 0 va"
  by (simp add: vpath_def PX_PGROUNDDOWN)

lemma pt_page:
  assumes "va < MAXVA"
  shows "pt s r (PGROUNDDOWN va) = pte_at (mem s) r va"
proof -
  have "PGROUNDDOWN va < MAXVA" using PGROUNDDOWN_le assms by (rule le_less_trans)
  then show ?thesis using walk_page [OF assms] by (simp add: pt_def pte_at_def cong: option.case_cong)
qed

lemma in_place_dead:
  assumes "vm_inv s R ext" "cow_inv s R" "r \<in> R" "va < TRAPFRAME" "valid (pt s r va)"
  shows "pgref s (PGINDEX (pt s r va)) \<noteq> 1"
proof -
  have "managed s (PTE2PA (pt s r va))" using pt_owned(1) [OF assms(1,3-5)] by (rule refs_managed)
  then have "unat (PGINDEX (pt s r va)) < 0x80000"
    using cow_invD(1) [OF assms(2,3,5)] by (intro PGINDEX_pte) (auto simp: managed_def)
  then show ?thesis using low_count [OF vm_invD(1) [OF assms(1)]] by simp
qed

lemma CowHandler_cases:
  fixes s :: "'z ptable_scheme"
  assumes v: "vm_inv s R ext" and c: "cow_inv s R" and r: "r \<in> R" "cpu.proc (mycpu s) = Some i" "pagetable (procs s i) = r"
    and va: "va < MAXVA"
  defines "e \<equiv> pt s r (PGROUNDDOWN va)"
  shows "\<not> (valid e \<and> bit e 4 \<and> bit e 8) \<Longrightarrow> CowHandler va s = Ok (-1) (settle s)"
    and "valid e \<Longrightarrow> bit e 4 \<Longrightarrow> bit e 8 \<Longrightarrow> \<exists>t. node (mem s) r (vpath va) = Some t \<and> CowHandler va s =
      bind kalloc (\<lambda>page. if page = 0 then ret (-2) else cow_replace (entry t (PX 0 va)) page) (settle s)"
proof -
  have rd: "kmem_ready s" using vm_invD(1) [OF v] by (simp add: kmem_inv_def)
  then have ok: "cpu_ok s" "lock_free RefLock s" by (simp_all add: kmem_ready_def)
  note tp = this_proc_run [OF ok(1) r(2)]
  have e: "e = pte_at (mem s) r va" unfolding e_def by (rule pt_page [OF va])
  have nz: "entry t (PX 0 va) \<noteq> 0" if "node (mem s) r (vpath va) = Some t" for t
  proof -
    have "is_table (mem s) R t" using r(1) that by (intro is_tableI) auto
    then show ?thesis using entry_nonnull [OF is_table_managed [OF v] vm_invD(1) [OF v] PX_less] by blast
  qed
  have w: "walk r va False (settle s) =
    Ok (case node (mem s) r (vpath va) of None \<Rightarrow> 0 | Some t \<Rightarrow> entry t (PX 0 va)) (settle s)"
    using va by (simp add: walk_lookup not_le [symmetric])
  have l: "load (entry t (PX 0 va)) (settle s) = Ok e (settle s)" if "node (mem s) r (vpath va) = Some t" for t
    using that e by (simp add: load_def pte_at_def)
  show "CowHandler va s = Ok (-1) (settle s)" if "\<not> (valid e \<and> bit e 4 \<and> bit e 8)"
  proof (cases "node (mem s) r (vpath va)")
    case None
    then show ?thesis using tp r(3) w by (simp add: CowHandler_def)
  next
    case (Some t)
    then show ?thesis using tp r(3) w nz [OF Some] that l [OF Some]
      by (simp add: CowHandler_def flag_bits valid_bit)
  qed
  assume b: "valid e" "bit e 4" "bit e 8"
  then obtain t where t: "node (mem s) r (vpath va) = Some t"
    using e by (auto simp: pte_at_def split: option.splits)
  have "\<not> TRAPFRAME \<le> PGROUNDDOWN va" using cow_invD(2) [OF c r(1)] b(1,2) unfolding e_def by blast
  then have "PGROUNDDOWN va < TRAPFRAME" by simp
  then have dead: "pgref s (PGINDEX e) \<noteq> 1" using in_place_dead [OF v c r(1)] b(1) unfolding e_def by blast
  have "CowHandler va s =
      bind kalloc (\<lambda>page. if page = 0 then ret (-2) else cow_replace (entry t (PX 0 va)) page) (settle s)"
    unfolding CowHandler_def using tp r(3) w l [OF t] nz [OF t] b dead ok t
    by (simp add: flag_bits valid_bit acquire_run release_enter)
  then show "\<exists>t. node (mem s) r (vpath va) = Some t \<and> CowHandler va s =
      bind kalloc (\<lambda>page. if page = 0 then ret (-2) else cow_replace (entry t (PX 0 va)) page) (settle s)"
    using t by blast
qed

text \<open>The whole handler, for the process that runs on this hart.\<close>

lemma CowHandler_ok:
  fixes s :: "'z ptable_scheme"
  assumes v: "vm_inv s R ext" and c: "cow_inv s R" and r: "r \<in> R" "cpu.proc (mycpu s) = Some i" "pagetable (procs s i) = r"
    and va: "va < MAXVA" and ex: "\<And>x. 0 \<le> ext x"
  shows "\<exists>rc t. CowHandler va s = Ok rc t \<and> vm_inv t R ext \<and> cow_inv t R \<and> only_mem s t \<and>
    (\<forall>r'\<in>R. user_byte t r' = user_byte s r') \<and>
    (\<forall>q. okpath q \<longrightarrow> node (mem t) r q = node (mem s) r q) \<and>
    (if \<not> (valid (pt s r (PGROUNDDOWN va)) \<and> bit (pt s r (PGROUNDDOWN va)) 4 \<and> bit (pt s r (PGROUNDDOWN va)) 8)
     then rc = -1 \<and> t = settle s
     else if avail s = {} then rc = -2 \<and> t = settle s
     else rc = 0 \<and> (\<exists>p\<in>avail s. \<forall>r'\<in>R. pt t r' =
       (if r' = r then (pt s r)(PGROUNDDOWN va := fixed (pt s r (PGROUNDDOWN va)) p) else pt s r')))"
proof -
  let ?va = "PGROUNDDOWN va" and ?e = "pt s r (PGROUNDDOWN va)"
  note cases = CowHandler_cases [OF v c r va]
  have mv: "?va < MAXVA" using PGROUNDDOWN_le va by (rule le_less_trans)
  show ?thesis
  proof (cases "valid ?e \<and> bit ?e 4 \<and> bit ?e 8")
    case False
    then have "CowHandler va s = Ok (-1) (settle s)" using cases(1) by blast
    then show ?thesis using False v c by auto
  next
    case True
    then obtain t where t: "node (mem s) r (vpath ?va) = Some t" "CowHandler va s =
      bind kalloc (\<lambda>page. if page = 0 then ret (-2) else cow_replace (entry t (PX 0 ?va)) page) (settle s)"
      using cases(2) walk_page [OF va] by (auto cong: if_cong)
    have tf: "?va < TRAPFRAME" using cow_invD(2) [OF c r(1), of ?va] True by (auto simp: not_le [symmetric])
    have vs: "vm_inv (settle s) R ext" using v by simp
    show ?thesis
    proof (rule kalloc_cases [OF vs])
      assume "avail (settle s) = {}" "kalloc (settle s) = Ok 0 (settle (settle s))"
      then show ?thesis using t(2) True v c by auto
    next
      fix p assume p: "kalloc (settle s) = Ok p (after_kalloc p (settle s))" "p \<in> avail (settle s)" "p \<noteq> 0"
        "kmem_inv (after_kalloc p (settle s))"
      let ?a = "entry t (PX 0 ?va)" and ?f = "fixed ?e p"
      have n: "node (mem (settle s)) r (vpath ?va) = Some t" using t(1) by simp
      have val: "valid (pt (settle s) r ?va)" using True by simp
      let ?s1 = "after_kalloc p (settle s)"
      let ?s2 = "?s1\<lparr>mem := memmove (mem ?s1) p (PTE2PA ?e) (ucast PGSIZE)\<rparr>"
      obtain w where w: "kfree (PTE2PA ?e) ?s2 = Ok () w" "ld64 (mem w) ?a = ?e"
        "vm_inv (w\<lparr>mem := st64 (mem w) ?a ?f\<rparr>) R ext" "only_mem (settle s) (w\<lparr>mem := st64 (mem w) ?a ?f\<rparr>)"
        "\<forall>r'\<in>R. pt (w\<lparr>mem := st64 (mem w) ?a ?f\<rparr>) r' = (if r' = r then (pt s r)(?va := ?f) else pt s r')"
        "\<forall>x. x \<noteq> p \<and> \<not> is_table (mem s) R x \<and> x \<notin> avail (w\<lparr>mem := st64 (mem w) ?a ?f\<rparr>) \<longrightarrow>
           same_page (mem s) (st64 (mem w) ?a ?f) x"
        "\<forall>b. PGROUNDDOWN b = p \<longrightarrow> st64 (mem w) ?a ?f b = mem s (PTE2PA ?e + (b - p))"
        "\<forall>q. okpath q \<longrightarrow> node (st64 (mem w) ?a ?f) r q = node (mem s) r q"
        using cow_copy [OF vs r(1) n _ tf val p(2,4) ex] by auto
      let ?u = "w\<lparr>mem := st64 (mem w) ?a ?f\<rparr>"
      have l1: "load ?a ?s1 = Ok ?e ?s1"
        using vm_kalloc(3) [OF vs p(2,4) r(1), of ?va] vm_kalloc(6) [OF vs p(2,4) r(1), of "vpath ?va"] t(1) mv
        by (simp add: load_def pt_def pte_at_def)
      have run: "CowHandler va s = Ok 0 ?u"
        using t(2) p(1,3) l1 w(1,2)
        by (simp add: cow_replace_def Let_def load_def store_def ld64_st64_same st64_st64 fixed_def)
      have al: "page_aligned p" using managed_aligned [OF avail_managed [OF p(2)]] by simp
      have small: "unat ?f < 2 ^ 54" using avail_managed [OF p(2)] by (intro fixed_small) (simp add: managed_def)
      have cu: "cow_inv ?u R"
        using c v r(1) tf _ PTE2PA_fixed [OF al] small w(5) [rule_format]
        by (rule cow_inv_fresh) (use p(2) in auto)
      have ub: "user_byte ?u r' vb = user_byte s r' vb" if r': "r' \<in> R" for r' vb
      proof (cases "r' = r \<and> PGROUNDDOWN vb = ?va")
        case here: True
        then have ptu: "pt ?u r (PGROUNDDOWN vb) = ?f" using w(5) r(1) by simp
        have "mem ?u (p + (vb - PGROUNDDOWN vb)) = mem s (PTE2PA ?e + (vb - PGROUNDDOWN vb))"
          using w(7) PGROUNDDOWN_in_page [OF al, of vb] by simp
        then show ?thesis
          using here ptu True tf by (simp add: user_byte_def Let_def flag_bits fixed_low PTE2PA_fixed [OF al] valid_bit)
      next
        case False
        then have eq: "pt ?u r' (PGROUNDDOWN vb) = pt s r' (PGROUNDDOWN vb)" using w(5) r' by auto
        have "same_page (mem s) (mem ?u) (PTE2PA (pt s r' (PGROUNDDOWN vb)))"
          if b: "PGROUNDDOWN vb < TRAPFRAME" "valid (pt s r' (PGROUNDDOWN vb))"
        proof -
          have "PTE2PA (pt s r' (PGROUNDDOWN vb)) \<notin> avail ?u" using pt_owned(3) [OF w(3) r' b(1)] b(2) eq by simp
          then show ?thesis using pt_owned(2,3) [OF v r' b] p(2) w(6) by auto
        qed
        then show ?thesis using eq by (intro user_byte_cong [OF _ _ _ _ refl]) simp_all
      qed
      have "only_mem s ?u" using only_mem_trans [OF only_mem_upd(2) w(4)] .
      then show ?thesis using run w(3) cu ub w(5,8) p(2) True by (auto simp: fun_eq_iff)
    qed
  qed
qed

section \<open>A machine with a copy-on-write page\<close>

text \<open>The invariants only depend on the memory and the allocator's fields.\<close>

lemma vm_inv_transfer:
  assumes "vm_inv s R ext" "kmem_ready t" "mem t = mem s" "freelist t = freelist s" "pgref t = pgref s"
    "kernel_end t = kernel_end s"
  shows "vm_inv t R ext" "avail t = avail s" "refs t = refs s" "pt t = pt s"
proof -
  have m: "managed t = managed s" using assms(6) by (simp add: managed_def fun_eq_iff)
  then show r: "refs t = refs s" and "avail t = avail s" using assms(5) by (simp_all add: refs_def avail_def fun_eq_iff)
  show "pt t = pt s" by (intro ext) (simp add: pt_def assms(3))
  have "kmem_rel t fl = kmem_rel s fl" for fl using m assms(3-6) by (simp add: kmem_rel_def)
  then have "kmem_inv t" using vm_invD(1) [OF assms(1)] assms(2) by (simp add: kmem_inv_def)
  then show "vm_inv t R ext" using assms(1) unfolding vm_inv_def assms(3) m r by blast
qed

definition user_proc :: "u64 \<Rightarrow> proc" where
  "user_proc pgt = \<lparr>state = RUNNING, chan = NullChan, killed = 0, xstate = 0, pid = 1, parent = None,
     kstack = 0, sz = 4096, pagetable = pgt, trapframe = 0,
     pcontext = \<lparr>ctx_ra = 0, ctx_sp = 0, ctx_s = []\<rparr>, ofile = [], cwd = None, pname = []\<rparr>"

lemma PA2PTE_small: "p < PHYSTOP \<Longrightarrow> f < 1024 \<Longrightarrow> unat (PA2PTE p OR f) < 2 ^ 54"
proof (rule bits_bound)
  fix n :: nat assume p: "p < PHYSTOP" "f < 1024" and n: "54 \<le> n"
  have "\<not> bit (fixed 0 p) n" using bound_bits [OF fixed_small [OF p(1)] n] .
  moreover have "\<not> bit f n" using p(2) n bound_bits [of f 10 n] by (simp add: word_less_nat_alt)
  ultimately show "\<not> bit (PA2PTE p OR f) n" using n by (simp add: fixed_high bit_or_iff)
qed

lemma avail_refs: "p \<in> avail s \<longleftrightarrow> managed s p \<and> refs s p = 0"
  by (auto simp: avail_def refs_def unat_eq_0)

lemma cow_inv_single:
  assumes "R = {old, new}" "pt s old = (\<lambda>_. 0)(0 := e)" "pt s new = (\<lambda>_. 0)" "unat e < 2 ^ 54"
  shows "cow_inv s R"
  unfolding cow_inv_def assms(1) using assms(2-4) by (auto simp: TRAPFRAME_eq not_le)

lemma cow_machine_kmem:
  "\<exists>(s :: kmem) R r. vm_inv s R (\<lambda>_. 0) \<and> cow_inv s R \<and> r \<in> R \<and>
    valid (pt s r 0) \<and> bit (pt s r 0) 4 \<and> bit (pt s r 0) 8 \<and> \<not> bit (pt s r 0) 2 \<and>
    avail s \<noteq> {} \<and> refs s (PTE2PA (pt s r 0)) = 1"
proof -
  from two_spaces obtain s :: kmem and R old new p where
    s: "vm_inv s R (\<lambda>_. 0)" "R = {old, new}" "old \<in> R" "\<forall>va. pt s new va = 0" "\<forall>va. va \<noteq> 0 \<longrightarrow> pt s old va = 0"
      "3 \<le> card (avail s)" and e: "pt s old 0 = PA2PTE p OR (PTE_R OR PTE_U OR PTE_W) OR PTE_V" and p: "managed s p" "refs s p = 1"
    and ne: "old \<noteq> new" by blast
  let ?f = "(PTE_R OR PTE_U OR PTE_W) OR PTE_V"
  have f: "?f < 1024" by (simp add: flag_defs)
  have small: "unat (pt s old 0) < 2 ^ 54" using PA2PTE_small [OF _ f, of p] p(1) e by (simp add: managed_def or.assoc)
  have pa: "PTE2PA (pt s old 0) = p" using PTE2PA_PA2PTE [OF managed_aligned [OF p(1)] f] e by (simp add: or.assoc)
  have bits: "bit (pt s old 0) 0" "bit (pt s old 0) 2" "bit (pt s old 0) 4" using e by (simp_all add: bit_simps pte_simps)
  then have v0: "valid (pt s old 0)" by (simp add: valid_bit)
  then obtain t where t: "node (mem s) old (vpath 0) = Some t" by (rule node_pt)
  obtain u :: kmem where u: "vm_inv u R (\<lambda>_. 0)" "grow R s u" "refs u = refs s"
    "\<forall>r'\<in>R. pt u r' = (if r' = old then (pt s old)(0 := cow (pt s old 0)) else pt s r')"
    using cow_step [OF s(1,3) t] v0 by (auto simp: page_aligned_def TRAPFRAME_eq)
  have "managed u = managed s" using u(2) only_mem_fields(6) [of s u] by (simp add: grow_def)
  then have "avail u = avail s" using u(3) by (simp add: set_eq_iff avail_refs)
  moreover have ptu: "pt u old = (\<lambda>_. 0)(0 := cow (pt s old 0))" "pt u new = (\<lambda>_. 0)"
    using u(4) s(2,4,5) ne by (auto simp: fun_eq_iff)
  have cs: "unat (cow (pt s old 0)) < 2 ^ 54"
  proof (rule bits_bound)
    fix n :: nat assume "54 \<le> n"
    then show "\<not> bit (cow (pt s old 0)) n" using bound_bits [OF small, of n] by (auto simp: bit_cow)
  qed
  with s(2) ptu have "cow_inv u R" by (rule cow_inv_single)
  moreover have "avail s \<noteq> {}" using s(6) by auto
  ultimately show ?thesis
    using u(1,3) s(3) ptu(1) v0 bits pa p(2) by (intro exI [of _ u] exI [of _ R] exI [of _ old]) (auto simp: bit_cow)
qed

lemma cow_machine:
  "\<exists>(s :: ptable) R r. vm_inv s R (\<lambda>_. 0) \<and> cow_inv s R \<and> r \<in> R \<and> cpu.proc (mycpu s) = Some 0 \<and>
    pagetable (procs s 0) = r \<and> valid (pt s r 0) \<and> bit (pt s r 0) 4 \<and> bit (pt s r 0) 8 \<and> \<not> bit (pt s r 0) 2 \<and>
    avail s \<noteq> {} \<and> refs s (PTE2PA (pt s r 0)) = 1"
proof -
  from cow_machine_kmem obtain s :: kmem and R r where
    s: "vm_inv s R (\<lambda>_. 0)" "cow_inv s R" "r \<in> R" "valid (pt s r 0) \<and> bit (pt s r 0) 4 \<and> bit (pt s r 0) 8 \<and> \<not> bit (pt s r 0) 2"
      "avail s \<noteq> {}" "refs s (PTE2PA (pt s r 0)) = 1" by blast
  let ?t = "kmem.extend (s\<lparr>cpus := (cpus s)(tp s := (mycpu s)\<lparr>proc := Some 0\<rparr>)\<rparr>)
    \<lparr>procs = (\<lambda>_. user_proc r), nextpid = 1, initproc = None, ticks = 0, trampoline = 0x80001000,
     forkret_addr = 0x80002000\<rparr>"
  have "kmem_ready s" using vm_invD(1) [OF s(1)] by (simp add: kmem_inv_def)
  then have rd: "kmem_ready ?t"
    by (simp add: kmem_ready_def kmem.defs cpu_ok_def lock_free_def mycpu_def intr_get_def)
  have f: "mem ?t = mem s" "freelist ?t = freelist s" "pgref ?t = pgref s" "kernel_end ?t = kernel_end s"
    by (simp_all add: kmem.defs)
  note tr = vm_inv_transfer [OF s(1) rd f]
  have "cow_inv ?t R" using s(2) unfolding cow_inv_def tr(4) .
  moreover have "cpu.proc (mycpu ?t) = Some 0" "pagetable (procs ?t 0) = r"
    by (simp_all add: kmem.defs mycpu_def user_proc_def)
  ultimately show ?thesis using tr s by (intro exI [of _ ?t] exI [of _ R] exI [of _ r]) simp
qed

section \<open>Properties\<close>

text \<open>
  C2: a write fault on a copy-on-write page. CowHandler, for the process that runs on the
  hart, returns and keeps the invariants of tables, counts and privacy. When the page is
  not a copy-on-write page of the user it gives -1, when no page is free it gives -2, and
  nothing has changed. Otherwise it gives 0, the entry is writable and no longer
  copy-on-write, its page is mapped nowhere else, and every other entry is the same. In all
  cases no address space reads a different byte than before.
\<close>

theorem cow_fault_private_copy:
  fixes s :: "'z ptable_scheme"
  assumes "vm_inv s R ext" "cow_inv s R" "\<And>p. 0 \<le> ext p" "va < MAXVA"
    and "cpu.proc (mycpu s) = Some i" "pagetable (procs s i) = r" "r \<in> R"
  shows "\<exists>rc t. CowHandler va s = Ok rc t \<and> vm_inv t R ext \<and> cow_inv t R \<and>
    (\<forall>r'\<in>R. user_byte t r' = user_byte s r') \<and>
    (let e = pt s r (PGROUNDDOWN va) in
     if e AND PTE_V = 0 \<or> e AND PTE_U = 0 \<or> e AND PTE_COW = 0 then rc = -1 \<and> t = settle s
     else if avail s = {} then rc = -2 \<and> t = settle s
     else rc = 0 \<and> pt t r (PGROUNDDOWN va) AND PTE_W \<noteq> 0 \<and> pt t r (PGROUNDDOWN va) AND PTE_COW = 0 \<and>
       PTE2PA (pt t r (PGROUNDDOWN va)) \<in> avail s \<and>
       (\<forall>r'\<in>R. \<forall>vb. r' \<noteq> r \<or> vb \<noteq> PGROUNDDOWN va \<longrightarrow> pt t r' vb = pt s r' vb))"
proof -
  let ?e = "pt s r (PGROUNDDOWN va)"
  from CowHandler_ok [OF assms(1,2,7,5,6,4,3)] obtain rc t where
    t: "CowHandler va s = Ok rc t" "vm_inv t R ext" "cow_inv t R" "\<forall>r'\<in>R. user_byte t r' = user_byte s r'"
    and k: "if \<not> (valid ?e \<and> bit ?e 4 \<and> bit ?e 8) then rc = -1 \<and> t = settle s
     else if avail s = {} then rc = -2 \<and> t = settle s
     else rc = 0 \<and> (\<exists>p\<in>avail s. \<forall>r'\<in>R. pt t r' = (if r' = r then (pt s r)(PGROUNDDOWN va := fixed ?e p) else pt s r'))"
    by blast
  show ?thesis
  proof (cases "valid ?e \<and> bit ?e 4 \<and> bit ?e 8 \<and> avail s \<noteq> {}")
    case True
    then obtain p where p: "p \<in> avail s" "rc = 0"
      "\<forall>r'\<in>R. pt t r' = (if r' = r then (pt s r)(PGROUNDDOWN va := fixed ?e p) else pt s r')" using k by auto
    have "PTE2PA (fixed ?e p) = p" using managed_aligned [OF avail_managed [OF p(1)]] by (rule PTE2PA_fixed)
    then show ?thesis using True t p assms(7) by (auto simp: Let_def flag_bits valid_bit fixed_low)
  next
    case False
    then show ?thesis using t k by (auto simp: Let_def flag_bits valid_bit split: if_splits)
  qed
qed

theorem cow_fault_private_copy_witness:
  "\<exists>(s :: ptable) R r t. vm_inv s R (\<lambda>_. 0) \<and> pt s r 0 AND PTE_W = 0 \<and> CowHandler 8 s = Ok 0 t \<and>
    pt t r 0 AND PTE_W \<noteq> 0 \<and> user_byte t r = user_byte s r"
proof -
  from cow_machine obtain s :: ptable and R r where
    s: "vm_inv s R (\<lambda>_. 0)" "cow_inv s R" "cpu.proc (mycpu s) = Some 0" "pagetable (procs s 0) = r" "r \<in> R"
      "valid (pt s r 0)" "bit (pt s r 0) 4" "bit (pt s r 0) 8" "\<not> bit (pt s r 0) 2" "avail s \<noteq> {}" by blast
  have "PGROUNDDOWN 8 = 0" by (simp add: PGROUNDDOWN_def PGSIZE_def)
  with cow_fault_private_copy [OF s(1,2) _ _ s(3-5), of 8] obtain t where
    "CowHandler 8 s = Ok 0 t" "bit (pt t r 0) 2" "user_byte t r = user_byte s r"
    using s(5-10) by (auto simp: MAXVA_eq Let_def flag_bits valid_bit simp del: ex_in_conv)
  then show ?thesis using s(1,9) by (intro exI [of _ s] exI [of _ R] exI [of _ r] exI [of _ t]) (simp add: flag_bits)
qed

text \<open>
  C20: the in-place path of CowHandler is never taken: even when the process is the only user of
  the page, the handler copies the page to a new one, and fails when no page is free. The
  index it reads the count at is the entry shifted by 12, not the page number of the page
  the entry points to.
\<close>

theorem cow_fault_sole_user_copies:
  fixes s :: "'z ptable_scheme"
  assumes "vm_inv s R ext" "cow_inv s R" "\<And>p. 0 \<le> ext p" "va < MAXVA"
    and "cpu.proc (mycpu s) = Some i" "pagetable (procs s i) = r" "r \<in> R"
    and "valid (pt s r (PGROUNDDOWN va))" "bit (pt s r (PGROUNDDOWN va)) 4" "bit (pt s r (PGROUNDDOWN va)) 8"
    and "refs s (PTE2PA (pt s r (PGROUNDDOWN va))) = 1"
  shows "if avail s = {} then CowHandler va s = Ok (-2) (settle s)
    else \<exists>t. CowHandler va s = Ok 0 t \<and> PTE2PA (pt t r (PGROUNDDOWN va)) \<noteq> PTE2PA (pt s r (PGROUNDDOWN va))"
proof (cases "avail s = {}")
  case True
  then show ?thesis using CowHandler_ok [OF assms(1,2,7,5,6,4,3)] assms(8-10) by auto
next
  case False
  let ?e = "pt s r (PGROUNDDOWN va)"
  obtain t p where t: "CowHandler va s = Ok 0 t" "p \<in> avail s"
    "\<forall>r'\<in>R. pt t r' = (if r' = r then (pt s r)(PGROUNDDOWN va := fixed ?e p) else pt s r')"
    using CowHandler_ok [OF assms(1,2,7,5,6,4,3)] assms(8-10) False by (auto simp del: ex_in_conv)
  have e: "pt t r (PGROUNDDOWN va) = fixed ?e p" using t(3) assms(7) by simp
  have "PTE2PA (fixed ?e p) = p" using managed_aligned [OF avail_managed [OF t(2)]] by (rule PTE2PA_fixed)
  moreover have "PTE2PA ?e \<noteq> p" using assms(11) t(2) avail_refs [of p s] by auto
  ultimately show ?thesis using t(1) e False by auto
qed

theorem cow_fault_sole_user_copies_witness:
  "\<exists>(s :: ptable) r t. refs s (PTE2PA (pt s r 0)) = 1 \<and> CowHandler 8 s = Ok 0 t \<and>
    PTE2PA (pt t r 0) \<noteq> PTE2PA (pt s r 0)"
proof -
  from cow_machine obtain s :: ptable and R r where
    s: "vm_inv s R (\<lambda>_. 0)" "cow_inv s R" "cpu.proc (mycpu s) = Some 0" "pagetable (procs s 0) = r" "r \<in> R"
      "valid (pt s r 0)" "bit (pt s r 0) 4" "bit (pt s r 0) 8" "avail s \<noteq> {}" "refs s (PTE2PA (pt s r 0)) = 1" by blast
  have "PGROUNDDOWN 8 = 0" by (simp add: PGROUNDDOWN_def PGSIZE_def)
  with cow_fault_sole_user_copies [OF s(1,2) _ _ s(3-5), of 8] obtain t where
    "CowHandler 8 s = Ok 0 t" "PTE2PA (pt t r 0) \<noteq> PTE2PA (pt s r 0)"
    using s(6-) by (auto simp: MAXVA_eq simp del: ex_in_conv)
  then show ?thesis using s(10) by blast
qed

text \<open>
  C21: a fault at an address at or above MAXVA stops the kernel: CowHandler does not check
  the address before it calls walk, which panics.
\<close>

theorem cow_fault_high_address_panics:
  assumes "cpu_ok s" "cpu.proc (mycpu s) = Some i" "MAXVA \<le> va"
  shows "CowHandler va s = Panic ''walk''"
  using this_proc_run [OF assms(1,2)] assms(3) by (simp add: CowHandler_def walk_lookup)

theorem cow_fault_high_address_panics_witness:
  "\<exists>s :: ptable. CowHandler (2 ^ 63) s = Panic ''walk''"
proof -
  from cow_machine obtain s :: ptable and R where
    s: "vm_inv s R (\<lambda>_. 0)" "cpu.proc (mycpu s) = Some 0" by blast
  have "cpu_ok s" using vm_invD(1) [OF s(1)] by (simp add: kmem_inv_def kmem_ready_def)
  then have "CowHandler (2 ^ 63) s = Panic ''walk''"
    using s(2) by (rule cow_fault_high_address_panics) (simp add: MAXVA_eq)
  then show ?thesis by blast
qed

end
