(* ===== verification/Copyout.thy ===== *)
theory Copyout
  imports Cowfault
begin

text \<open>
  \<^verbatim>\<open>copyout\<close> of \<^verbatim>\<open>kernel/vm.c\<close> writes the bytes it is given to one address
  space and to no other, although pages are shared copy-on-write.
\<close>

section \<open>Writing a run of bytes\<close>

lemma write_bytes_eq:
  "length bs < 2 ^ 64 \<Longrightarrow> write_bytes m a bs x = (if off x a < length bs then bs ! off x a else m x)"
proof (induction bs arbitrary: m a)
  case (Cons b bs)
  show ?case
  proof (cases "x = a")
    case True
    then show ?thesis using Cons off_last [of a] by simp
  next
    case False
    then show ?thesis using Cons off_Suc [OF False] by simp
  qed
qed simp

definition put :: "(u64 \<Rightarrow> u8 option) \<Rightarrow> u64 \<Rightarrow> u8 list \<Rightarrow> u64 \<Rightarrow> u8 option" where
  "put f a bs va = (if off va a < length bs then Some (bs ! off va a) else f va)"

lemma put_Nil [simp]: "put f a [] = f"
  by (simp add: put_def fun_eq_iff)

lemma off_shift:
  assumes "k \<le> off va a"
  shows "off va (a + of_nat k) = off va a - k"
proof -
  have k: "unat (of_nat k :: u64) = k" using assms off_less [of va a] by (simp add: unat_of_nat)
  have "of_nat k \<le> va - a" using assms k by (simp add: word_le_nat_alt off_def)
  then have "unat ((va - a) - of_nat k) = unat (va - a) - unat (of_nat k :: u64)" by (rule unat_sub)
  then show ?thesis using k by (simp add: off_def diff_diff_eq)
qed

lemma unat_plus: "unat (x + y) = (unat x + unat y) mod 2 ^ 64" for x y :: u64
  by (simp add: unat_word_ariths)

lemma off_before:
  assumes "off va a < k" "k < 2 ^ 64"
  shows "2 ^ 64 - k \<le> off va (a + of_nat k)"
proof (rule ccontr)
  have k: "unat (of_nat k :: u64) = k" using assms(2) by (simp add: unat_of_nat)
  assume "\<not> ?thesis"
  then have "off va (a + of_nat k) + k < 2 ^ 64" by simp
  moreover have "off va a = (off va (a + of_nat k) + k) mod 2 ^ 64"
    using unat_plus [of "va - (a + of_nat k)" "of_nat k"] k by (simp add: off_def)
  ultimately show False using assms(1) by simp
qed

lemma put_append:
  assumes "length (xs @ ys) < 2 ^ 64"
  shows "put (put f a xs) (a + of_nat (length xs)) ys = put f a (xs @ ys)"
proof
  fix va
  show "put (put f a xs) (a + of_nat (length xs)) ys va = put f a (xs @ ys) va"
  proof (cases "off va a < length xs")
    case True
    then have "\<not> off va (a + of_nat (length xs)) < length ys"
      using off_before [of va a "length xs"] assms by simp
    then show ?thesis using True by (simp add: put_def nth_append)
  next
    case False
    then show ?thesis using off_shift [of "length xs" va a] by (auto simp: put_def nth_append)
  qed
qed

section \<open>One page\<close>

lemma chunk_nat:
  "unat (chunk va len) = min (4096 - unat va mod 4096) (unat len)"
proof -
  have o: "unat (va - PGROUNDDOWN va) = unat va mod 4096" by (rule page_offset)
  have "va - PGROUNDDOWN va \<le> PGSIZE" using o by (simp add: word_le_nat_alt PGSIZE_def)
  then have "unat (PGSIZE - (va - PGROUNDDOWN va)) = 4096 - unat va mod 4096"
    using o by (simp add: unat_sub) (simp add: PGSIZE_def)
  then show ?thesis by (auto simp: chunk_def Let_def word_less_nat_alt min_def)
qed

lemma in_page:
  assumes "off vb va < k" "unat va mod 4096 + k \<le> 4096"
  shows "PGROUNDDOWN vb = PGROUNDDOWN va" "off vb (PGROUNDDOWN va) = unat va mod 4096 + off vb va"
proof -
  have "off vb (PGROUNDDOWN va) = (off vb va + unat va mod 4096) mod 2 ^ 64"
    using unat_plus [of "vb - va" "va - PGROUNDDOWN va"] by (simp add: off_def page_offset)
  moreover have "off vb va + unat va mod 4096 < 4096" using assms by simp
  ultimately show o: "off vb (PGROUNDDOWN va) = unat va mod 4096 + off vb va" by simp
  show "PGROUNDDOWN vb = PGROUNDDOWN va" using off_page [of "PGROUNDDOWN va" vb] o assms by simp
qed

lemma user_write:
  fixes s :: "'z kmem_scheme"
  assumes v: "vm_inv s R ext" and c: "cow_inv s R" and r: "r \<in> R"
    and e: "valid (pt s r (PGROUNDDOWN va))" "bit (pt s r (PGROUNDDOWN va)) 2" "bit (pt s r (PGROUNDDOWN va)) 4"
    and bs: "unat va mod 4096 + length bs \<le> 4096"
  defines "t \<equiv> s\<lparr>mem := write_bytes (mem s) (PTE2PA (pt s r (PGROUNDDOWN va)) + (va - PGROUNDDOWN va)) bs\<rparr>"
  shows "vm_inv t R ext" "cow_inv t R" "\<And>r'. r' \<in> R \<Longrightarrow> pt t r' = pt s r'"
    "\<And>r'. r' \<in> R \<Longrightarrow> user_byte t r' = (if r' = r then put (user_byte s r) va bs else user_byte s r')"
proof -
  let ?v0 = "PGROUNDDOWN va" and ?p = "PTE2PA (pt s r (PGROUNDDOWN va))"
  have tf: "?v0 < TRAPFRAME" using cow_invD(2) [OF c r e(1)] e(3) by (auto simp: not_le [symmetric])
  note own = pt_owned [OF v r tf e(1)]
  have al: "page_aligned ?p" by simp
  have o: "unat (va - ?v0) = unat va mod 4096" by (rule page_offset)
  have m: "mem t x = (if off x (?p + (va - ?v0)) < length bs then bs ! off x (?p + (va - ?v0)) else mem s x)" for x
    unfolding t_def using bs by (simp add: write_bytes_eq)
  have inp: "PGROUNDDOWN x = ?p" if "off x (?p + (va - ?v0)) < length bs" for x
  proof -
    have "PGROUNDDOWN (?p + (va - ?v0)) = ?p" using al by (rule PGROUNDDOWN_in_page)
    moreover have "unat (?p + (va - ?v0)) mod 4096 = unat va mod 4096"
      using page_offset [of "?p + (va - ?v0)"] calculation o by simp
    ultimately show ?thesis using in_page(1) [OF that] bs by simp
  qed
  have other: "same_page (mem s) (mem t) x" if "x \<noteq> ?p" for x
  proof (rule same_pageI)
    fix b assume "PGROUNDDOWN b = x"
    then have "\<not> off b (?p + (va - ?v0)) < length bs" using inp [of b] that by blast
    then show "mem s b = mem t b" by (simp add: m)
  qed
  have t1: "same_page (mem s) (mem t) x" if "is_table (mem s) R x" for x using that own(2) by (intro other) auto
  have t2: "same_page (mem s) (mem t) x" if "x \<in> avail s" for x using that own(3) by (intro other) auto
  have t': "t = s\<lparr>mem := mem t\<rparr>" by (simp add: t_def)
  have "vm_inv (s\<lparr>mem := mem t\<rparr>) R ext" using v t1 t2 by (rule vm_mem(1))
  then show "vm_inv t R ext" by (simp add: t_def)
  have "pte_at (mem t) r' vb = pte_at (mem s) r' vb" if "r' \<in> R" for r' vb using v t1 t2 that by (rule vm_mem(2))
  then show pt: "pt t r' = pt s r'" if "r' \<in> R" for r' using that by (intro pt_cong) simp
  then show "cow_inv t R" using c cow_inv_cong [of R t s] by simp
  fix r' assume r': "r' \<in> R"
  show "user_byte t r' = (if r' = r then put (user_byte s r) va bs else user_byte s r')"
  proof
    fix vb
    show "user_byte t r' vb = (if r' = r then put (user_byte s r) va bs else user_byte s r') vb"
    proof (cases "r' = r \<and> PGROUNDDOWN vb = ?v0")
      case True
      have "off (?p + (vb - ?v0)) (?p + (va - ?v0)) = off vb va" by (simp add: off_def)
      then show ?thesis using True pt [OF r] e tf
        by (simp add: user_byte_def Let_def flag_bits valid_bit m put_def)
    next
      case False
      have "user_byte t r' vb = user_byte s r' vb"
      proof (rule user_byte_cong [OF _ _ _ _ refl])
        assume b: "PGROUNDDOWN vb < TRAPFRAME" "valid (pt s r' (PGROUNDDOWN vb))"
        have "PTE2PA (pt s r' (PGROUNDDOWN vb)) \<noteq> ?p"
          using cow_invD(3) [OF c r r' tf b(1) e(1,2) b(2)] False by blast
        then show "same_page (mem s) (mem t) (PTE2PA (pt s r' (PGROUNDDOWN vb)))" by (rule other)
      qed (simp_all add: pt [OF r'])
      moreover have "\<not> off vb va < length bs" if "r' = r" using in_page(1) [of vb va "length bs"] bs False that by blast
      ultimately show ?thesis by (simp add: put_def)
    qed
  qed
qed

section \<open>The loop\<close>

definition writable :: "u64 \<Rightarrow> bool" where
  "writable e \<longleftrightarrow> valid e \<and> bit e 2 \<and> bit e 4"

lemma copyout_round:
  fixes s :: "'z ptable_scheme" and dstva :: u64
  assumes v: "vm_inv s R ext" and c: "cow_inv s R" and ex: "\<And>p. 0 \<le> ext p"
    and r: "r \<in> R" "cpu.proc (mycpu s) = Some i" "pagetable (procs s i) = r" and src: "src \<noteq> []"
  defines "va0 \<equiv> PGROUNDDOWN dstva" and "k \<equiv> unat (chunk dstva (of_nat (length src)))"
  shows "\<exists>t. vm_inv t R ext \<and> cow_inv t R \<and> only_mem s t \<and> (\<forall>r'\<in>R. user_byte t r' = user_byte s r') \<and>
    (\<forall>vb. writable (pt s r vb) \<longrightarrow> writable (pt t r vb)) \<and>
    (copyout_loop (Suc n) r dstva src s = Ok (-1) t \<and> \<not> writable (pt s r va0) \<or>
     writable (pt t r va0) \<and> (writable (pt s r va0) \<longrightarrow> t = s) \<and>
     copyout_loop (Suc n) r dstva src s = copyout_loop n r (va0 + PGSIZE) (drop k src)
       (t\<lparr>mem := write_bytes (mem t) (PTE2PA (pt t r va0) + (dstva - va0)) (take k src)\<rparr>))"
proof (cases "va0 < MAXVA \<and> (\<exists>t. node (mem s) r (vpath va0) = Some t) \<and> valid (pt s r va0) \<and> bit (pt s r va0) 4")
  case False
  have "\<not> writable (pt s r va0)" using False by (auto simp: writable_def elim: node_pt)
  moreover have "copyout_loop (Suc n) r dstva src s = Ok (-1) s"
  proof (cases "va0 < MAXVA")
    case False
    then show ?thesis using src by (simp add: copyout_loop.simps [of "Suc n"] Let_def va0_def not_less)
  next
    case mv: True
    then show ?thesis
    proof (cases "node (mem s) r (vpath va0)")
      case None
      then show ?thesis using src mv
        by (simp add: copyout_loop.simps [of "Suc n"] Let_def flip: va0_def) (simp add: walk_lookup not_le [symmetric])
    next
      case (Some t)
      then have "pt s r va0 = ld64 (mem s) (entry t (PX 0 va0))" using mv by (simp add: pt_def pte_at_def va0_def)
      then show ?thesis using src mv Some False
        by (simp add: copyout_loop.simps [of "Suc n"] Let_def walk_lookup load_def flag_bits valid_bit not_le [symmetric]
            flip: va0_def)
    qed
  qed
  ultimately show ?thesis using v c by (intro exI [of _ s]) simp
next
  case True
  then obtain t where t: "va0 < MAXVA" "node (mem s) r (vpath va0) = Some t" "valid (pt s r va0)" "bit (pt s r va0) 4"
    by blast
  let ?a = "entry t (PX 0 va0)"
  have "is_table (mem s) R t" using r(1) t(2) by (intro is_tableI) auto
  then have nz: "?a \<noteq> 0" using entry_nonnull [OF is_table_managed [OF v] vm_invD(1) [OF v] PX_less] by blast
  have w: "walk r va0 False s = Ok ?a s" using t(1,2) by (simp add: walk_lookup not_le [symmetric])
  have l: "load ?a u = Ok (pt u r va0) u" if "node (mem u) r (vpath va0) = Some t" for u :: "'z ptable_scheme"
    using that t(1) by (simp add: load_def pt_def pte_at_def va0_def)
  have run: "copyout_loop (Suc n) r dstva src s =
    bind (if bit (pt s r va0) 2 then ret 0 else CowHandler va0) (\<lambda>rc.
      if rc < 0 then ret (-1)
      else bind (load ?a) (\<lambda>v. sq (modify (\<lambda>s. s\<lparr>mem := write_bytes (mem s) (PTE2PA v + (dstva - va0)) (take k src)\<rparr>))
                    (copyout_loop n r (va0 + PGSIZE) (drop k src)))) s"
    using src t(1,3,4) w l [OF t(2)] nz
    by (simp add: copyout_loop.simps [of "Suc n"] Let_def flag_bits valid_bit not_le [symmetric] cong: if_cong
        flip: va0_def k_def)
  show ?thesis
  proof (cases "bit (pt s r va0) 2")
    case True
    then show ?thesis using run l [OF t(2)] v c t(3,4) by (intro exI [of _ s]) (simp add: writable_def)
  next
    case nw: False
    have pg: "PGROUNDDOWN va0 = va0" unfolding va0_def by (simp add: PGROUNDDOWN_aligned)
    from CowHandler_ok [OF v c r t(1) ex] obtain rc u where u: "CowHandler va0 s = Ok rc u" "vm_inv u R ext" "cow_inv u R"
      "only_mem s u" "\<forall>r'\<in>R. user_byte u r' = user_byte s r'" "\<forall>q. okpath q \<longrightarrow> node (mem u) r q = node (mem s) r q"
      and k: "if \<not> (valid (pt s r va0) \<and> bit (pt s r va0) 4 \<and> bit (pt s r va0) 8) then rc = -1 \<and> u = settle s
        else if avail s = {} then rc = -2 \<and> u = settle s
        else rc = 0 \<and> (\<exists>p\<in>avail s. \<forall>r'\<in>R. pt u r' = (if r' = r then (pt s r)(va0 := fixed (pt s r va0) p) else pt s r'))"
      unfolding pg by blast
    have kp: "writable (pt u r vb)" if "writable (pt s r vb)" for vb
      using k that r(1) nw by (auto simp: writable_def split: if_splits)
    show ?thesis
    proof (cases "rc < 0")
      case True
      then show ?thesis using run u nw kp by (intro exI [of _ u]) (simp add: writable_def)
    next
      case False
      then have "rc = 0" "\<exists>p. pt u r va0 = fixed (pt s r va0) p" using k r(1) by (auto split: if_splits)
      then have "writable (pt u r va0)" using t(3,4) by (auto simp: writable_def valid_fixed fixed_low)
      moreover have "load ?a u = Ok (pt u r va0) u" using u(6) t(2) by (intro l) simp
      ultimately show ?thesis using run u nw \<open>rc = 0\<close> kp by (intro exI [of _ u]) (simp add: writable_def)
    qed
  qed
qed

lemma chunk_facts:
  fixes va :: u64
  assumes "length src < 2 ^ 64"
  defines "k \<equiv> unat (chunk va (of_nat (length src)))"
  shows "unat va mod 4096 + k \<le> 4096" "k \<le> length src" "length src - k \<le> unat va mod 4096 + length src - 4096"
    "k < length src \<Longrightarrow> va + of_nat k = PGROUNDDOWN va + PGSIZE"
    "unat (PGROUNDDOWN va + PGSIZE) mod 4096 = 0"
proof -
  have len: "unat (of_nat (length src) :: u64) = length src" using assms(1) by (simp add: unat_of_nat)
  then have k: "k = min (4096 - unat va mod 4096) (length src)" by (simp add: k_def chunk_nat)
  have "unat va mod 4096 < 4096" by simp
  then show "unat va mod 4096 + k \<le> 4096" "k \<le> length src" "length src - k \<le> unat va mod 4096 + length src - 4096"
    using k by simp_all
  have "unat (PGROUNDDOWN va + PGSIZE) mod 4096 = (unat (PGROUNDDOWN va) + 4096) mod 2 ^ 64 mod 4096"
    by (simp only: unat_plus) (simp add: PGSIZE_def)
  also have "\<dots> = (unat (PGROUNDDOWN va) + 4096) mod 4096" by (rule mod_mod_cancel) simp
  also have "\<dots> = 0" using page_aligned_PGROUNDDOWN [of va] by (simp add: page_aligned_def)
  finally show "unat (PGROUNDDOWN va + PGSIZE) mod 4096 = 0" .
  assume "k < length src"
  then have "chunk va (of_nat (length src)) = PGSIZE - (va - PGROUNDDOWN va)"
    using len by (auto simp: k_def chunk_def Let_def split: if_splits)
  then have "of_nat k = PGSIZE - (va - PGROUNDDOWN va)" unfolding k_def by simp
  then show "va + of_nat k = PGROUNDDOWN va + PGSIZE" by simp
qed

lemma put_chunks:
  assumes "length src < 2 ^ 64" "k \<le> length src" "j \<le> length src - k" "k < length src \<Longrightarrow> a + of_nat k = b"
  shows "put (put f a (take k src)) b (take j (drop k src)) = put f a (take (k + j) src)"
proof (cases "k < length src")
  case True
  have "length (take k src) = k" using assms(2) by simp
  then have "put (put f a (take k src)) b (take j (drop k src)) = put f a (take k src @ take j (drop k src))"
    using put_append [of "take k src" "take j (drop k src)" f a] assms True by simp
  then show ?thesis by (simp add: take_add)
qed (use assms in simp)

lemma copyout_loop_ok:
  fixes s :: "'z ptable_scheme"
  assumes ex: "\<And>p. 0 \<le> ext p" and r: "r \<in> R"
    and "vm_inv s R ext" "cow_inv s R" "cpu.proc (mycpu s) = Some i" "pagetable (procs s i) = r"
    "unat dstva mod 4096 + length src \<le> 4096 * n" "length src < 2 ^ 64"
  shows "\<exists>rc t k. copyout_loop n r dstva src s = Ok rc t \<and> vm_inv t R ext \<and> cow_inv t R \<and> only_mem s t \<and>
    (\<forall>r'\<in>R - {r}. user_byte t r' = user_byte s r') \<and> k \<le> length src \<and>
    user_byte t r = put (user_byte s r) dstva (take k src) \<and> (\<forall>vb. writable (pt s r vb) \<longrightarrow> writable (pt t r vb)) \<and>
    (rc = 0 \<and> k = length src \<or>
     rc = -1 \<and> (\<exists>j<length src. \<not> writable (pt s r (PGROUNDDOWN (dstva + of_nat j)))))"
  using assms(3-)
proof (induction n arbitrary: s dstva src)
  case 0
  then show ?case by (intro exI [of _ 0] exI [of _ s]) (simp add: copyout_loop.simps [of 0])
next
  case (Suc n)
  show ?case
  proof (cases "src = []")
    case True
    then show ?thesis using Suc.prems by (intro exI [of _ 0] exI [of _ s]) (simp add: copyout_loop.simps [of "Suc n"])
  next
    case ne: False
    let ?va0 = "PGROUNDDOWN dstva" and ?k = "unat (chunk dstva (of_nat (length src)))"
    note ck = chunk_facts [OF Suc.prems(6), of dstva]
    obtain t where t: "vm_inv t R ext" "cow_inv t R" "only_mem s t" "\<forall>r'\<in>R. user_byte t r' = user_byte s r'"
      "\<forall>vb. writable (pt s r vb) \<longrightarrow> writable (pt t r vb)"
      and d: "copyout_loop (Suc n) r dstva src s = Ok (-1) t \<and> \<not> writable (pt s r ?va0) \<or>
        writable (pt t r ?va0) \<and> (writable (pt s r ?va0) \<longrightarrow> t = s) \<and>
        copyout_loop (Suc n) r dstva src s = copyout_loop n r (?va0 + PGSIZE) (drop ?k src)
          (t\<lparr>mem := write_bytes (mem t) (PTE2PA (pt t r ?va0) + (dstva - ?va0)) (take ?k src)\<rparr>)"
      using copyout_round [OF Suc.prems(1,2) ex r Suc.prems(3,4) ne, where dstva = dstva and n = n] by blast
    from d show ?thesis
    proof
      assume "copyout_loop (Suc n) r dstva src s = Ok (-1) t \<and> \<not> writable (pt s r ?va0)"
      then show ?thesis using t r ne by (intro exI [of _ "-1"] exI [of _ t] exI [of _ 0]) (auto intro: exI [of _ 0])
    next
      assume a: "writable (pt t r ?va0) \<and> (writable (pt s r ?va0) \<longrightarrow> t = s) \<and>
        copyout_loop (Suc n) r dstva src s = copyout_loop n r (?va0 + PGSIZE) (drop ?k src)
          (t\<lparr>mem := write_bytes (mem t) (PTE2PA (pt t r ?va0) + (dstva - ?va0)) (take ?k src)\<rparr>)"
      let ?t = "t\<lparr>mem := write_bytes (mem t) (PTE2PA (pt t r ?va0) + (dstva - ?va0)) (take ?k src)\<rparr>"
      have w: "valid (pt t r ?va0)" "bit (pt t r ?va0) 2" "bit (pt t r ?va0) 4" using a by (simp_all add: writable_def)
      have len: "unat dstva mod 4096 + length (take ?k src) \<le> 4096" using ck(1,2) by simp
      note uw = user_write [OF t(1,2) r w len]
      have om: "only_mem s ?t" using t(3) only_mem_upd(1) by (rule only_mem_trans)
      note fr = only_mem_ptable [OF om]
      have "\<exists>rc u k. copyout_loop n r (?va0 + PGSIZE) (drop ?k src) ?t = Ok rc u \<and> vm_inv u R ext \<and> cow_inv u R \<and>
        only_mem ?t u \<and> (\<forall>r'\<in>R - {r}. user_byte u r' = user_byte ?t r') \<and> k \<le> length (drop ?k src) \<and>
        user_byte u r = put (user_byte ?t r) (?va0 + PGSIZE) (take k (drop ?k src)) \<and>
        (\<forall>vb. writable (pt ?t r vb) \<longrightarrow> writable (pt u r vb)) \<and>
        (rc = 0 \<and> k = length (drop ?k src) \<or>
         rc = -1 \<and> (\<exists>j<length (drop ?k src). \<not> writable (pt ?t r (PGROUNDDOWN (?va0 + PGSIZE + of_nat j)))))"
        by (rule Suc.IH [OF uw(1,2)]) (use fr Suc.prems(3-6) ck in simp_all)
      then obtain rc u k where u: "copyout_loop n r (?va0 + PGSIZE) (drop ?k src) ?t = Ok rc u" "vm_inv u R ext" "cow_inv u R"
        "only_mem ?t u" "\<forall>r'\<in>R - {r}. user_byte u r' = user_byte ?t r'" "k \<le> length src - ?k"
        "user_byte u r = put (user_byte ?t r) (?va0 + PGSIZE) (take k (drop ?k src))"
        "\<forall>vb. writable (pt ?t r vb) \<longrightarrow> writable (pt u r vb)"
        "rc = 0 \<and> k = length src - ?k \<or>
         rc = -1 \<and> (\<exists>j<length src - ?k. \<not> writable (pt ?t r (PGROUNDDOWN (?va0 + PGSIZE + of_nat j))))"
        unfolding length_drop by blast
      have "user_byte u r = put (user_byte s r) dstva (take (?k + k) src)"
        using u(7) uw(4) [OF r] t(4) r put_chunks [OF Suc.prems(6) ck(2) u(6) ck(4)] by simp
      moreover have "\<exists>j<length src. \<not> writable (pt s r (PGROUNDDOWN (dstva + of_nat j)))" if "rc = -1"
      proof (cases "writable (pt s r ?va0)")
        case True
        obtain j where j: "j < length src - ?k" "\<not> writable (pt ?t r (PGROUNDDOWN (?va0 + PGSIZE + of_nat j)))"
          using u(9) \<open>rc = -1\<close> by auto
        have "dstva + of_nat (?k + j) = ?va0 + PGSIZE + of_nat j" using ck(4) j(1) by (simp add: add.assoc [symmetric])
        moreover have "\<not> writable (pt s r (PGROUNDDOWN (?va0 + PGSIZE + of_nat j)))"
          using j(2) a True uw(3) [OF r] by simp
        ultimately have "\<not> writable (pt s r (PGROUNDDOWN (dstva + of_nat (?k + j))))" by (simp only: not_False_eq_True)
        moreover have "?k + j < length src" using j(1) by simp
        ultimately show ?thesis by blast
      qed (use ne in \<open>auto intro: exI [of _ 0]\<close>)
      moreover have "only_mem s u" using om u(4) by (rule only_mem_trans)
      ultimately show ?thesis
        using a u(1-3,5,6,8,9) ck(2) uw(3,4) t(4,5) r by (intro exI [of _ rc] exI [of _ u] exI [of _ "?k + k"]) auto
    qed
  qed
qed

lemma copyout_ok:
  fixes s :: "'z ptable_scheme"
  assumes "vm_inv s R ext" "cow_inv s R" "\<And>p. 0 \<le> ext p"
    and "cpu.proc (mycpu s) = Some i" "pagetable (procs s i) = r" "r \<in> R" "length src < 2 ^ 64"
  shows "\<exists>rc t k. copyout r dstva src s = Ok rc t \<and> vm_inv t R ext \<and> cow_inv t R \<and> only_mem s t \<and>
    (\<forall>r'\<in>R - {r}. user_byte t r' = user_byte s r') \<and> k \<le> length src \<and>
    user_byte t r = put (user_byte s r) dstva (take k src) \<and> (\<forall>vb. writable (pt s r vb) \<longrightarrow> writable (pt t r vb)) \<and>
    (rc = 0 \<and> k = length src \<or>
     rc = -1 \<and> (\<exists>j<length src. \<not> writable (pt s r (PGROUNDDOWN (dstva + of_nat j)))))"
proof -
  have fuel: "unat dstva mod 4096 + length src \<le> 4096 * (length src div 4096 + 2)"
    using div_mult_mod_eq [of "length src" 4096] mod_less_divisor [of 4096 "length src"]
      mod_less_divisor [of 4096 "unat dstva"] by simp
  show ?thesis unfolding copyout_def by (rule copyout_loop_ok [OF assms(3,6,1,2,4,5) fuel assms(7)])
qed

section \<open>uvmcopy and privacy\<close>

lemma share_small: "unat v < 2 ^ 54 \<Longrightarrow> unat (share v) < 2 ^ 54"
  and cow_small: "unat v < 2 ^ 54 \<Longrightarrow> unat (cow v) < 2 ^ 54"
proof -
  assume v: "unat v < 2 ^ 54"
  show "unat (cow v) < 2 ^ 54"
    using bound_bits [OF v] by (intro bits_bound) (auto simp: bit_cow)
  show "unat (share v) < 2 ^ 54"
    using bound_bits [OF v]
    by (intro bits_bound) (auto simp: share_def PA2PTE_def PTE2PA_def bit_simps pte_simps)
qed

lemma copied_entry:
  assumes c: "copied R old new 0 n s rc t" and r: "r \<in> R"
    and leaf: "\<And>va. page_aligned va \<Longrightarrow> va < n \<Longrightarrow> is_leaf (pt s old va)"
  shows "pt t r va = pt s r va \<or> pt t r va = cow (pt s r va) \<or> \<not> valid (pt t r va) \<or>
    r = new \<and> va < n \<and> valid (pt s old va) \<and> pt t new va = share (pt s old va) \<and> pt t old va = cow (pt s old va)"
proof (cases "r = old \<or> r = new")
  case False
  then show ?thesis using c r by (auto simp: copied_def)
next
  case True
  show ?thesis
  proof (cases "rc = 0")
    case True
    then have "pt t old = on_pages 0 n (\<lambda>va. cow (pt s old va)) (pt s old)"
      "pt t new = on_pages 0 n (\<lambda>va. share (pt s old va)) (pt s new)" using c by (auto simp: copied_def)
    then show ?thesis using \<open>r = old \<or> r = new\<close> leaf [of va] by (auto simp: on_pages_def is_leaf_def)
  next
    case False
    then show ?thesis using c \<open>r = old \<or> r = new\<close> unfolding copied_def by (cases "va < n") auto
  qed
qed

lemma copied_cow_inv:
  assumes c: "copied R old new 0 n s rc t" and R: "old \<in> R" and n: "n \<le> TRAPFRAME" and i: "cow_inv s R"
    and leaf: "\<And>va. page_aligned va \<Longrightarrow> va < n \<Longrightarrow> is_leaf (pt s old va)"
  shows "cow_inv t R"
proof -
  have e: "pt t r va = pt s r va \<or> pt t r va = cow (pt s r va) \<or> \<not> valid (pt t r va) \<or>
    r = new \<and> va < n \<and> valid (pt s old va) \<and> pt t new va = share (pt s old va) \<and> pt t old va = cow (pt s old va)"
    if "r \<in> R" for r va
    using c that leaf by (rule copied_entry)
  have now: "pt t r va = pt s r va" if "r \<in> R" "valid (pt t r va)" "bit (pt t r va) 2" for r va
    using e [OF that(1), of va] that(2,3) share_bits [of "pt s old va" 2] by auto
  have "r2 = r1 \<and> v2 = v1"
    if a: "r1 \<in> R" "r2 \<in> R" "v1 < TRAPFRAME" "v2 < TRAPFRAME" "valid (pt t r1 v1)" "bit (pt t r1 v1) 2"
      "valid (pt t r2 v2)" "PTE2PA (pt t r2 v2) = PTE2PA (pt t r1 v1)" for r1 r2 v1 v2
  proof -
    note n = now [OF a(1,5,6)]
    note inj = cow_invD(3) [OF i a(1) _ a(3,4)]
    have "valid (pt s r2 v2) \<and> PTE2PA (pt t r2 v2) = PTE2PA (pt s r2 v2) \<or>
      valid (pt s old v2) \<and> PTE2PA (pt t r2 v2) = PTE2PA (pt s old v2) \<and> \<not> bit (pt t old v2) 2"
      using e [OF a(2), of v2]
    proof (elim disjE)
      assume "pt t r2 v2 = pt s r2 v2"
      then show ?thesis using a(7) by simp
    next
      assume "pt t r2 v2 = cow (pt s r2 v2)"
      then show ?thesis using a(7) by simp
    next
      assume "r2 = new \<and> v2 < n \<and> valid (pt s old v2) \<and> pt t new v2 = share (pt s old v2) \<and> pt t old v2 = cow (pt s old v2)"
      then show ?thesis by simp
    qed (use a(7) in blast)
    then show ?thesis
    proof
      assume "valid (pt s r2 v2) \<and> PTE2PA (pt t r2 v2) = PTE2PA (pt s r2 v2)"
      then show ?thesis by (intro inj [OF a(2)]) (use a(5,6,8) n in simp_all)
    next
      assume o: "valid (pt s old v2) \<and> PTE2PA (pt t r2 v2) = PTE2PA (pt s old v2) \<and> \<not> bit (pt t old v2) 2"
      then have "old = r1 \<and> v2 = v1" by (intro inj [OF R]) (use a(5,6,8) n in simp_all)
      then show ?thesis using o a(6) by simp
    qed
  qed
  moreover have "unat (pt t r va) < 2 ^ 54 \<and> (TRAPFRAME \<le> va \<longrightarrow> \<not> bit (pt t r va) 4)"
    if "r \<in> R" "valid (pt t r va)" for r va
    using e [OF that(1), of va] that(2) cow_invD(1,2) [OF i that(1), of va] cow_invD(1) [OF i R, of va]
      cow_small [of "pt s r va"] share_small [of "pt s old va"] n by auto
  ultimately show ?thesis unfolding cow_inv_def by blast
qed

section \<open>Properties\<close>

text \<open>
  C1: copyout of bytes to the address space of the process that runs. It returns and keeps
  the invariants of tables, counts and privacy. No other address space reads a different
  byte. When it gives 0 the bytes from dstva on are the bytes given and every other byte of
  the address space is unchanged; when it gives -1 a prefix of them has been written, and
  some page of the range was not mapped writable for the user at the call.
\<close>

theorem copyout_writes_one_space:
  fixes s :: "'z ptable_scheme"
  assumes "vm_inv s R ext" "cow_inv s R" "\<And>p. 0 \<le> ext p"
    and "cpu.proc (mycpu s) = Some i" "pagetable (procs s i) = r" "r \<in> R" "length src < 2 ^ 64"
  shows "\<exists>rc t k. copyout r dstva src s = Ok rc t \<and> vm_inv t R ext \<and> cow_inv t R \<and>
    (\<forall>r'\<in>R - {r}. user_byte t r' = user_byte s r') \<and>
    (\<forall>va. user_byte t r va = (if unat (va - dstva) < k then Some (src ! unat (va - dstva)) else user_byte s r va)) \<and>
    (rc = 0 \<and> k = length src \<or>
     rc = -1 \<and> k \<le> length src \<and>
     (\<exists>j<length src. let e = pt s r (PGROUNDDOWN (dstva + of_nat j)) in
        e AND PTE_V = 0 \<or> e AND PTE_U = 0 \<or> e AND PTE_W = 0))"
proof -
  from copyout_ok [OF assms, of dstva] obtain rc t k where
    t: "copyout r dstva src s = Ok rc t" "vm_inv t R ext" "cow_inv t R" "\<forall>r'\<in>R - {r}. user_byte t r' = user_byte s r'"
      "k \<le> length src" "user_byte t r = put (user_byte s r) dstva (take k src)"
      "rc = 0 \<and> k = length src \<or>
       rc = -1 \<and> (\<exists>j<length src. \<not> writable (pt s r (PGROUNDDOWN (dstva + of_nat j))))" by blast
  then show ?thesis
    by (intro exI [of _ rc] exI [of _ t] exI [of _ k]) (auto simp: put_def off_def Let_def writable_def flag_bits valid_bit)
qed

theorem copyout_writes_one_space_witness:
  "\<exists>(s :: ptable) R r rc t. vm_inv s R (\<lambda>_. 0) \<and> pt s r 0 AND PTE_W = 0 \<and> copyout r 4090 [1, 2, 3] s = Ok rc t \<and>
    vm_inv t R (\<lambda>_. 0) \<and> cow_inv t R"
proof -
  from cow_machine obtain s :: ptable and R r where
    s: "vm_inv s R (\<lambda>_. 0)" "cow_inv s R" "cpu.proc (mycpu s) = Some 0" "pagetable (procs s 0) = r" "r \<in> R"
      "\<not> bit (pt s r 0) 2" by blast
  have "\<exists>rc t. copyout r 4090 [1, 2, 3] s = Ok rc t \<and> vm_inv t R (\<lambda>_. 0) \<and> cow_inv t R"
    using copyout_writes_one_space [OF s(1,2) _ s(3-5), of "[1, 2, 3]" 4090] by auto
  then show ?thesis using s(1,6) unfolding flag_bits by blast
qed

text \<open>
  C19: fork's copy of the address space keeps privacy: when every page that some address
  space can write is mapped once, the same holds after uvmcopy, on success and on failure.
\<close>

theorem uvmcopy_keeps_privacy:
  assumes "vm_inv s R ext" "cow_inv s R" "old \<in> R" "new \<in> R" "old \<noteq> new"
    and "\<And>p. 0 \<le> ext p" "\<And>p. ext p < 2 ^ 31" and "n \<le> TRAPFRAME"
    and "\<And>va. page_aligned va \<Longrightarrow> va < n \<Longrightarrow> is_leaf (pt s old va) \<and> \<not> valid (pt s new va)"
  shows "\<exists>rc t. uvmcopy old new n s = Ok rc t \<and> cow_inv t R"
proof -
  have "unat n \<le> unat (0 :: u64) + 4096 * (unat n div 4096 + 1)"
    using div_mult_mod_eq [of "unat n" 4096] mod_less_divisor [of 4096 "unat n"] by simp
  moreover have "page_aligned 0" by (simp add: page_aligned_def)
  ultimately obtain rc t where c: "uvmcopy old new n s = Ok rc t" "copied R old new 0 n s rc t"
    using uvmcopy_loop_ok [OF assms(3-8,1), of 0 "unat n div 4096 + 1"] assms(9) by (auto simp: uvmcopy_def)
  have "cow_inv t R" using c(2) assms(3,8,2) by (rule copied_cow_inv) (use assms(9) in blast)
  then show ?thesis using c(1) by blast
qed

theorem uvmcopy_keeps_privacy_witness:
  "\<exists>(s :: kmem) R old new rc t. cow_inv s R \<and> is_leaf (pt s old 0) \<and> pt s old 0 AND PTE_W \<noteq> 0 \<and>
    uvmcopy old new 4096 s = Ok rc t \<and> cow_inv t R"
proof -
  from two_spaces obtain s :: kmem and R old new p where
    s: "vm_inv s R (\<lambda>_. 0)" "R = {old, new}" "old \<in> R" "new \<in> R" "old \<noteq> new" "\<forall>va. pt s new va = 0"
      "is_leaf (pt s old 0)" "bit (pt s old 0) 2" "\<forall>va. va \<noteq> 0 \<longrightarrow> pt s old va = 0"
      "pt s old 0 = PA2PTE p OR (PTE_R OR PTE_U OR PTE_W) OR PTE_V" "managed s p" by blast
  have "unat (pt s old 0) < 2 ^ 54"
    using PA2PTE_small [of p "(PTE_R OR PTE_U OR PTE_W) OR PTE_V"] s(10,11) by (simp add: managed_def flag_defs)
  with s(2) _ _ have c: "cow_inv s R" by (rule cow_inv_single) (use s(6,9) in \<open>auto simp: fun_eq_iff\<close>)
  have "\<exists>rc t. uvmcopy old new 4096 s = Ok rc t \<and> cow_inv t R"
    using s(1) c s(3-5) by (rule uvmcopy_keeps_privacy)
      (use s(6,7) aligned_below_page in \<open>auto simp: TRAPFRAME_eq\<close>)
  then show ?thesis using c s(7,8) unfolding flag_bits by blast
qed

end
