(* ===== verification/Sleeplock.thy ===== *)
theory Sleeplock
  imports Copyout
begin

text \<open>
  \<^verbatim>\<open>kernel/sleeplock.c\<close>. A sleep lock is named by the spinlock inside it
  (\<^verbatim>\<open>lk->lk\<close>). From here on a routine that sleeps is one call: nobody else runs in
  the sequential model, so a call of sleep does not come back.
\<close>

section \<open>State and routines\<close>

record sleeplock =
  slocked :: u32
  sname :: string
  spid :: u32

record sleepers = ptable +
  sleeplks :: "lockid \<Rightarrow> sleeplock"

definition sleep :: "channel \<Rightarrow> lockid \<Rightarrow> ('z ptable_scheme, unit) routine" where
  "sleep c lk = sq (sleep_out c lk) diverge"

definition upd_sleeplk :: "lockid \<Rightarrow> (sleeplock \<Rightarrow> sleeplock) \<Rightarrow> ('z sleepers_scheme, unit) routine" where
  "upd_sleeplk lk f = modify (\<lambda>s. s\<lparr>sleeplks := (sleeplks s)(lk := f (sleeplks s lk))\<rparr>)"

definition initsleeplock :: "lockid \<Rightarrow> string \<Rightarrow> ('z sleepers_scheme, unit) routine" where
  "initsleeplock lk n =
     sq (initlock lk ''sleep lock'')
        (upd_sleeplk lk (\<lambda>l. l\<lparr>sname := n, slocked := 0, spid := 0\<rparr>))"

definition acquiresleep :: "lockid \<Rightarrow> ('z sleepers_scheme, unit) routine" where
  "acquiresleep lk =
     sq (acquire lk)
     (bind (gets (\<lambda>s. slocked (sleeplks s lk))) (\<lambda>l.
     sq (if l \<noteq> 0 then sleep (SleeplockChan lk) lk else ret ())
     (sq (upd_sleeplk lk (\<lambda>l. l\<lparr>slocked := 1\<rparr>))
     (bind this_proc (\<lambda>p.
     bind (gets (\<lambda>s. pid (procs s p))) (\<lambda>i.
     sq (upd_sleeplk lk (\<lambda>l. l\<lparr>spid := i\<rparr>))
        (release lk)))))))"

definition releasesleep :: "lockid \<Rightarrow> ('z sleepers_scheme, unit) routine" where
  "releasesleep lk =
     sq (acquire lk)
     (sq (upd_sleeplk lk (\<lambda>l. l\<lparr>slocked := 0\<rparr>))
     (sq (upd_sleeplk lk (\<lambda>l. l\<lparr>spid := 0\<rparr>))
     (sq (wakeup (SleeplockChan lk))
         (release lk))))"

definition holdingsleep :: "lockid \<Rightarrow> ('z sleepers_scheme, bool) routine" where
  "holdingsleep lk =
     sq (acquire lk)
     (bind (gets (\<lambda>s. sleeplks s lk)) (\<lambda>l.
     bind (if slocked l \<noteq> 0
           then bind this_proc (\<lambda>p. gets (\<lambda>s. spid l = pid (procs s p)))
           else ret False) (\<lambda>r.
     sq (release lk) (ret r))))"

section \<open>Updates commute with taking locks\<close>

lemma settle_sleepers [simp]: "(settle s)\<lparr>sleeplks := a\<rparr> = settle (s\<lparr>sleeplks := a\<rparr>)"
  by (simp add: settle_def mycpu_def intr_get_def)

lemma enter_sleepers [simp]: "(enter lk s)\<lparr>sleeplks := a\<rparr> = enter lk (s\<lparr>sleeplks := a\<rparr>)"
  by (simp add: enter_def mycpu_def intr_get_def w_sstatus_def)

lemma sleepers_settle [simp, frame_simps]: "sleeplks (settle s) = sleeplks s"
  by (simp add: settle_def)

lemma sleepers_enter [simp, frame_simps]: "sleeplks (enter lk s) = sleeplks s"
  by (simp add: enter_def w_sstatus_def)

lemma machine_sleepers [simp]:
  "lock_free lk (s\<lparr>sleeplks := a\<rparr>) = lock_free lk s" "cpu_ok (s\<lparr>sleeplks := a\<rparr>) = cpu_ok s"
  "mycpu (s\<lparr>sleeplks := a\<rparr>) = mycpu s" "procs_free (s\<lparr>sleeplks := a\<rparr>) = procs_free s"
  by (simp_all add: lock_free_def cpu_ok_def mycpu_def intr_get_def procs_free_def)

section \<open>Calm states\<close>

text \<open>
  Between two routines of a system call no spinlock is held and some process runs.
  \<open>calm s t\<close>: the state \<open>t\<close> is \<open>s\<close> but for the field intena of the executing
  hart and for sleepers that have been made runnable.
\<close>

definition sys_ok :: "'z ptable_scheme \<Rightarrow> bool" where
  "sys_ok s \<longleftrightarrow> cpu_ok s \<and> (\<forall>lk. lock_free lk s) \<and> (\<exists>p. cpu.proc (mycpu s) = Some p)"

definition curpid :: "'z ptable_scheme \<Rightarrow> u32" where
  "curpid s = pid (procs s (the (cpu.proc (mycpu s))))"

definition calm :: "'z ptable_scheme \<Rightarrow> 'z ptable_scheme \<Rightarrow> bool" where
  "calm s t \<longleftrightarrow> settle t = settle (s\<lparr>procs := procs t\<rparr>) \<and>
     (\<forall>p. procs t p = procs s p \<or> state (procs s p) = SLEEPING \<and> procs t p = (procs s p)\<lparr>state := RUNNABLE\<rparr>)"

lemma calm_refl [simp]: "calm s s"
  by (simp add: calm_def)

lemma calm_settle [simp]: "calm s (settle s)"
  by (simp add: calm_def)

lemma calm_trans:
  assumes "calm s t" "calm t u"
  shows "calm s u"
proof -
  have "settle u = settle (t\<lparr>procs := procs u\<rparr>)" using assms(2) by (simp add: calm_def)
  also have "\<dots> = (settle t)\<lparr>procs := procs u\<rparr>" by simp
  also have "\<dots> = (settle (s\<lparr>procs := procs t\<rparr>))\<lparr>procs := procs u\<rparr>" using assms(1) by (simp add: calm_def)
  also have "\<dots> = settle (s\<lparr>procs := procs u\<rparr>)" by simp
  finally have e: "settle u = settle (s\<lparr>procs := procs u\<rparr>)" .
  have "procs u p = procs s p \<or> state (procs s p) = SLEEPING \<and> procs u p = (procs s p)\<lparr>state := RUNNABLE\<rparr>" for p
  proof -
    have "procs t p = procs s p \<or> state (procs s p) = SLEEPING \<and> procs t p = (procs s p)\<lparr>state := RUNNABLE\<rparr>"
      "procs u p = procs t p \<or> state (procs t p) = SLEEPING \<and> procs u p = (procs t p)\<lparr>state := RUNNABLE\<rparr>"
      using assms unfolding calm_def by blast+
    then show ?thesis by auto
  qed
  with e show ?thesis by (simp add: calm_def)
qed

lemma calm_fields:
  assumes "calm s t"
  shows "cpu.proc (mycpu t) = cpu.proc (mycpu s)" "noff (mycpu t) = noff (mycpu s)" "locks t = locks s" "tp t = tp s"
    "harts t = harts s" "mem t = mem s" "freelist t = freelist s" "pgref t = pgref s" "kernel_end t = kernel_end s"
    "nextpid t = nextpid s" "initproc t = initproc s" "ticks t = ticks s" "ptable.more t = ptable.more s"
    "pid (procs t p) = pid (procs s p)" "pagetable (procs t p) = pagetable (procs s p)"
proof -
  have e: "settle t = settle (s\<lparr>procs := procs t\<rparr>)" using assms by (simp add: calm_def)
  have mc: "mycpu (settle x) = (mycpu x)\<lparr>intena := if noff (mycpu x) = 0 then intr_get x else intena (mycpu x)\<rparr>" for x :: "'a ptable_scheme"
    by (simp add: settle_def mycpu_def)
  show "cpu.proc (mycpu t) = cpu.proc (mycpu s)" "noff (mycpu t) = noff (mycpu s)"
    using arg_cong [OF e, of "\<lambda>x. cpu.proc (mycpu x)"] arg_cong [OF e, of "\<lambda>x. noff (mycpu x)"] by simp_all
  show "locks t = locks s" "tp t = tp s" "harts t = harts s" "mem t = mem s" "freelist t = freelist s" "pgref t = pgref s"
    "kernel_end t = kernel_end s" "nextpid t = nextpid s" "initproc t = initproc s" "ticks t = ticks s"
    using arg_cong [OF e, of locks] arg_cong [OF e, of tp] arg_cong [OF e, of harts] arg_cong [OF e, of mem]
      arg_cong [OF e, of freelist] arg_cong [OF e, of pgref] arg_cong [OF e, of kernel_end] arg_cong [OF e, of nextpid]
      arg_cong [OF e, of initproc] arg_cong [OF e, of ticks] by simp_all
  show "ptable.more t = ptable.more s" using arg_cong [OF e, of ptable.more] by (simp add: settle_def)
  have "procs t p = procs s p \<or> procs t p = (procs s p)\<lparr>state := RUNNABLE\<rparr>" using assms by (auto simp: calm_def)
  then show "pid (procs t p) = pid (procs s p)" "pagetable (procs t p) = pagetable (procs s p)" by auto
qed

lemma calm_sys_ok: "calm s t \<Longrightarrow> sys_ok s \<Longrightarrow> sys_ok t"
  using calm_fields [of s t] by (simp add: sys_ok_def cpu_ok_def lock_free_def intr_get_def)

lemma calm_curpid: "calm s t \<Longrightarrow> curpid t = curpid s"
  using calm_fields(1,14) [of s t] by (simp add: curpid_def)

text \<open>A part of the state that settling and waking do not touch, and an update of such a part.\<close>

lemma calm_get:
  assumes "calm s t" "\<And>x. g (settle x) = g x" "\<And>x p. g (x\<lparr>procs := p\<rparr>) = g x"
  shows "g t = g s"
proof -
  have "g (settle t) = g (settle (s\<lparr>procs := procs t\<rparr>))" using assms(1) by (simp add: calm_def)
  then show ?thesis using assms(2,3) by simp
qed

lemma calm_map:
  assumes "calm s t" "\<And>x. f (settle x) = settle (f x)" "\<And>x p. f (x\<lparr>procs := p\<rparr>) = (f x)\<lparr>procs := p\<rparr>"
    "\<And>x. procs (f x) = procs x"
  shows "calm (f s) (f t)"
proof -
  have "settle t = settle (s\<lparr>procs := procs t\<rparr>)" using assms(1) by (simp add: calm_def)
  then have "f (settle t) = f (settle (s\<lparr>procs := procs t\<rparr>))" by simp
  then show ?thesis using assms by (simp add: calm_def)
qed

lemma calm_sleeplks: "calm s t \<Longrightarrow> sleeplks t = sleeplks s"
  by (erule calm_get) simp_all

lemma calm_upd_sleeplks: "calm s t \<Longrightarrow> calm (s\<lparr>sleeplks := a\<rparr>) (t\<lparr>sleeplks := a\<rparr>)"
  by (erule calm_map) simp_all

lemma sys_ok_sleepers [simp]:
  "sys_ok (s\<lparr>sleeplks := a\<rparr>) = sys_ok s" "curpid (s\<lparr>sleeplks := a\<rparr>) = curpid s"
  by (simp_all add: sys_ok_def curpid_def)

lemma sys_okD:
  assumes "sys_ok s"
  shows "cpu_ok s" "lock_free lk s" "\<exists>p. cpu.proc (mycpu s) = Some p \<and> pid (procs s p) = curpid s" "procs_free s"
  using assms by (auto simp: sys_ok_def curpid_def procs_free_def)

lemma calm_woken: "calm s (settle (s\<lparr>procs := \<lambda>p. if p < NPROC then woken c me p (procs s p) else procs s p\<rparr>))"
  by (auto simp: calm_def woken_def)

section \<open>Running the routines\<close>

lemma acquiresleep_run:
  assumes "sys_ok s" "slocked (sleeplks s lk) = 0"
  shows "\<exists>t. acquiresleep lk s = Ok () t \<and>
    calm (s\<lparr>sleeplks := (sleeplks s)(lk := (sleeplks s lk)\<lparr>slocked := 1, spid := curpid s\<rparr>)\<rparr>) t"
proof -
  note ok = sys_okD [OF assms(1)]
  obtain p where p: "cpu.proc (mycpu s) = Some p" "pid (procs s p) = curpid s" using ok(3) by blast
  have "acquiresleep lk s = Ok () (settle (s\<lparr>sleeplks := (sleeplks s)(lk := (sleeplks s lk)\<lparr>slocked := 1, spid := curpid s\<rparr>)\<rparr>))"
    using ok p assms(2)
    by (simp add: acquiresleep_def acquire_run upd_sleeplk_def this_proc_run release_enter)
  then show ?thesis by (metis calm_settle)
qed

lemma holdingsleep_run:
  assumes "sys_ok s"
  shows "holdingsleep lk s = Ok (slocked (sleeplks s lk) \<noteq> 0 \<and> spid (sleeplks s lk) = curpid s) (settle s)"
proof -
  note ok = sys_okD [OF assms]
  obtain p where p: "cpu.proc (mycpu s) = Some p" "pid (procs s p) = curpid s" using ok(3) by blast
  show ?thesis
    using ok p by (cases "slocked (sleeplks s lk) = 0") (simp_all add: holdingsleep_def acquire_run this_proc_run release_enter ret_bind)
qed

lemma wake_release:
  assumes "sys_ok s" "\<And>p. lk \<noteq> ProcLock p"
  shows "\<exists>t. sq (wakeup c) (release lk) (enter lk s) = Ok () t \<and> calm s t"
proof -
  note ok = sys_okD [OF assms(1)]
  have pf: "procs_free (enter lk s)" using ok(4) assms(2) by simp
  have "sq (wakeup c) (release lk) (enter lk s) = Ok () (settle (s\<lparr>procs := \<lambda>p. if p < NPROC
      then woken c (cpu.proc (mycpu s)) p (procs s p) else procs s p\<rparr>))"
    using ok pf by (simp add: wakeup_run release_enter cong: if_cong)
  then show ?thesis using calm_woken by blast
qed

lemma releasesleep_run:
  assumes "sys_ok s" "\<And>p. lk \<noteq> ProcLock p"
  shows "\<exists>t. releasesleep lk s = Ok () t \<and>
    calm (s\<lparr>sleeplks := (sleeplks s)(lk := (sleeplks s lk)\<lparr>slocked := 0, spid := 0\<rparr>)\<rparr>) t"
proof -
  note ok = sys_okD [OF assms(1)]
  let ?s = "s\<lparr>sleeplks := (sleeplks s)(lk := (sleeplks s lk)\<lparr>slocked := 0, spid := 0\<rparr>)\<rparr>"
  have pf: "procs_free (enter lk ?s)" using ok(4) assms(2) by simp
  have "releasesleep lk s = Ok () (settle (?s\<lparr>procs := \<lambda>p. if p < NPROC
      then woken (SleeplockChan lk) (cpu.proc (mycpu s)) p (procs s p) else procs s p\<rparr>))"
    using ok pf
    by (simp add: releasesleep_def acquire_run upd_sleeplk_def wakeup_run release_enter cong: if_cong)
  moreover have "calm ?s (settle (?s\<lparr>procs := \<lambda>p. if p < NPROC
      then woken (SleeplockChan lk) (cpu.proc (mycpu s)) p (procs ?s p) else procs ?s p\<rparr>))" by (rule calm_woken)
  ultimately show ?thesis by (auto cong: if_cong)
qed

lemma acquiresleep_blocks:
  assumes "sys_ok s" "slocked (sleeplks s lk) \<noteq> 0"
  shows "\<nexists>t. acquiresleep lk s = Ok () t"
  using assms sys_okD [OF assms(1)]
  by (auto simp: acquiresleep_def acquire_run sleep_def sq_eq_Ok bind_eq_Ok)

end
