(* ===== verification/Bio.thy ===== *)
theory Bio
  imports Sleeplock
begin

text \<open>
  The buffer cache, \<^verbatim>\<open>kernel/bio.c\<close>. The buffers \<^verbatim>\<open>bcache.buf[0]\<close> to
  \<^verbatim>\<open>bcache.buf[NBUF-1]\<close> are the indices below \<open>NBUF\<close>, and
  \<^verbatim>\<open>bcache.head\<close> is the index \<open>NBUF\<close>; prev and next are indices. The disk is
  what it held at power-on and the sequence of block writes it has been given since, so
  that a crash after any of them can be talked about.

  The driver is seen from its caller: \<open>disk_rw\<close> is virtio_disk_rw once the device has
  served the request. The theory Virtio has the driver and the device.
\<close>

section \<open>State\<close>

definition BSIZE :: nat where "BSIZE = 1024"

record buf =
  bvalid :: bool
  bdisk :: bool
  bdev :: u32
  bblockno :: u32
  brefcnt :: u32
  bprev :: nat
  bnext :: nat
  bdata :: "u8 list"

type_synonym blocks = "nat \<Rightarrow> u8 list"

record bcache = sleepers +
  bufs :: "nat \<Rightarrow> buf"
  disk_init :: blocks
  disk_writes :: "(nat \<times> u8 list) list"

text \<open>The disk after a sequence of writes.\<close>

definition after_writes :: "(nat \<times> u8 list) list \<Rightarrow> blocks \<Rightarrow> blocks" where
  "after_writes ws d = fold (\<lambda>(n, b) d. d(n := b)) ws d"

definition disk :: "'z bcache_scheme \<Rightarrow> blocks" where
  "disk s = after_writes (disk_writes s) (disk_init s)"

section \<open>Routines\<close>

definition upd_buf :: "nat \<Rightarrow> (buf \<Rightarrow> buf) \<Rightarrow> ('z bcache_scheme, unit) routine" where
  "upd_buf b f = modify (\<lambda>s. s\<lparr>bufs := (bufs s)(b := f (bufs s b))\<rparr>)"

definition disk_rw :: "nat \<Rightarrow> bool \<Rightarrow> ('z bcache_scheme, unit) routine" where
  "disk_rw b write =
     bind (gets (\<lambda>s. bufs s b)) (\<lambda>r.
     if write then modify (\<lambda>s. s\<lparr>disk_writes := disk_writes s @ [(unat (bblockno r), bdata r)]\<rparr>)
     else bind (gets disk) (\<lambda>d. upd_buf b (\<lambda>r. r\<lparr>bdata := d (unat (bblockno r))\<rparr>)))"

text \<open>\<^verbatim>\<open>b->next = head.next; b->prev = head; head.next->prev = b; head.next = b\<close>\<close>

definition link_front :: "nat \<Rightarrow> ('z bcache_scheme, unit) routine" where
  "link_front b =
     bind (gets (\<lambda>s. bnext (bufs s NBUF))) (\<lambda>f.
     sq (upd_buf b (\<lambda>r. r\<lparr>bnext := f, bprev := NBUF\<rparr>))
     (bind (gets (\<lambda>s. bnext (bufs s NBUF))) (\<lambda>f.
     sq (upd_buf f (\<lambda>r. r\<lparr>bprev := b\<rparr>))
        (upd_buf NBUF (\<lambda>r. r\<lparr>bnext := b\<rparr>)))))"

text \<open>\<^verbatim>\<open>b->next->prev = b->prev; b->prev->next = b->next\<close>\<close>

definition unlink :: "nat \<Rightarrow> ('z bcache_scheme, unit) routine" where
  "unlink b =
     bind (gets (\<lambda>s. bufs s b)) (\<lambda>r.
     sq (upd_buf (bnext r) (\<lambda>q. q\<lparr>bprev := bprev r\<rparr>))
     (bind (gets (\<lambda>s. bufs s b)) (\<lambda>r.
     upd_buf (bprev r) (\<lambda>q. q\<lparr>bnext := bnext r\<rparr>))))"

text \<open>One turn of the loop of binit.\<close>

definition binit_one :: "nat \<Rightarrow> ('z bcache_scheme, unit) routine" where
  "binit_one b =
     bind (gets (\<lambda>s. bnext (bufs s NBUF))) (\<lambda>f.
     sq (upd_buf b (\<lambda>r. r\<lparr>bnext := f, bprev := NBUF\<rparr>))
     (sq (initsleeplock (BufSleepLock b) ''buffer'')
     (bind (gets (\<lambda>s. bnext (bufs s NBUF))) (\<lambda>f.
     sq (upd_buf f (\<lambda>r. r\<lparr>bprev := b\<rparr>))
        (upd_buf NBUF (\<lambda>r. r\<lparr>bnext := b\<rparr>))))))"

definition binit :: "('z bcache_scheme, unit) routine" where
  "binit =
     sq (initlock BcacheLock ''bcache'')
     (sq (upd_buf NBUF (\<lambda>r. r\<lparr>bprev := NBUF, bnext := NBUF\<rparr>))
         (for_each [0..<NBUF] binit_one))"

text \<open>The two searches of bget; the list has NBUF elements, which bounds the steps.\<close>

fun find_cached :: "nat \<Rightarrow> u32 \<Rightarrow> u32 \<Rightarrow> nat \<Rightarrow> ('z bcache_scheme, nat option) routine" where
  "find_cached n dev blockno b =
     (if b = NBUF then ret None
      else case n of 0 \<Rightarrow> diverge | Suc n \<Rightarrow>
        bind (gets (\<lambda>s. bufs s b)) (\<lambda>r.
        if bdev r = dev \<and> bblockno r = blockno then ret (Some b)
        else find_cached n dev blockno (bnext r)))"

fun find_unused_buf :: "nat \<Rightarrow> nat \<Rightarrow> ('z bcache_scheme, nat option) routine" where
  "find_unused_buf n b =
     (if b = NBUF then ret None
      else case n of 0 \<Rightarrow> diverge | Suc n \<Rightarrow>
        bind (gets (\<lambda>s. bufs s b)) (\<lambda>r.
        if brefcnt r = 0 then ret (Some b)
        else find_unused_buf n (bprev r)))"

declare find_cached.simps [simp del] find_unused_buf.simps [simp del]

definition bget :: "u32 \<Rightarrow> u32 \<Rightarrow> ('z bcache_scheme, nat) routine" where
  "bget dev blockno =
     sq (acquire BcacheLock)
     (bind (gets (\<lambda>s. bnext (bufs s NBUF))) (\<lambda>b0.
     bind (find_cached NBUF dev blockno b0) (\<lambda>found.
     case found of
       Some b \<Rightarrow>
         sq (upd_buf b (\<lambda>r. r\<lparr>brefcnt := brefcnt r + 1\<rparr>))
         (sq (release BcacheLock)
         (sq (acquiresleep (BufSleepLock b)) (ret b)))
     | None \<Rightarrow>
         bind (gets (\<lambda>s. bprev (bufs s NBUF))) (\<lambda>b0.
         bind (find_unused_buf NBUF b0) (\<lambda>found.
         case found of
           Some b \<Rightarrow>
             sq (upd_buf b (\<lambda>r. r\<lparr>bdev := dev, bblockno := blockno, bvalid := False, brefcnt := 1\<rparr>))
             (sq (release BcacheLock)
             (sq (acquiresleep (BufSleepLock b)) (ret b)))
         | None \<Rightarrow> panic ''bget: no buffers'')))))"

definition bread :: "u32 \<Rightarrow> u32 \<Rightarrow> ('z bcache_scheme, nat) routine" where
  "bread dev blockno =
     bind (bget dev blockno) (\<lambda>b.
     bind (gets (\<lambda>s. bvalid (bufs s b))) (\<lambda>v.
     sq (if \<not> v then sq (disk_rw b False) (upd_buf b (\<lambda>r. r\<lparr>bvalid := True\<rparr>)) else ret ())
        (ret b)))"

definition bwrite :: "nat \<Rightarrow> ('z bcache_scheme, unit) routine" where
  "bwrite b =
     bind (holdingsleep (BufSleepLock b)) (\<lambda>h.
     sq (panic_if (\<not> h) ''bwrite'') (disk_rw b True))"

definition brelse :: "nat \<Rightarrow> ('z bcache_scheme, unit) routine" where
  "brelse b =
     bind (holdingsleep (BufSleepLock b)) (\<lambda>h.
     sq (panic_if (\<not> h) ''brelse'')
     (sq (releasesleep (BufSleepLock b))
     (sq (acquire BcacheLock)
     (sq (upd_buf b (\<lambda>r. r\<lparr>brefcnt := brefcnt r - 1\<rparr>))
     (bind (gets (\<lambda>s. brefcnt (bufs s b))) (\<lambda>n.
     sq (if n = 0 then sq (unlink b) (link_front b) else ret ())
        (release BcacheLock)))))))"

definition bpin :: "nat \<Rightarrow> ('z bcache_scheme, unit) routine" where
  "bpin b =
     sq (acquire BcacheLock)
     (sq (upd_buf b (\<lambda>r. r\<lparr>brefcnt := brefcnt r + 1\<rparr>)) (release BcacheLock))"

definition bunpin :: "nat \<Rightarrow> ('z bcache_scheme, unit) routine" where
  "bunpin b =
     sq (acquire BcacheLock)
     (sq (upd_buf b (\<lambda>r. r\<lparr>brefcnt := brefcnt r - 1\<rparr>)) (release BcacheLock))"

section \<open>Updates commute with taking locks\<close>

lemma settle_bcache [simp]:
  "(settle s)\<lparr>bufs := a\<rparr> = settle (s\<lparr>bufs := a\<rparr>)"
  "(settle s)\<lparr>disk_writes := w\<rparr> = settle (s\<lparr>disk_writes := w\<rparr>)"
  by (simp_all add: settle_def mycpu_def intr_get_def)

lemma enter_bcache [simp]:
  "(enter lk s)\<lparr>bufs := a\<rparr> = enter lk (s\<lparr>bufs := a\<rparr>)"
  "(enter lk s)\<lparr>disk_writes := w\<rparr> = enter lk (s\<lparr>disk_writes := w\<rparr>)"
  by (simp_all add: enter_def mycpu_def intr_get_def w_sstatus_def)

lemma bcache_settle [simp, frame_simps]:
  "bufs (settle s) = bufs s" "disk_init (settle s) = disk_init s" "disk_writes (settle s) = disk_writes s"
  "disk (settle s) = disk s"
  by (simp_all add: settle_def disk_def)

lemma bcache_enter [simp, frame_simps]:
  "bufs (enter lk s) = bufs s" "disk_init (enter lk s) = disk_init s" "disk_writes (enter lk s) = disk_writes s"
  "disk (enter lk s) = disk s"
  by (simp_all add: enter_def w_sstatus_def disk_def)

lemma machine_bcache [simp]:
  "lock_free lk (s\<lparr>bufs := a\<rparr>) = lock_free lk s" "cpu_ok (s\<lparr>bufs := a\<rparr>) = cpu_ok s"
  "mycpu (s\<lparr>bufs := a\<rparr>) = mycpu s" "procs_free (s\<lparr>bufs := a\<rparr>) = procs_free s"
  "sys_ok (s\<lparr>bufs := a\<rparr>) = sys_ok s" "curpid (s\<lparr>bufs := a\<rparr>) = curpid s"
  "lock_free lk (s\<lparr>disk_writes := w\<rparr>) = lock_free lk s" "cpu_ok (s\<lparr>disk_writes := w\<rparr>) = cpu_ok s"
  "mycpu (s\<lparr>disk_writes := w\<rparr>) = mycpu s" "procs_free (s\<lparr>disk_writes := w\<rparr>) = procs_free s"
  "sys_ok (s\<lparr>disk_writes := w\<rparr>) = sys_ok s" "curpid (s\<lparr>disk_writes := w\<rparr>) = curpid s"
  by (simp_all add: lock_free_def cpu_ok_def mycpu_def intr_get_def procs_free_def sys_ok_def curpid_def)

lemma calm_bcache:
  assumes "calm s t"
  shows "bufs t = bufs s" "disk_init t = disk_init s" "disk_writes t = disk_writes s" "disk t = disk s"
  using assms by (rule calm_get; simp add: disk_def)+

lemma calm_upd_bcache:
  "calm s t \<Longrightarrow> calm (s\<lparr>bufs := a\<rparr>) (t\<lparr>bufs := a\<rparr>)"
  "calm s t \<Longrightarrow> calm (s\<lparr>disk_writes := w\<rparr>) (t\<lparr>disk_writes := w\<rparr>)"
  by (erule calm_map; simp)+

end
