(* ===== verification/Log.thy ===== *)
theory Log
  imports Bio
begin

text \<open>
  The write-ahead log, \<^verbatim>\<open>kernel/log.c\<close>. The int fields of struct log are
  integers; the array of block numbers is a function of the index. Blocks are lists of
  bytes, and the 32-bit fields of the header block are read and written in them little
  endian.
\<close>

section \<open>Integers in blocks\<close>

definition byte_at :: "u8 list \<Rightarrow> nat \<Rightarrow> u8" where
  "byte_at d i = (if i < length d then d ! i else 0)"

definition get16 :: "u8 list \<Rightarrow> nat \<Rightarrow> u16" where
  "get16 d i = ucast (byte_at d i) OR push_bit 8 (ucast (byte_at d (i + 1)))"

definition get32 :: "u8 list \<Rightarrow> nat \<Rightarrow> u32" where
  "get32 d i = ucast (byte_at d i) OR push_bit 8 (ucast (byte_at d (i + 1)) OR
     push_bit 8 (ucast (byte_at d (i + 2)) OR push_bit 8 (ucast (byte_at d (i + 3)))))"

definition put16 :: "u8 list \<Rightarrow> nat \<Rightarrow> u16 \<Rightarrow> u8 list" where
  "put16 d i v = d[i := ucast v, i + 1 := ucast (drop_bit 8 v)]"

definition put32 :: "u8 list \<Rightarrow> nat \<Rightarrow> u32 \<Rightarrow> u8 list" where
  "put32 d i v = d[i := ucast v, i + 1 := ucast (drop_bit 8 v), i + 2 := ucast (drop_bit 16 v),
     i + 3 := ucast (drop_bit 24 v)]"

section \<open>State\<close>

record logheader =
  lh_n :: int
  lh_block :: "nat \<Rightarrow> u32"

record logsys = bcache +
  log_start :: int
  log_size :: int
  log_outstanding :: int
  log_committing :: bool
  log_dev :: u32
  log_lh :: logheader

text \<open>The header block: n at offset 0, block[i] at offset 4 + 4 i.\<close>

definition head_n :: "u8 list \<Rightarrow> int" where
  "head_n d = sint (get32 d 0)"

definition head_block :: "u8 list \<Rightarrow> nat \<Rightarrow> u32" where
  "head_block d i = get32 d (4 + 4 * i)"

definition put_head :: "logheader \<Rightarrow> u8 list \<Rightarrow> u8 list" where
  "put_head h d = fold (\<lambda>i d. put32 d (4 + 4 * i) (lh_block h i)) [0..<nat (lh_n h)] (put32 d 0 (of_int (lh_n h)))"

section \<open>Routines\<close>

definition upd_lh :: "(logheader \<Rightarrow> logheader) \<Rightarrow> ('z logsys_scheme, unit) routine" where
  "upd_lh f = modify (\<lambda>s. s\<lparr>log_lh := f (log_lh s)\<rparr>)"

text \<open>\<^verbatim>\<open>memmove(x->data, y->data, BSIZE)\<close> for two buffers.\<close>

definition copy_data :: "nat \<Rightarrow> nat \<Rightarrow> ('z bcache_scheme, unit) routine" where
  "copy_data x y = bind (gets (\<lambda>s. bdata (bufs s y))) (\<lambda>d. upd_buf x (\<lambda>r. r\<lparr>bdata := d\<rparr>))"

definition install_trans :: "bool \<Rightarrow> ('z logsys_scheme, unit) routine" where
  "install_trans recovering =
     bind (gets (\<lambda>s. lh_n (log_lh s))) (\<lambda>n.
     for_each [0..<nat n] (\<lambda>tail.
       bind (gets (\<lambda>s. s)) (\<lambda>s.
       bind (bread (log_dev s) (of_int (log_start s + int tail + 1))) (\<lambda>lbuf.
       bind (bread (log_dev s) (lh_block (log_lh s) tail)) (\<lambda>dbuf.
       sq (copy_data dbuf lbuf)
       (sq (bwrite dbuf)
       (sq (if \<not> recovering then bunpin dbuf else ret ())
       (sq (brelse lbuf)
           (brelse dbuf)))))))))"

definition read_head :: "('z logsys_scheme, unit) routine" where
  "read_head =
     bind (gets (\<lambda>s. s)) (\<lambda>s.
     bind (bread (log_dev s) (of_int (log_start s))) (\<lambda>b.
     bind (gets (\<lambda>s. bdata (bufs s b))) (\<lambda>d.
     sq (upd_lh (\<lambda>h. h\<lparr>lh_n := head_n d\<rparr>))
     (sq (for_each [0..<nat (head_n d)] (\<lambda>i.
            upd_lh (\<lambda>h. h\<lparr>lh_block := (lh_block h)(i := head_block d i)\<rparr>)))
         (brelse b)))))"

definition write_head :: "('z logsys_scheme, unit) routine" where
  "write_head =
     bind (gets (\<lambda>s. s)) (\<lambda>s.
     bind (bread (log_dev s) (of_int (log_start s))) (\<lambda>b.
     sq (upd_buf b (\<lambda>r. r\<lparr>bdata := put_head (log_lh s) (bdata r)\<rparr>))
     (sq (bwrite b)
         (brelse b))))"

definition recover_from_log :: "('z logsys_scheme, unit) routine" where
  "recover_from_log =
     sq read_head
     (sq (install_trans True)
     (sq (upd_lh (\<lambda>h. h\<lparr>lh_n := 0\<rparr>))
         write_head))"

text \<open>
  initlog gets the fields logstart and nlog of the superblock. The header, 31 integers,
  fits a block, so that the check at its start is false.
\<close>

definition initlog :: "u32 \<Rightarrow> u32 \<Rightarrow> u32 \<Rightarrow> ('z logsys_scheme, unit) routine" where
  "initlog dev logstart nlog =
     sq (panic_if (4 + 4 * LOGSIZE \<ge> BSIZE) ''initlog: too big logheader'')
     (sq (initlock LogLock ''log'')
     (sq (modify (\<lambda>s. s\<lparr>log_start := sint logstart, log_size := sint nlog, log_dev := dev\<rparr>))
         recover_from_log))"

definition begin_op :: "('z logsys_scheme, unit) routine" where
  "begin_op =
     sq (acquire LogLock)
     (bind (gets (\<lambda>s. s)) (\<lambda>s.
      if log_committing s then sleep LogChan LogLock
      else if lh_n (log_lh s) + (log_outstanding s + 1) * int MAXOPBLOCKS > int LOGSIZE then sleep LogChan LogLock
      else
        sq (modify (\<lambda>s. s\<lparr>log_outstanding := log_outstanding s + 1\<rparr>))
           (release LogLock)))"

definition write_log :: "('z logsys_scheme, unit) routine" where
  "write_log =
     bind (gets (\<lambda>s. lh_n (log_lh s))) (\<lambda>n.
     for_each [0..<nat n] (\<lambda>tail.
       bind (gets (\<lambda>s. s)) (\<lambda>s.
       bind (bread (log_dev s) (of_int (log_start s + int tail + 1))) (\<lambda>to.
       bind (bread (log_dev s) (lh_block (log_lh s) tail)) (\<lambda>from.
       sq (copy_data to from)
       (sq (bwrite to)
       (sq (brelse from)
           (brelse to))))))))"

definition commit :: "('z logsys_scheme, unit) routine" where
  "commit =
     bind (gets (\<lambda>s. lh_n (log_lh s))) (\<lambda>n.
     if n > 0 then
       sq write_log
       (sq write_head
       (sq (install_trans False)
       (sq (upd_lh (\<lambda>h. h\<lparr>lh_n := 0\<rparr>))
           write_head)))
     else ret ())"

definition end_op :: "('z logsys_scheme, unit) routine" where
  "end_op =
     sq (acquire LogLock)
     (sq (modify (\<lambda>s. s\<lparr>log_outstanding := log_outstanding s - 1\<rparr>))
     (bind (gets log_committing) (\<lambda>c.
     sq (panic_if c ''log.committing'')
     (bind (gets log_outstanding) (\<lambda>o'.
     let do_commit = (o' = 0) in
     sq (if do_commit then modify (\<lambda>s. s\<lparr>log_committing := True\<rparr>) else wakeup LogChan)
     (sq (release LogLock)
     (if do_commit then
        sq commit
        (sq (acquire LogLock)
        (sq (modify (\<lambda>s. s\<lparr>log_committing := False\<rparr>))
        (sq (wakeup LogChan)
            (release LogLock))))
      else ret ())))))))"

text \<open>The first index of the logged block, or n.\<close>

fun log_index :: "logheader \<Rightarrow> u32 \<Rightarrow> nat \<Rightarrow> nat \<Rightarrow> nat" where
  "log_index h b i 0 = i"
| "log_index h b i (Suc k) = (if lh_block h i = b then i else log_index h b (Suc i) k)"

definition log_write :: "nat \<Rightarrow> ('z logsys_scheme, unit) routine" where
  "log_write b =
     sq (acquire LogLock)
     (bind (gets (\<lambda>s. s)) (\<lambda>s.
      sq (panic_if (lh_n (log_lh s) \<ge> int LOGSIZE \<or> lh_n (log_lh s) \<ge> log_size s - 1) ''too big a transaction'')
      (sq (panic_if (log_outstanding s < 1) ''log_write outside of trans'')
      (let blockno = bblockno (bufs s b);
           i = log_index (log_lh s) blockno 0 (nat (lh_n (log_lh s))) in
       sq (upd_lh (\<lambda>h. h\<lparr>lh_block := (lh_block h)(i := blockno)\<rparr>))
       (sq (if int i = lh_n (log_lh s)
            then sq (bpin b) (upd_lh (\<lambda>h. h\<lparr>lh_n := lh_n h + 1\<rparr>)) else ret ())
           (release LogLock))))))"

section \<open>Updates commute with taking locks\<close>

lemma settle_logsys [simp]:
  "(settle s)\<lparr>log_start := a\<rparr> = settle (s\<lparr>log_start := a\<rparr>)" "(settle s)\<lparr>log_size := a\<rparr> = settle (s\<lparr>log_size := a\<rparr>)"
  "(settle s)\<lparr>log_outstanding := a\<rparr> = settle (s\<lparr>log_outstanding := a\<rparr>)"
  "(settle s)\<lparr>log_committing := b\<rparr> = settle (s\<lparr>log_committing := b\<rparr>)"
  "(settle s)\<lparr>log_dev := d\<rparr> = settle (s\<lparr>log_dev := d\<rparr>)" "(settle s)\<lparr>log_lh := h\<rparr> = settle (s\<lparr>log_lh := h\<rparr>)"
  by (simp_all add: settle_def mycpu_def intr_get_def)

lemma enter_logsys [simp]:
  "(enter lk s)\<lparr>log_outstanding := a\<rparr> = enter lk (s\<lparr>log_outstanding := a\<rparr>)"
  "(enter lk s)\<lparr>log_committing := b\<rparr> = enter lk (s\<lparr>log_committing := b\<rparr>)"
  "(enter lk s)\<lparr>log_lh := h\<rparr> = enter lk (s\<lparr>log_lh := h\<rparr>)"
  by (simp_all add: enter_def mycpu_def intr_get_def w_sstatus_def)

lemma logsys_settle [simp, frame_simps]:
  "log_start (settle s) = log_start s" "log_size (settle s) = log_size s" "log_outstanding (settle s) = log_outstanding s"
  "log_committing (settle s) = log_committing s" "log_dev (settle s) = log_dev s" "log_lh (settle s) = log_lh s"
  by (simp_all add: settle_def)

lemma logsys_enter [simp, frame_simps]:
  "log_start (enter lk s) = log_start s" "log_size (enter lk s) = log_size s"
  "log_outstanding (enter lk s) = log_outstanding s"
  "log_committing (enter lk s) = log_committing s" "log_dev (enter lk s) = log_dev s" "log_lh (enter lk s) = log_lh s"
  by (simp_all add: enter_def w_sstatus_def)

lemma machine_logsys [simp]:
  "lock_free lk (s\<lparr>log_outstanding := a\<rparr>) = lock_free lk s" "cpu_ok (s\<lparr>log_outstanding := a\<rparr>) = cpu_ok s"
  "procs_free (s\<lparr>log_outstanding := a\<rparr>) = procs_free s" "sys_ok (s\<lparr>log_outstanding := a\<rparr>) = sys_ok s"
  "lock_free lk (s\<lparr>log_committing := b\<rparr>) = lock_free lk s" "cpu_ok (s\<lparr>log_committing := b\<rparr>) = cpu_ok s"
  "procs_free (s\<lparr>log_committing := b\<rparr>) = procs_free s" "sys_ok (s\<lparr>log_committing := b\<rparr>) = sys_ok s"
  "lock_free lk (s\<lparr>log_lh := h\<rparr>) = lock_free lk s" "cpu_ok (s\<lparr>log_lh := h\<rparr>) = cpu_ok s"
  "procs_free (s\<lparr>log_lh := h\<rparr>) = procs_free s" "sys_ok (s\<lparr>log_lh := h\<rparr>) = sys_ok s"
  "mycpu (s\<lparr>log_outstanding := a\<rparr>) = mycpu s" "mycpu (s\<lparr>log_committing := b\<rparr>) = mycpu s" "mycpu (s\<lparr>log_lh := h\<rparr>) = mycpu s"
  "curpid (s\<lparr>log_outstanding := a\<rparr>) = curpid s" "curpid (s\<lparr>log_committing := b\<rparr>) = curpid s" "curpid (s\<lparr>log_lh := h\<rparr>) = curpid s"
  by (simp_all add: lock_free_def cpu_ok_def mycpu_def intr_get_def procs_free_def sys_ok_def curpid_def)

lemma calm_logsys:
  assumes "calm s t"
  shows "log_start t = log_start s" "log_size t = log_size s" "log_outstanding t = log_outstanding s"
    "log_committing t = log_committing s" "log_dev t = log_dev s" "log_lh t = log_lh s"
  using assms by (rule calm_get; simp)+

lemma calm_upd_logsys:
  "calm s t \<Longrightarrow> calm (s\<lparr>log_lh := h\<rparr>) (t\<lparr>log_lh := h\<rparr>)"
  "calm s t \<Longrightarrow> calm (s\<lparr>log_outstanding := a\<rparr>) (t\<lparr>log_outstanding := a\<rparr>)"
  "calm s t \<Longrightarrow> calm (s\<lparr>log_committing := b\<rparr>) (t\<lparr>log_committing := b\<rparr>)"
  by (erule calm_map; simp)+

end
