(* ===== verification/Fs.thy ===== *)
theory Fs
  imports Log
begin

text \<open>
  The file system, \<^verbatim>\<open>kernel/fs.c\<close>: blocks, inodes, file contents, directories
  and path names. An inode pointer is an index of the inode table, a null pointer is
  \<open>None\<close>. Path names and directory names are byte lists without their final NUL; a
  name buffer has DIRSIZ bytes. The messages that balloc and ialloc print when the disk is
  full are left out.
\<close>

section \<open>On-disk format (fs.h)\<close>

definition ROOTINO :: u32 where "ROOTINO = 1"
definition FSMAGIC :: u32 where "FSMAGIC = 0x10203040"
definition NDIRECT :: nat where "NDIRECT = 12"
definition NINDIRECT :: nat where "NINDIRECT = BSIZE div 4"
definition MAXFILE :: nat where "MAXFILE = NDIRECT + NINDIRECT"
definition IPB :: nat where "IPB = BSIZE div 64"
definition BPB :: nat where "BPB = BSIZE * 8"
definition DIRSIZ :: nat where "DIRSIZ = 14"
definition T_DIR :: u16 where "T_DIR = 1"
definition T_FILE :: u16 where "T_FILE = 2"
definition T_DEVICE :: u16 where "T_DEVICE = 3"

record superblock =
  sb_magic :: u32
  sb_size :: u32
  sb_nblocks :: u32
  sb_ninodes :: u32
  sb_nlog :: u32
  sb_logstart :: u32
  sb_inodestart :: u32
  sb_bmapstart :: u32

record inode =
  idev :: u32
  inum :: u32
  iref :: int
  ivalid :: bool
  itype :: u16
  imajor :: u16
  iminor :: u16
  inlink :: u16
  isize :: u32
  iaddrs :: "u32 list"

record fsys = logsys +
  sb :: superblock
  inodes :: "nat \<Rightarrow> inode"

definition IBLOCK :: "u32 \<Rightarrow> superblock \<Rightarrow> u32" where
  "IBLOCK i s = of_nat (unat i div IPB) + sb_inodestart s"

definition BBLOCK :: "u32 \<Rightarrow> superblock \<Rightarrow> u32" where
  "BBLOCK b s = of_nat (unat b div BPB) + sb_bmapstart s"

text \<open>The byte offset of inode \<open>i\<close> in its block; a struct dinode has 64 bytes.\<close>

definition dinode_off :: "u32 \<Rightarrow> nat" where
  "dinode_off i = 64 * (unat i mod IPB)"

definition put_dinode :: "inode \<Rightarrow> nat \<Rightarrow> u8 list \<Rightarrow> u8 list" where
  "put_dinode ip o' d =
     fold (\<lambda>k d. put32 d (o' + 12 + 4 * k) (iaddrs ip ! k)) [0..<NDIRECT + 1]
       (put32 (put16 (put16 (put16 (put16 d o' (itype ip)) (o' + 2) (imajor ip)) (o' + 4) (iminor ip)) (o' + 6) (inlink ip))
          (o' + 8) (isize ip))"

definition get_dinode :: "u8 list \<Rightarrow> nat \<Rightarrow> inode \<Rightarrow> inode" where
  "get_dinode d o' ip = ip\<lparr>itype := get16 d o', imajor := get16 d (o' + 2), iminor := get16 d (o' + 4),
     inlink := get16 d (o' + 6), isize := get32 d (o' + 8),
     iaddrs := map (\<lambda>k. get32 d (o' + 12 + 4 * k)) [0..<NDIRECT + 1]\<rparr>"

definition zero_range :: "nat \<Rightarrow> nat \<Rightarrow> u8 list \<Rightarrow> u8 list" where
  "zero_range o' n d = fold (\<lambda>k d. d[o' + k := 0]) [0..<n] d"

section \<open>Blocks\<close>

definition upd_inode :: "nat \<Rightarrow> (inode \<Rightarrow> inode) \<Rightarrow> ('z fsys_scheme, unit) routine" where
  "upd_inode ip f = modify (\<lambda>s. s\<lparr>inodes := (inodes s)(ip := f (inodes s ip))\<rparr>)"

definition upd_data :: "nat \<Rightarrow> (u8 list \<Rightarrow> u8 list) \<Rightarrow> ('z bcache_scheme, unit) routine" where
  "upd_data b f = upd_buf b (\<lambda>r. r\<lparr>bdata := f (bdata r)\<rparr>)"

definition data_of :: "nat \<Rightarrow> ('z bcache_scheme, u8 list) routine" where
  "data_of b = gets (\<lambda>s. bdata (bufs s b))"

definition readsb :: "u32 \<Rightarrow> ('z fsys_scheme, unit) routine" where
  "readsb dev =
     bind (bread dev 1) (\<lambda>bp.
     bind (data_of bp) (\<lambda>d.
     sq (modify (\<lambda>s. s\<lparr>sb := \<lparr>sb_magic = get32 d 0, sb_size = get32 d 4, sb_nblocks = get32 d 8,
           sb_ninodes = get32 d 12, sb_nlog = get32 d 16, sb_logstart = get32 d 20,
           sb_inodestart = get32 d 24, sb_bmapstart = get32 d 28\<rparr>\<rparr>))
        (brelse bp)))"

definition fsinit :: "u32 \<Rightarrow> ('z fsys_scheme, unit) routine" where
  "fsinit dev =
     sq (readsb dev)
     (bind (gets sb) (\<lambda>b.
     sq (panic_if (sb_magic b \<noteq> FSMAGIC) ''invalid file system'')
        (initlog dev (sb_logstart b) (sb_nlog b))))"

definition bzero :: "u32 \<Rightarrow> u32 \<Rightarrow> ('z fsys_scheme, unit) routine" where
  "bzero dev bno =
     bind (bread dev bno) (\<lambda>bp.
     sq (upd_data bp (\<lambda>_. replicate BSIZE 0))
     (sq (log_write bp)
         (brelse bp)))"

definition bit_clear :: "u8 list \<Rightarrow> nat \<Rightarrow> bool" where
  "bit_clear d bi \<longleftrightarrow> byte_at d (bi div 8) AND push_bit (bi mod 8) 1 = 0"

definition free_bit :: "u8 list \<Rightarrow> nat \<Rightarrow> nat \<Rightarrow> nat option" where
  "free_bit d b size' = find (\<lambda>bi. b + bi < size' \<and> bit_clear d bi) [0..<BPB]"

definition mark_bit :: "nat \<Rightarrow> u8 list \<Rightarrow> u8 list" where
  "mark_bit bi d = d[bi div 8 := byte_at d (bi div 8) OR push_bit (bi mod 8) 1]"

definition clear_bit :: "nat \<Rightarrow> u8 list \<Rightarrow> u8 list" where
  "clear_bit bi d = d[bi div 8 := byte_at d (bi div 8) AND NOT (push_bit (bi mod 8) 1)]"

fun balloc_loop :: "nat \<Rightarrow> u32 \<Rightarrow> nat \<Rightarrow> ('z fsys_scheme, u32) routine" where
  "balloc_loop n dev b =
     bind (gets sb) (\<lambda>sp.
     if b < unat (sb_size sp) then
       (case n of 0 \<Rightarrow> diverge | Suc n \<Rightarrow>
        bind (bread dev (BBLOCK (of_nat b) sp)) (\<lambda>bp.
        bind (data_of bp) (\<lambda>d.
        case free_bit d b (unat (sb_size sp)) of
          Some bi \<Rightarrow>
            sq (upd_data bp (mark_bit bi))
            (sq (log_write bp)
            (sq (brelse bp)
            (sq (bzero dev (of_nat (b + bi)))
                (ret (of_nat (b + bi))))))
        | None \<Rightarrow> sq (brelse bp) (balloc_loop n dev (b + BPB)))))
     else ret 0)"

definition balloc :: "u32 \<Rightarrow> ('z fsys_scheme, u32) routine" where
  "balloc dev = bind (gets sb) (\<lambda>sp. balloc_loop (unat (sb_size sp) div BPB + 1) dev 0)"

declare balloc_loop.simps [simp del]

definition bfree :: "u32 \<Rightarrow> u32 \<Rightarrow> ('z fsys_scheme, unit) routine" where
  "bfree dev b =
     bind (gets sb) (\<lambda>sp.
     bind (bread dev (BBLOCK b sp)) (\<lambda>bp.
     let bi = unat b mod BPB in
     bind (data_of bp) (\<lambda>d.
     sq (panic_if (bit_clear d bi) ''freeing free block'')
     (sq (upd_data bp (clear_bit bi))
     (sq (log_write bp)
         (brelse bp))))))"

section \<open>Inodes\<close>

definition iinit :: "('z fsys_scheme, unit) routine" where
  "iinit =
     sq (initlock ItableLock ''itable'')
        (for_each [0..<NINODE] (\<lambda>i. initsleeplock (InodeSleepLock i) ''inode''))"

text \<open>iget remembers the first entry without references while it looks for the inode.\<close>

definition iget :: "u32 \<Rightarrow> u32 \<Rightarrow> ('z fsys_scheme, nat) routine" where
  "iget dev ino =
     sq (acquire ItableLock)
     (bind (gets inodes) (\<lambda>is.
      case find (\<lambda>i. iref (is i) > 0 \<and> idev (is i) = dev \<and> inum (is i) = ino) [0..<NINODE] of
        Some ip \<Rightarrow>
          sq (upd_inode ip (\<lambda>r. r\<lparr>iref := iref r + 1\<rparr>))
          (sq (release ItableLock) (ret ip))
      | None \<Rightarrow>
          (case find (\<lambda>i. iref (is i) = 0) [0..<NINODE] of
             None \<Rightarrow> panic ''iget: no inodes''
           | Some ip \<Rightarrow>
               sq (upd_inode ip (\<lambda>r. r\<lparr>idev := dev, inum := ino, iref := 1, ivalid := False\<rparr>))
               (sq (release ItableLock) (ret ip)))))"

fun ialloc_loop :: "nat \<Rightarrow> u32 \<Rightarrow> u16 \<Rightarrow> nat \<Rightarrow> ('z fsys_scheme, nat option) routine" where
  "ialloc_loop n dev type' i =
     bind (gets sb) (\<lambda>sp.
     if i < unat (sb_ninodes sp) then
       (case n of 0 \<Rightarrow> diverge | Suc n \<Rightarrow>
        bind (bread dev (IBLOCK (of_nat i) sp)) (\<lambda>bp.
        let o' = dinode_off (of_nat i) in
        bind (data_of bp) (\<lambda>d.
        if get16 d o' = 0 then
          sq (upd_data bp (\<lambda>d. put16 (zero_range o' 64 d) o' type'))
          (sq (log_write bp)
          (sq (brelse bp)
          (bind (iget dev (of_nat i)) (\<lambda>ip. ret (Some ip)))))
        else sq (brelse bp) (ialloc_loop n dev type' (i + 1)))))
     else ret None)"

definition ialloc :: "u32 \<Rightarrow> u16 \<Rightarrow> ('z fsys_scheme, nat option) routine" where
  "ialloc dev type' = bind (gets sb) (\<lambda>sp. ialloc_loop (unat (sb_ninodes sp)) dev type' 1)"

declare ialloc_loop.simps [simp del]

definition iupdate :: "nat \<Rightarrow> ('z fsys_scheme, unit) routine" where
  "iupdate ip =
     bind (gets (\<lambda>s. inodes s ip)) (\<lambda>r.
     bind (gets sb) (\<lambda>sp.
     bind (bread (idev r) (IBLOCK (inum r) sp)) (\<lambda>bp.
     sq (upd_data bp (put_dinode r (dinode_off (inum r))))
     (sq (log_write bp)
         (brelse bp)))))"

definition idup :: "nat \<Rightarrow> ('z fsys_scheme, nat) routine" where
  "idup ip =
     sq (acquire ItableLock)
     (sq (upd_inode ip (\<lambda>r. r\<lparr>iref := iref r + 1\<rparr>))
     (sq (release ItableLock) (ret ip)))"

definition ilock :: "nat \<Rightarrow> ('z fsys_scheme, unit) routine" where
  "ilock ip =
     bind (gets (\<lambda>s. inodes s ip)) (\<lambda>r.
     sq (panic_if (iref r < 1) ''ilock'')
     (sq (acquiresleep (InodeSleepLock ip))
     (bind (gets (\<lambda>s. inodes s ip)) (\<lambda>r.
      if \<not> ivalid r then
        bind (gets sb) (\<lambda>sp.
        bind (bread (idev r) (IBLOCK (inum r) sp)) (\<lambda>bp.
        bind (data_of bp) (\<lambda>d.
        sq (upd_inode ip (get_dinode d (dinode_off (inum r))))
        (sq (brelse bp)
        (sq (upd_inode ip (\<lambda>r. r\<lparr>ivalid := True\<rparr>))
        (bind (gets (\<lambda>s. itype (inodes s ip))) (\<lambda>t.
         panic_if (t = 0) ''ilock: no type'')))))))
      else ret ()))))"

definition iunlock :: "nat \<Rightarrow> ('z fsys_scheme, unit) routine" where
  "iunlock ip =
     bind (holdingsleep (InodeSleepLock ip)) (\<lambda>h.
     bind (gets (\<lambda>s. iref (inodes s ip))) (\<lambda>n.
     sq (panic_if (\<not> h \<or> n < 1) ''iunlock'')
        (releasesleep (InodeSleepLock ip))))"

definition set_addr :: "nat \<Rightarrow> nat \<Rightarrow> u32 \<Rightarrow> ('z fsys_scheme, unit) routine" where
  "set_addr ip k a = upd_inode ip (\<lambda>r. r\<lparr>iaddrs := (iaddrs r)[k := a]\<rparr>)"

definition itrunc :: "nat \<Rightarrow> ('z fsys_scheme, unit) routine" where
  "itrunc ip =
     sq (for_each [0..<NDIRECT] (\<lambda>i.
       bind (gets (\<lambda>s. inodes s ip)) (\<lambda>r.
       if iaddrs r ! i \<noteq> 0 then sq (bfree (idev r) (iaddrs r ! i)) (set_addr ip i 0) else ret ())))
     (bind (gets (\<lambda>s. inodes s ip)) (\<lambda>r.
     sq (if iaddrs r ! NDIRECT \<noteq> 0 then
           bind (bread (idev r) (iaddrs r ! NDIRECT)) (\<lambda>bp.
           sq (for_each [0..<NINDIRECT] (\<lambda>j.
                 bind (data_of bp) (\<lambda>d.
                 if get32 d (4 * j) \<noteq> 0 then bfree (idev r) (get32 d (4 * j)) else ret ())))
           (sq (brelse bp)
           (sq (bfree (idev r) (iaddrs r ! NDIRECT))
               (set_addr ip NDIRECT 0))))
         else ret ())
     (sq (upd_inode ip (\<lambda>r. r\<lparr>isize := 0\<rparr>))
         (iupdate ip))))"

definition iput :: "nat \<Rightarrow> ('z fsys_scheme, unit) routine" where
  "iput ip =
     sq (acquire ItableLock)
     (bind (gets (\<lambda>s. inodes s ip)) (\<lambda>r.
     sq (if iref r = 1 \<and> ivalid r \<and> inlink r = 0 then
           sq (acquiresleep (InodeSleepLock ip))
           (sq (release ItableLock)
           (sq (itrunc ip)
           (sq (upd_inode ip (\<lambda>r. r\<lparr>itype := 0\<rparr>))
           (sq (iupdate ip)
           (sq (upd_inode ip (\<lambda>r. r\<lparr>ivalid := False\<rparr>))
           (sq (releasesleep (InodeSleepLock ip))
               (acquire ItableLock)))))))
         else ret ())
     (sq (upd_inode ip (\<lambda>r. r\<lparr>iref := iref r - 1\<rparr>))
         (release ItableLock))))"

definition iunlockput :: "nat \<Rightarrow> ('z fsys_scheme, unit) routine" where
  "iunlockput ip = sq (iunlock ip) (iput ip)"

section \<open>Inode content\<close>

definition bmap :: "nat \<Rightarrow> u32 \<Rightarrow> ('z fsys_scheme, u32) routine" where
  "bmap ip bn =
     bind (gets (\<lambda>s. inodes s ip)) (\<lambda>r.
     if unat bn < NDIRECT then
       (let addr = iaddrs r ! unat bn in
        if addr = 0 then
          bind (balloc (idev r)) (\<lambda>addr.
          if addr = 0 then ret 0
          else sq (set_addr ip (unat bn) addr) (ret addr))
        else ret addr)
     else
       let bn = unat bn - NDIRECT in
       if bn < NINDIRECT then
         bind (let addr = iaddrs r ! NDIRECT in
               if addr = 0 then
                 bind (balloc (idev r)) (\<lambda>addr.
                 if addr = 0 then ret 0
                 else sq (set_addr ip NDIRECT addr) (ret addr))
               else ret addr) (\<lambda>addr.
         if addr = 0 then ret 0
         else
           bind (bread (idev r) addr) (\<lambda>bp.
           bind (data_of bp) (\<lambda>d.
           let addr = get32 d (4 * bn) in
           bind (if addr = 0 then
                   bind (balloc (idev r)) (\<lambda>addr.
                   sq (if addr \<noteq> 0 then sq (upd_data bp (\<lambda>d. put32 d (4 * bn) addr)) (log_write bp) else ret ())
                      (ret addr))
                 else ret addr) (\<lambda>addr.
           sq (brelse bp) (ret addr)))))
       else panic ''bmap: out of range'')"

text \<open>struct stat, in the order of its fields.\<close>

record stat =
  st_dev :: u32
  st_ino :: u32
  st_type :: u16
  st_nlink :: u16
  st_size :: u64

definition stati :: "inode \<Rightarrow> stat" where
  "stati r = \<lparr>st_dev = idev r, st_ino = inum r, st_type = itype r, st_nlink = inlink r, st_size = ucast (isize r)\<rparr>"

text \<open>
  The destination of readi moves with the bytes read: a user address advances, and a
  kernel buffer collects the bytes in the list that readi returns with its result.
\<close>

fun dest_add :: "dest \<Rightarrow> nat \<Rightarrow> dest" where
  "dest_add (UserAddr a) m = UserAddr (a + of_nat m)"
| "dest_add KernelBuf m = KernelBuf"

fun source_add :: "source \<Rightarrow> nat \<Rightarrow> source" where
  "source_add (FromUser a) m = FromUser (a + of_nat m)"
| "source_add (FromKernel bs) m = FromKernel (drop m bs)"

fun readi_loop :: "nat \<Rightarrow> nat \<Rightarrow> dest \<Rightarrow> u32 \<Rightarrow> u32 \<Rightarrow> u32 \<Rightarrow> u8 list \<Rightarrow> ('z fsys_scheme, u32 \<times> u8 list) routine" where
  "readi_loop k ip dst off' n tot out =
     (if tot < n then
        (case k of 0 \<Rightarrow> diverge | Suc k \<Rightarrow>
         bind (bmap ip (off' div of_nat BSIZE)) (\<lambda>addr.
         if addr = 0 then ret (tot, out)
         else
           bind (gets (\<lambda>s. idev (inodes s ip))) (\<lambda>dev.
           bind (bread dev addr) (\<lambda>bp.
           let o' = unat off' mod BSIZE;
               m = min (unat (n - tot)) (BSIZE - o') in
           bind (data_of bp) (\<lambda>d.
           bind (either_copyout dst (take m (drop o' d))) (\<lambda>(r, bs).
           if r = -1 then sq (brelse bp) (ret (-1, out))
           else sq (brelse bp)
             (readi_loop k ip (dest_add dst m) (off' + of_nat m) n (tot + of_nat m) (out @ bs))))))))
      else ret (tot, out))"

definition readi :: "nat \<Rightarrow> dest \<Rightarrow> u32 \<Rightarrow> u32 \<Rightarrow> ('z fsys_scheme, int \<times> u8 list) routine" where
  "readi ip dst off' n =
     bind (gets (\<lambda>s. isize (inodes s ip))) (\<lambda>size'.
     if off' > size' \<or> off' + n < off' then ret (0, [])
     else
       let n = (if off' + n > size' then size' - off' else n) in
       bind (readi_loop (unat n div BSIZE + 2) ip dst off' n 0 []) (\<lambda>(tot, out). ret (sint tot, out)))"

text \<open>The loop of writei gives the bytes written and the offset reached.\<close>

fun writei_loop :: "nat \<Rightarrow> nat \<Rightarrow> source \<Rightarrow> u32 \<Rightarrow> u32 \<Rightarrow> u32 \<Rightarrow> ('z fsys_scheme, u32 \<times> u32) routine" where
  "writei_loop k ip src off' n tot =
     (if tot < n then
        (case k of 0 \<Rightarrow> diverge | Suc k \<Rightarrow>
         bind (bmap ip (off' div of_nat BSIZE)) (\<lambda>addr.
         if addr = 0 then ret (tot, off')
         else
           bind (gets (\<lambda>s. idev (inodes s ip))) (\<lambda>dev.
           bind (bread dev addr) (\<lambda>bp.
           let o' = unat off' mod BSIZE;
               m = min (unat (n - tot)) (BSIZE - o') in
           bind (either_copyin src (of_nat m)) (\<lambda>(r, bs).
           sq (upd_data bp (\<lambda>d. take o' d @ bs @ drop (o' + length bs) d))
           (if r = -1 then sq (brelse bp) (ret (tot, off'))
            else sq (log_write bp)
              (sq (brelse bp)
                  (writei_loop k ip (source_add src m) (off' + of_nat m) n (tot + of_nat m)))))))))
      else ret (tot, off'))"

definition writei :: "nat \<Rightarrow> source \<Rightarrow> u32 \<Rightarrow> u32 \<Rightarrow> ('z fsys_scheme, int) routine" where
  "writei ip src off' n =
     bind (gets (\<lambda>s. isize (inodes s ip))) (\<lambda>size'.
     if off' > size' \<or> off' + n < off' then ret (-1)
     else if unat (off' + n) > MAXFILE * BSIZE then ret (-1)
     else
       bind (writei_loop (unat n div BSIZE + 2) ip src off' n 0) (\<lambda>(tot, off').
       sq (upd_inode ip (\<lambda>r. if off' > isize r then r\<lparr>isize := off'\<rparr> else r))
       (sq (iupdate ip) (ret (sint tot)))))"

declare readi_loop.simps [simp del] writei_loop.simps [simp del]

section \<open>Directories\<close>

text \<open>strncmp on byte lists that end with a NUL or with their last byte.\<close>

fun strncmp_bytes :: "nat \<Rightarrow> u8 list \<Rightarrow> u8 list \<Rightarrow> int" where
  "strncmp_bytes 0 p q = 0"
| "strncmp_bytes (Suc n) p q =
     (if byte_at p 0 \<noteq> 0 \<and> byte_at p 0 = byte_at q 0 then strncmp_bytes n (drop 1 p) (drop 1 q)
      else int (unat (byte_at p 0)) - int (unat (byte_at q 0)))"

definition namecmp :: "u8 list \<Rightarrow> u8 list \<Rightarrow> int" where
  "namecmp p q = strncmp_bytes DIRSIZ p q"

text \<open>A struct dirent: the inode number and DIRSIZ bytes of name.\<close>

definition de_inum :: "u8 list \<Rightarrow> u16" where
  "de_inum d = get16 d 0"

definition de_name :: "u8 list \<Rightarrow> u8 list" where
  "de_name d = take DIRSIZ (drop 2 d)"

definition DESIZE :: nat where "DESIZE = 16"

fun dirlookup_loop :: "nat \<Rightarrow> nat \<Rightarrow> u8 list \<Rightarrow> u32 \<Rightarrow> ('z fsys_scheme, (nat \<times> u32) option) routine" where
  "dirlookup_loop k dp nm off' =
     bind (gets (\<lambda>s. inodes s dp)) (\<lambda>r.
     if off' < isize r then
       (case k of 0 \<Rightarrow> diverge | Suc k \<Rightarrow>
        bind (readi dp KernelBuf off' (of_nat DESIZE)) (\<lambda>(n, de).
        sq (panic_if (n \<noteq> int DESIZE) ''dirlookup read'')
        (if de_inum de = 0 then dirlookup_loop k dp nm (off' + of_nat DESIZE)
         else if namecmp nm (de_name de) = 0 then
           bind (iget (idev r) (ucast (de_inum de))) (\<lambda>ip. ret (Some (ip, off')))
         else dirlookup_loop k dp nm (off' + of_nat DESIZE))))
     else ret None)"

definition dirlookup :: "nat \<Rightarrow> u8 list \<Rightarrow> ('z fsys_scheme, (nat \<times> u32) option) routine" where
  "dirlookup dp nm =
     bind (gets (\<lambda>s. inodes s dp)) (\<lambda>r.
     sq (panic_if (itype r \<noteq> T_DIR) ''dirlookup not DIR'')
        (dirlookup_loop (unat (isize r) div DESIZE + 1) dp nm 0))"

fun empty_dirent :: "nat \<Rightarrow> nat \<Rightarrow> u32 \<Rightarrow> ('z fsys_scheme, u32) routine" where
  "empty_dirent k dp off' =
     bind (gets (\<lambda>s. isize (inodes s dp))) (\<lambda>size'.
     if off' < size' then
       (case k of 0 \<Rightarrow> diverge | Suc k \<Rightarrow>
        bind (readi dp KernelBuf off' (of_nat DESIZE)) (\<lambda>(n, de).
        sq (panic_if (n \<noteq> int DESIZE) ''dirlink read'')
        (if de_inum de = 0 then ret off'
         else empty_dirent k dp (off' + of_nat DESIZE))))
     else ret off')"

declare dirlookup_loop.simps [simp del] empty_dirent.simps [simp del]

text \<open>\<^verbatim>\<open>strncpy(de.name, name, DIRSIZ)\<close>\<close>

definition pad_name :: "u8 list \<Rightarrow> u8 list" where
  "pad_name nm = (let n = takeWhile (\<lambda>c. c \<noteq> 0) (take DIRSIZ nm) in n @ replicate (DIRSIZ - length n) 0)"

definition dirent :: "u16 \<Rightarrow> u8 list \<Rightarrow> u8 list" where
  "dirent i nm = [ucast i, ucast (drop_bit 8 i)] @ pad_name nm"

definition dirlink :: "nat \<Rightarrow> u8 list \<Rightarrow> u32 \<Rightarrow> ('z fsys_scheme, int) routine" where
  "dirlink dp nm ino =
     bind (dirlookup dp nm) (\<lambda>found.
     case found of
       Some (ip, _) \<Rightarrow> sq (iput ip) (ret (-1))
     | None \<Rightarrow>
         bind (gets (\<lambda>s. isize (inodes s dp))) (\<lambda>size'.
         bind (empty_dirent (unat size' div DESIZE + 1) dp 0) (\<lambda>off'.
         bind (writei dp (FromKernel (dirent (ucast ino) nm)) off' (of_nat DESIZE)) (\<lambda>n.
         if n \<noteq> int DESIZE then ret (-1) else ret 0))))"

section \<open>Paths\<close>

definition slash :: u8 where "slash = 47"

text \<open>
  skipelem overwrites the start of the name buffer: DIRSIZ bytes of a long element, or the
  element and a NUL.
\<close>

definition skipelem :: "u8 list \<Rightarrow> u8 list \<Rightarrow> (u8 list \<times> u8 list) option" where
  "skipelem path nm =
     (let p = dropWhile (\<lambda>c. c = slash) path in
      if p = [] then None
      else
        let e = takeWhile (\<lambda>c. c \<noteq> slash) p;
            rest = dropWhile (\<lambda>c. c \<noteq> slash) p;
            nm' = (if length e \<ge> DIRSIZ then take DIRSIZ e
                   else e @ [0] @ drop (length e + 1) nm) in
        Some (dropWhile (\<lambda>c. c = slash) rest, nm'))"

lemma skipelem_shorter: "skipelem path nm = Some (path', nm') \<Longrightarrow> length path' < length path"
proof -
  assume a: "skipelem path nm = Some (path', nm')"
  let ?p = "dropWhile (\<lambda>c. c = slash) path"
  have p: "?p \<noteq> []" using a by (auto simp: skipelem_def Let_def split: if_splits)
  then have "hd ?p \<noteq> slash" by (rule hd_dropWhile)
  then have "length (dropWhile (\<lambda>c. c \<noteq> slash) ?p) < length ?p"
    using p by (cases ?p) (simp_all add: length_dropWhile_le less_Suc_eq_le)
  moreover have "length path' \<le> length (dropWhile (\<lambda>c. c \<noteq> slash) ?p)"
    using a p by (simp add: skipelem_def Let_def del: dropWhile_eq_Nil_conv)
      (metis length_dropWhile_le)
  moreover have "length ?p \<le> length path" by (rule length_dropWhile_le)
  ultimately show ?thesis by simp
qed

function namex_loop :: "nat \<Rightarrow> u8 list \<Rightarrow> bool \<Rightarrow> u8 list \<Rightarrow> ('z fsys_scheme, (nat \<times> u8 list) option) routine" where
  "namex_loop ip path nameiparent nm =
     (case skipelem path nm of
        None \<Rightarrow> if nameiparent then sq (iput ip) (ret None) else ret (Some (ip, nm))
      | Some (path, nm) \<Rightarrow>
          sq (ilock ip)
          (bind (gets (\<lambda>s. itype (inodes s ip))) (\<lambda>t.
           if t \<noteq> T_DIR then sq (iunlockput ip) (ret None)
           else if nameiparent \<and> path = [] then sq (iunlock ip) (ret (Some (ip, nm)))
           else bind (dirlookup ip nm) (\<lambda>found.
             case found of
               None \<Rightarrow> sq (iunlockput ip) (ret None)
             | Some (next, _) \<Rightarrow> sq (iunlockput ip) (namex_loop next path nameiparent nm)))))"
  by pat_completeness auto
termination
  by (relation "measure (\<lambda>(ip, path, _). length path)") (auto dest: skipelem_shorter)

declare namex_loop.simps [simp del]

definition namex :: "u8 list \<Rightarrow> bool \<Rightarrow> u8 list \<Rightarrow> ('z fsys_scheme, (nat \<times> u8 list) option) routine" where
  "namex path nameiparent nm =
     bind (if path \<noteq> [] \<and> hd path = slash then iget ROOTDEV ROOTINO
           else bind this_proc (\<lambda>p. bind (gets (\<lambda>s. cwd (procs s p))) (\<lambda>c.
             case c of None \<Rightarrow> panic ''kerneltrap'' | Some ip \<Rightarrow> idup ip))) (\<lambda>ip.
     namex_loop ip path nameiparent nm)"

definition namei :: "u8 list \<Rightarrow> ('z fsys_scheme, nat option) routine" where
  "namei path =
     bind (namex path False (replicate DIRSIZ 0)) (\<lambda>r. ret (map_option fst r))"

definition nameiparent :: "u8 list \<Rightarrow> ('z fsys_scheme, (nat \<times> u8 list) option) routine" where
  "nameiparent path = namex path True (replicate DIRSIZ 0)"

end
