(* ===== verification/Console.thy ===== *)
theory Console
  imports Fs
begin

text \<open>
  The serial port and the console: \<^verbatim>\<open>kernel/uart.c\<close>, \<^verbatim>\<open>kernel/console.c\<close>,
  \<^verbatim>\<open>kernel/printf.c\<close> and procdump of \<^verbatim>\<open>kernel/proc.c\<close>.

  The UART is a device outside the program. Its state is what the driver sees of it: the
  registers written, the bytes handed to the transmitter, the input waiting in the receive
  register, and for each coming read of the line status register whether the transmitter is
  still busy. The list of busy answers is finite: the transmitter always becomes idle.
\<close>

section \<open>State\<close>

datatype devread = ConsoleRead
datatype devwrite = ConsoleWrite

record devsw_entry =
  dev_read :: "devread option"
  dev_write :: "devwrite option"

record consys = fsys +
  uart_regs :: "nat \<Rightarrow> u8"
  uart_out :: "u8 list"
  uart_in :: "u8 list"
  uart_busy :: "bool list"
  uart_tx_buf :: "nat \<Rightarrow> u8"
  uart_tx_w :: u64
  uart_tx_r :: u64
  panicked :: bool
  pr_locking :: bool
  cons_buf :: "nat \<Rightarrow> u8"
  cons_r :: u32
  cons_w :: u32
  cons_e :: u32
  devsw :: "nat \<Rightarrow> devsw_entry"

section \<open>uart.c\<close>

definition THR :: nat where "THR = 0"
definition IER :: nat where "IER = 1"
definition IER_RX_ENABLE :: u8 where "IER_RX_ENABLE = 1"
definition IER_TX_ENABLE :: u8 where "IER_TX_ENABLE = 2"
definition FCR :: nat where "FCR = 2"
definition FCR_FIFO_ENABLE :: u8 where "FCR_FIFO_ENABLE = 1"
definition FCR_FIFO_CLEAR :: u8 where "FCR_FIFO_CLEAR = 6"
definition LCR :: nat where "LCR = 3"
definition LCR_EIGHT_BITS :: u8 where "LCR_EIGHT_BITS = 3"
definition LCR_BAUD_LATCH :: u8 where "LCR_BAUD_LATCH = 0x80"
definition LSR_RX_READY :: u8 where "LSR_RX_READY = 1"
definition LSR_TX_IDLE :: u8 where "LSR_TX_IDLE = 0x20"
definition UART_TX_BUF_SIZE :: nat where "UART_TX_BUF_SIZE = 32"

text \<open>While the baud latch is set, register 0 holds the low byte of the divisor.\<close>

definition WriteReg :: "nat \<Rightarrow> u8 \<Rightarrow> ('z consys_scheme, unit) routine" where
  "WriteReg reg v = modify (\<lambda>s.
     if reg = THR \<and> uart_regs s LCR AND LCR_BAUD_LATCH = 0 then s\<lparr>uart_out := uart_out s @ [v]\<rparr>
     else s\<lparr>uart_regs := (uart_regs s)(reg := v)\<rparr>)"

definition ReadLSR :: "('z consys_scheme, u8) routine" where
  "ReadLSR =
     bind (gets (\<lambda>s. (if uart_in s \<noteq> [] then LSR_RX_READY else 0) OR
                     (if uart_busy s \<noteq> [] \<and> hd (uart_busy s) then 0 else LSR_TX_IDLE))) (\<lambda>v.
     sq (modify (\<lambda>s. s\<lparr>uart_busy := tl (uart_busy s)\<rparr>)) (ret v))"

definition ReadRHR :: "('z consys_scheme, u8) routine" where
  "ReadRHR =
     bind (gets (\<lambda>s. hd (uart_in s))) (\<lambda>c.
     sq (modify (\<lambda>s. s\<lparr>uart_in := tl (uart_in s)\<rparr>)) (ret c))"

definition uartinit :: "('z consys_scheme, unit) routine" where
  "uartinit =
     sq (WriteReg IER 0)
     (sq (WriteReg LCR LCR_BAUD_LATCH)
     (sq (WriteReg 0 3)
     (sq (WriteReg 1 0)
     (sq (WriteReg LCR LCR_EIGHT_BITS)
     (sq (WriteReg FCR (FCR_FIFO_ENABLE OR FCR_FIFO_CLEAR))
     (sq (WriteReg IER (IER_TX_ENABLE OR IER_RX_ENABLE))
         (initlock UartTxLock ''uart'')))))))"

fun uartstart_loop :: "nat \<Rightarrow> ('z consys_scheme, unit) routine" where
  "uartstart_loop n =
     bind (gets (\<lambda>s. uart_tx_w s = uart_tx_r s)) (\<lambda>empty.
     if empty then ret ()
     else case n of 0 \<Rightarrow> diverge | Suc n \<Rightarrow>
       bind ReadLSR (\<lambda>l.
       if l AND LSR_TX_IDLE = 0 then ret ()
       else
         bind (gets (\<lambda>s. uart_tx_buf s (unat (uart_tx_r s) mod UART_TX_BUF_SIZE))) (\<lambda>c.
         sq (modify (\<lambda>s. s\<lparr>uart_tx_r := uart_tx_r s + 1\<rparr>))
         (sq (wakeup UartTxR)
         (sq (WriteReg THR c)
             (uartstart_loop n))))))"

declare uartstart_loop.simps [simp del]

definition uartstart :: "('z consys_scheme, unit) routine" where
  "uartstart = bind (gets (\<lambda>s. unat (uart_tx_w s - uart_tx_r s))) uartstart_loop"

definition uartputc :: "u8 \<Rightarrow> ('z consys_scheme, unit) routine" where
  "uartputc c =
     sq (acquire UartTxLock)
     (bind (gets panicked) (\<lambda>p.
      if p then diverge
      else bind (gets (\<lambda>s. uart_tx_w s = uart_tx_r s + of_nat UART_TX_BUF_SIZE)) (\<lambda>full.
        if full then sleep UartTxR UartTxLock
        else
          sq (modify (\<lambda>s. s\<lparr>uart_tx_buf := (uart_tx_buf s)(unat (uart_tx_w s) mod UART_TX_BUF_SIZE := c),
                uart_tx_w := uart_tx_w s + 1\<rparr>))
          (sq uartstart
              (release UartTxLock)))))"

text \<open>The wait for the transmitter of uartputc_sync.\<close>

fun uart_wait :: "nat \<Rightarrow> ('z consys_scheme, unit) routine" where
  "uart_wait n = bind ReadLSR (\<lambda>l.
     if l AND LSR_TX_IDLE = 0 then (case n of 0 \<Rightarrow> diverge | Suc n \<Rightarrow> uart_wait n) else ret ())"

declare uart_wait.simps [simp del]

definition uartputc_sync :: "u8 \<Rightarrow> ('z consys_scheme, unit) routine" where
  "uartputc_sync c =
     sq push_off
     (bind (gets panicked) (\<lambda>p.
      if p then diverge
      else bind (gets (\<lambda>s. length (uart_busy s))) (\<lambda>n.
        sq (uart_wait n)
        (sq (WriteReg THR c)
            pop_off))))"

definition uartgetc :: "('z consys_scheme, u8 option) routine" where
  "uartgetc = bind ReadLSR (\<lambda>l.
     if l AND 1 \<noteq> 0 then bind ReadRHR (\<lambda>c. ret (Some c)) else ret None)"

section \<open>printf.c\<close>

definition BACKSPACE :: u32 where "BACKSPACE = 0x100"

definition consputc :: "u32 \<Rightarrow> ('z consys_scheme, unit) routine" where
  "consputc c =
     (if c = BACKSPACE then sq (uartputc_sync 8) (sq (uartputc_sync 32) (uartputc_sync 8))
      else uartputc_sync (ucast c))"

definition digits :: "u8 list" where
  "digits = map of_char ''0123456789abcdef''"

text \<open>
  The digit loop of printint, least significant digit first. printf calls it with base 10 or
  16; the guard makes the loop end for every base.
\<close>

function digit_loop :: "u32 \<Rightarrow> u32 \<Rightarrow> u8 list" where
  "digit_loop base x = digits ! unat (x mod base) #
     (if 1 < base \<and> x div base \<noteq> 0 then digit_loop base (x div base) else [])"
  by pat_completeness auto
termination
proof (relation "measure (\<lambda>(base, x). unat x)", goal_cases)
  case (2 base x)
  then have "unat x \<noteq> 0" "1 < unat base"
    by (auto simp: word_less_nat_alt unat_eq_0)
  then show ?case by (simp add: unat_div)
qed simp

declare digit_loop.simps [simp del]

text \<open>The characters of printint in the order they are sent.\<close>

definition int_text :: "u32 \<Rightarrow> u32 \<Rightarrow> bool \<Rightarrow> u8 list" where
  "int_text xx base sign =
     (let neg = sign \<and> sint xx < 0; x = if neg then - xx else xx in
      rev (digit_loop base x @ (if neg then [of_char CHR ''-''] else [])))"

definition put_text :: "u8 list \<Rightarrow> ('z consys_scheme, unit) routine" where
  "put_text cs = for_each cs (\<lambda>c. consputc (ucast c))"

definition printint :: "u32 \<Rightarrow> u32 \<Rightarrow> bool \<Rightarrow> ('z consys_scheme, unit) routine" where
  "printint xx base sign = put_text (int_text xx base sign)"

definition ptr_text :: "u64 \<Rightarrow> u8 list" where
  "ptr_text x = map of_char ''0x'' @ map (\<lambda>i. digits ! unat (drop_bit 60 (push_bit (4 * i) x))) [0..<16]"

definition printptr :: "u64 \<Rightarrow> ('z consys_scheme, unit) routine" where
  "printptr x = put_text (ptr_text x)"

text \<open>
  The variable arguments of printf; reading an argument that is not there, or of another
  type, is undefined in C and is shown as a panic.
\<close>

datatype parg = IntArg u32 | PtrArg u64 | StrArg "u8 list option"

fun printf_loop :: "u8 list \<Rightarrow> parg list \<Rightarrow> ('z consys_scheme, unit) routine" where
  "printf_loop [] args = ret ()"
| "printf_loop [c] args = (if c \<noteq> 37 then consputc (ucast c) else ret ())"
| "printf_loop (c # d # fmt) args =
     (if c \<noteq> 37 then sq (consputc (ucast c)) (printf_loop (d # fmt) args)
      else if d = of_char CHR ''d'' then
        (case args of IntArg x # args \<Rightarrow> sq (printint x 10 True) (printf_loop fmt args) | _ \<Rightarrow> panic ''va_arg'')
      else if d = of_char CHR ''x'' then
        (case args of IntArg x # args \<Rightarrow> sq (printint x 16 True) (printf_loop fmt args) | _ \<Rightarrow> panic ''va_arg'')
      else if d = of_char CHR ''p'' then
        (case args of PtrArg x # args \<Rightarrow> sq (printptr x) (printf_loop fmt args) | _ \<Rightarrow> panic ''va_arg'')
      else if d = of_char CHR ''s'' then
        (case args of StrArg x # args \<Rightarrow>
           sq (put_text (case x of None \<Rightarrow> map of_char ''(null)'' | Some cs \<Rightarrow> takeWhile (\<lambda>c. c \<noteq> 0) cs))
              (printf_loop fmt args)
         | _ \<Rightarrow> panic ''va_arg'')
      else if d = 37 then sq (consputc 37) (printf_loop fmt args)
      else sq (consputc 37) (sq (consputc (ucast d)) (printf_loop fmt args)))"

text \<open>The format is a byte list without its final NUL.\<close>

definition printf :: "u8 list \<Rightarrow> parg list \<Rightarrow> ('z consys_scheme, unit) routine" where
  "printf fmt args =
     bind (gets pr_locking) (\<lambda>locking.
     sq (if locking then acquire PrLock else ret ())
     (sq (printf_loop fmt args)
         (if locking then release PrLock else ret ())))"

definition printfinit :: "('z consys_scheme, unit) routine" where
  "printfinit = sq (initlock PrLock ''pr'') (modify (\<lambda>s. s\<lparr>pr_locking := True\<rparr>))"

fun state_text :: "procstate \<Rightarrow> string" where
  "state_text UNUSED = ''unused''"
| "state_text USED = ''used''"
| "state_text SLEEPING = ''sleep ''"
| "state_text RUNNABLE = ''runble''"
| "state_text RUNNING = ''run   ''"
| "state_text ZOMBIE = ''zombie''"

definition procdump :: "('z consys_scheme, unit) routine" where
  "procdump =
     sq (printf [10] [])
        (for_each [0..<NPROC] (\<lambda>p.
           bind (gets (\<lambda>s. procs s p)) (\<lambda>r.
           if state r = UNUSED then ret ()
           else
             sq (printf (map of_char ''%d %s %s'')
                   [IntArg (pid r), StrArg (Some (map of_char (state_text (state r)))), StrArg (Some (pname r))])
                (printf [10] []))))"

section \<open>console.c\<close>

definition INPUT_BUF_SIZE :: nat where "INPUT_BUF_SIZE = 128"
definition CONSOLE :: nat where "CONSOLE = 1"

text \<open>\<^verbatim>\<open>C(x)\<close>, the control character of a letter.\<close>

definition ctrl :: "char \<Rightarrow> u8" where "ctrl x = of_char x - of_char CHR ''@''"

definition newline :: u8 where "newline = 10"

text \<open>consolewrite gives the number of bytes sent.\<close>

fun consolewrite_loop :: "nat \<Rightarrow> source \<Rightarrow> nat \<Rightarrow> ('z consys_scheme, nat) routine" where
  "consolewrite_loop 0 src i = ret i"
| "consolewrite_loop (Suc k) src i =
     bind (either_copyin (source_add src i) 1) (\<lambda>(r, bs).
     if r = -1 then ret i
     else sq (uartputc (byte_at bs 0)) (consolewrite_loop k src (i + 1)))"

definition consolewrite :: "source \<Rightarrow> int \<Rightarrow> ('z consys_scheme, int) routine" where
  "consolewrite src n = bind (consolewrite_loop (nat n) src 0) (\<lambda>i. ret (int i))"

text \<open>
  The loop of consoleread counts \<open>n\<close> down and gives it back, or \<open>None\<close> when the process was
  killed; then the lock is already released.
\<close>

fun consoleread_loop :: "nat \<Rightarrow> nat \<Rightarrow> dest \<Rightarrow> u8 list \<Rightarrow> ('z consys_scheme, nat option \<times> u8 list) routine" where
  "consoleread_loop 0 target dst out = ret (Some 0, out)"
| "consoleread_loop (Suc k) target dst out =
     bind (gets (\<lambda>s. cons_r s = cons_w s)) (\<lambda>empty.
     if empty then
       bind this_proc (\<lambda>p.
       bind (is_killed p) (\<lambda>d.
       if d \<noteq> 0 then sq (release ConsLock) (ret (None, out))
       else sq (sleep ConsR ConsLock) diverge))
     else
       bind (gets (\<lambda>s. cons_buf s (unat (cons_r s) mod INPUT_BUF_SIZE))) (\<lambda>c.
       sq (modify (\<lambda>s. s\<lparr>cons_r := cons_r s + 1\<rparr>))
       (if c = ctrl CHR ''D'' then
          sq (if Suc k < target then modify (\<lambda>s. s\<lparr>cons_r := cons_r s - 1\<rparr>) else ret ())
             (ret (Some (Suc k), out))
        else
          bind (either_copyout dst [c]) (\<lambda>(r, bs).
          if r = -1 then ret (Some (Suc k), out)
          else if c = newline then ret (Some k, out @ bs)
          else consoleread_loop k target (dest_add dst 1) (out @ bs)))))"

definition consoleread :: "dest \<Rightarrow> int \<Rightarrow> ('z consys_scheme, int \<times> u8 list) routine" where
  "consoleread dst n =
     sq (acquire ConsLock)
     (bind (consoleread_loop (nat n) (nat n) dst []) (\<lambda>(rest, out).
      case rest of
        None \<Rightarrow> ret (-1, out)
      | Some k \<Rightarrow> sq (release ConsLock) (ret (int (nat n - k), out))))"

text \<open>The loop of ^U erases back to the start of the line.\<close>

fun kill_line :: "nat \<Rightarrow> ('z consys_scheme, unit) routine" where
  "kill_line n =
     bind (gets (\<lambda>s. s)) (\<lambda>s.
     if cons_e s \<noteq> cons_w s \<and> cons_buf s (unat (cons_e s - 1) mod INPUT_BUF_SIZE) \<noteq> newline then
       (case n of 0 \<Rightarrow> diverge | Suc n \<Rightarrow>
        sq (modify (\<lambda>s. s\<lparr>cons_e := cons_e s - 1\<rparr>))
        (sq (consputc BACKSPACE)
            (kill_line n)))
     else ret ())"

declare kill_line.simps [simp del]

definition store_char :: "u8 \<Rightarrow> ('z consys_scheme, unit) routine" where
  "store_char c =
     sq (modify (\<lambda>s. s\<lparr>cons_buf := (cons_buf s)(unat (cons_e s) mod INPUT_BUF_SIZE := c), cons_e := cons_e s + 1\<rparr>))
     (bind (gets (\<lambda>s. unat (cons_e s - cons_r s) = INPUT_BUF_SIZE)) (\<lambda>full.
      if c = newline \<or> c = ctrl CHR ''D'' \<or> full then
        sq (modify (\<lambda>s. s\<lparr>cons_w := cons_e s\<rparr>)) (wakeup ConsR)
      else ret ()))"

definition consoleintr :: "u8 \<Rightarrow> ('z consys_scheme, unit) routine" where
  "consoleintr c =
     sq (acquire ConsLock)
     (sq (if c = ctrl CHR ''P'' then procdump
          else if c = ctrl CHR ''U'' then
            bind (gets (\<lambda>s. unat (cons_e s - cons_w s))) kill_line
          else if c = ctrl CHR ''H'' \<or> c = 0x7f then
            bind (gets (\<lambda>s. cons_e s \<noteq> cons_w s)) (\<lambda>more.
            if more then sq (modify (\<lambda>s. s\<lparr>cons_e := cons_e s - 1\<rparr>)) (consputc BACKSPACE) else ret ())
          else
            bind (gets (\<lambda>s. unat (cons_e s - cons_r s))) (\<lambda>used.
            if c \<noteq> 0 \<and> used < INPUT_BUF_SIZE then
              let c = (if c = 13 then newline else c) in
              sq (consputc (ucast c)) (store_char c)
            else ret ()))
         (release ConsLock))"

definition consoleinit :: "('z consys_scheme, unit) routine" where
  "consoleinit =
     sq (initlock ConsLock ''cons'')
     (sq uartinit
         (modify (\<lambda>s. s\<lparr>devsw := (devsw s)(CONSOLE := \<lparr>dev_read = Some ConsoleRead, dev_write = Some ConsoleWrite\<rparr>)\<rparr>)))"

section \<open>The interrupt handler (uart.c)\<close>

fun uart_input :: "nat \<Rightarrow> ('z consys_scheme, unit) routine" where
  "uart_input n =
     bind uartgetc (\<lambda>c.
     case c of None \<Rightarrow> ret ()
     | Some c \<Rightarrow> (case n of 0 \<Rightarrow> diverge | Suc n \<Rightarrow> sq (consoleintr c) (uart_input n)))"

declare uart_input.simps [simp del]

definition uartintr :: "('z consys_scheme, unit) routine" where
  "uartintr =
     bind (gets (\<lambda>s. length (uart_in s))) (\<lambda>n.
     sq (uart_input n)
     (sq (acquire UartTxLock)
     (sq uartstart
         (release UartTxLock))))"

end
