(* ===== verification/Pipe.thy ===== *)
theory Pipe
  imports Console
begin

text \<open>
  Pipes, \<^verbatim>\<open>kernel/pipe.c\<close>. A pipe lives in the page that pipealloc took from the
  allocator; the store \<open>pipes\<close> gives the struct at each page address. \<open>pipe_bytes\<close> is the
  queue a pipe stands for. pipealloc is in the theory File, which has the file table.
\<close>

section \<open>Model\<close>

definition PIPESIZE :: nat where "PIPESIZE = 512"

record pipe =
  pdata :: "nat \<Rightarrow> u8"
  nread :: u32
  nwrite :: u32
  readopen :: bool
  writeopen :: bool

record pipesys = consys +
  pipes :: "u64 \<Rightarrow> pipe"

definition upd_pipe :: "u64 \<Rightarrow> (pipe \<Rightarrow> pipe) \<Rightarrow> ('z pipesys_scheme, unit) routine" where
  "upd_pipe pi f = modify (\<lambda>s. s\<lparr>pipes := (pipes s)(pi := f (pipes s pi))\<rparr>)"

definition pipeclose :: "u64 \<Rightarrow> bool \<Rightarrow> ('z pipesys_scheme, unit) routine" where
  "pipeclose pi wr =
     sq (acquire (PipeLock pi))
     (sq (if wr then
            sq (upd_pipe pi (\<lambda>p. p\<lparr>writeopen := False\<rparr>)) (wakeup (PipeRead pi))
          else
            sq (upd_pipe pi (\<lambda>p. p\<lparr>readopen := False\<rparr>)) (wakeup (PipeWrite pi)))
     (bind (gets (\<lambda>s. pipes s pi)) (\<lambda>p.
      if \<not> readopen p \<and> \<not> writeopen p then
        sq (release (PipeLock pi)) (kfree pi)
      else release (PipeLock pi))))"

definition push_byte :: "u8 \<Rightarrow> pipe \<Rightarrow> pipe" where
  "push_byte c p = p\<lparr>pdata := (pdata p)(unat (nwrite p) mod PIPESIZE := c), nwrite := nwrite p + 1\<rparr>"

definition pipe_full :: "pipe \<Rightarrow> bool" where
  "pipe_full p \<longleftrightarrow> nwrite p = nread p + of_nat PIPESIZE"

text \<open>The loop of pipewrite gives the bytes written, or \<open>None\<close> for its early return.\<close>

fun pipewrite_loop :: "nat \<Rightarrow> nat \<Rightarrow> u64 \<Rightarrow> u64 \<Rightarrow> nat \<Rightarrow> ('z pipesys_scheme, nat option) routine" where
  "pipewrite_loop 0 pr pi addr i = ret (Some i)"
| "pipewrite_loop (Suc k) pr pi addr i =
     bind (gets (\<lambda>s. pipes s pi)) (\<lambda>p.
     bind (if \<not> readopen p then ret True else bind (is_killed pr) (\<lambda>d. ret (d \<noteq> 0))) (\<lambda>stop.
     if stop then sq (release (PipeLock pi)) (ret None)
     else if pipe_full p then
       sq (wakeup (PipeRead pi)) (sq (sleep (PipeWrite pi) (PipeLock pi)) diverge)
     else
       bind (gets (\<lambda>s. pagetable (procs s pr))) (\<lambda>pgt.
       bind (copyin pgt (addr + of_nat i) 1) (\<lambda>(r, bs).
       if r = -1 then ret (Some i)
       else sq (upd_pipe pi (push_byte (byte_at bs 0)))
               (pipewrite_loop k pr pi addr (i + 1))))))"

definition pipewrite :: "u64 \<Rightarrow> u64 \<Rightarrow> int \<Rightarrow> ('z pipesys_scheme, int) routine" where
  "pipewrite pi addr n =
     bind this_proc (\<lambda>pr.
     sq (acquire (PipeLock pi))
     (bind (pipewrite_loop (nat n) pr pi addr 0) (\<lambda>r.
      case r of None \<Rightarrow> ret (-1)
      | Some i \<Rightarrow>
          sq (wakeup (PipeRead pi))
          (sq (release (PipeLock pi)) (ret (int i))))))"

fun piperead_loop :: "nat \<Rightarrow> nat \<Rightarrow> u64 \<Rightarrow> u64 \<Rightarrow> nat \<Rightarrow> ('z pipesys_scheme, nat) routine" where
  "piperead_loop 0 pr pi addr i = ret i"
| "piperead_loop (Suc k) pr pi addr i =
     bind (gets (\<lambda>s. pipes s pi)) (\<lambda>p.
     if nread p = nwrite p then ret i
     else
       let ch = pdata p (unat (nread p) mod PIPESIZE) in
       sq (upd_pipe pi (\<lambda>p. p\<lparr>nread := nread p + 1\<rparr>))
       (bind (gets (\<lambda>s. pagetable (procs s pr))) (\<lambda>pgt.
        bind (copyout pgt (addr + of_nat i) [ch]) (\<lambda>r.
        if r = -1 then ret i else piperead_loop k pr pi addr (i + 1)))))"

definition piperead :: "u64 \<Rightarrow> u64 \<Rightarrow> int \<Rightarrow> ('z pipesys_scheme, int) routine" where
  "piperead pi addr n =
     bind this_proc (\<lambda>pr.
     sq (acquire (PipeLock pi))
     (bind (gets (\<lambda>s. pipes s pi)) (\<lambda>p.
      if nread p = nwrite p \<and> writeopen p then
        bind (is_killed pr) (\<lambda>d.
        if d \<noteq> 0 then sq (release (PipeLock pi)) (ret (-1))
        else sq (sleep (PipeRead pi) (PipeLock pi)) diverge)
      else
        bind (piperead_loop (nat n) pr pi addr 0) (\<lambda>i.
        sq (wakeup (PipeWrite pi))
        (sq (release (PipeLock pi)) (ret (int i)))))))"

end
