(* ===== verification/File.thy ===== *)
theory File
  imports Pipe
begin

text \<open>
  Open files, \<^verbatim>\<open>kernel/file.c\<close> and \<^verbatim>\<open>file.h\<close>, and pipealloc of
  \<^verbatim>\<open>kernel/pipe.c\<close>. A \<^verbatim>\<open>struct file\<close> pointer is an index of the file table.
\<close>

section \<open>State\<close>

datatype fdtype = FD_NONE | FD_PIPE | FD_INODE | FD_DEVICE

record kfile =
  ftype :: fdtype
  fref :: int
  freadable :: bool
  fwritable :: bool
  fpipe :: u64
  fip :: "nat option"
  foff :: u32
  fmajor :: u16

record filesys = pipesys +
  files :: "nat \<Rightarrow> kfile"

definition upd_file :: "nat \<Rightarrow> (kfile \<Rightarrow> kfile) \<Rightarrow> ('z filesys_scheme, unit) routine" where
  "upd_file f g = modify (\<lambda>s. s\<lparr>files := (files s)(f := g (files s f))\<rparr>)"

section \<open>The file table\<close>

definition fileinit :: "('z filesys_scheme, unit) routine" where
  "fileinit = initlock FtableLock ''ftable''"

definition filealloc :: "('z filesys_scheme, nat option) routine" where
  "filealloc =
     sq (acquire FtableLock)
     (bind (gets files) (\<lambda>fs.
      case find (\<lambda>f. fref (fs f) = 0) [0..<NFILE] of
        Some f \<Rightarrow> sq (upd_file f (\<lambda>r. r\<lparr>fref := 1\<rparr>)) (sq (release FtableLock) (ret (Some f)))
      | None \<Rightarrow> sq (release FtableLock) (ret None)))"

definition filedup :: "nat \<Rightarrow> ('z filesys_scheme, nat) routine" where
  "filedup f =
     sq (acquire FtableLock)
     (bind (gets (\<lambda>s. fref (files s f))) (\<lambda>n.
     sq (panic_if (n < 1) ''filedup'')
     (sq (upd_file f (\<lambda>r. r\<lparr>fref := fref r + 1\<rparr>))
     (sq (release FtableLock) (ret f)))))"

text \<open>A null inode pointer in an inode or device file faults.\<close>

definition inode_of :: "nat option \<Rightarrow> ('z fsys_scheme, nat) routine" where
  "inode_of ip = (case ip of None \<Rightarrow> panic ''kerneltrap'' | Some i \<Rightarrow> ret i)"

definition fileclose :: "nat \<Rightarrow> ('z filesys_scheme, unit) routine" where
  "fileclose f =
     sq (acquire FtableLock)
     (bind (gets (\<lambda>s. fref (files s f))) (\<lambda>n.
     sq (panic_if (n < 1) ''fileclose'')
     (sq (upd_file f (\<lambda>r. r\<lparr>fref := fref r - 1\<rparr>))
     (bind (gets (\<lambda>s. files s f)) (\<lambda>ff.
      if fref ff > 0 then release FtableLock
      else
        sq (upd_file f (\<lambda>r. r\<lparr>fref := 0, ftype := FD_NONE\<rparr>))
        (sq (release FtableLock)
        (case ftype ff of
           FD_PIPE \<Rightarrow> pipeclose (fpipe ff) (fwritable ff)
         | FD_NONE \<Rightarrow> ret ()
         | _ \<Rightarrow> sq begin_op
             (sq (bind (inode_of (fip ff)) iput)
                 end_op))))))))"

text \<open>The bytes of struct stat: dev, ino, type, nlink, and size at its aligned offset.\<close>

definition stat_bytes :: "stat \<Rightarrow> u8 list" where
  "stat_bytes st =
     put32 (put32 (put16 (put16 (put32 (put32 (replicate 24 0) 0 (st_dev st)) 4 (st_ino st))
       8 (st_type st)) 10 (st_nlink st)) 16 (ucast (st_size st))) 20 (ucast (drop_bit 32 (st_size st)))"

definition filestat :: "nat \<Rightarrow> u64 \<Rightarrow> ('z filesys_scheme, int) routine" where
  "filestat f addr =
     bind this_proc (\<lambda>p.
     bind (gets (\<lambda>s. files s f)) (\<lambda>r.
     if ftype r = FD_INODE \<or> ftype r = FD_DEVICE then
       bind (inode_of (fip r)) (\<lambda>ip.
       sq (ilock ip)
       (bind (gets (\<lambda>s. stati (inodes s ip))) (\<lambda>st.
       sq (iunlock ip)
       (bind (gets (\<lambda>s. pagetable (procs s p))) (\<lambda>pgt.
        bind (copyout pgt addr (stat_bytes st)) (\<lambda>c.
        ret (if c < 0 then -1 else 0)))))))
     else ret (-1)))"

text \<open>The device switch: the major number is a signed \<^verbatim>\<open>short\<close>.\<close>

definition dev_index :: "u16 \<Rightarrow> nat option" where
  "dev_index m = (if sint m < 0 \<or> sint m \<ge> int NDEV then None else Some (nat (sint m)))"

definition call_read :: "devread \<Rightarrow> u64 \<Rightarrow> int \<Rightarrow> ('z consys_scheme, int) routine" where
  "call_read d addr n = (case d of ConsoleRead \<Rightarrow> bind (consoleread (UserAddr addr) n) (\<lambda>(r, _). ret r))"

definition call_write :: "devwrite \<Rightarrow> u64 \<Rightarrow> int \<Rightarrow> ('z consys_scheme, int) routine" where
  "call_write d addr n = (case d of ConsoleWrite \<Rightarrow> consolewrite (FromUser addr) n)"

definition fileread :: "nat \<Rightarrow> u64 \<Rightarrow> int \<Rightarrow> ('z filesys_scheme, int) routine" where
  "fileread f addr n =
     bind (gets (\<lambda>s. files s f)) (\<lambda>r.
     if \<not> freadable r then ret (-1)
     else case ftype r of
       FD_PIPE \<Rightarrow> piperead (fpipe r) addr n
     | FD_DEVICE \<Rightarrow>
         (case dev_index (fmajor r) of None \<Rightarrow> ret (-1)
          | Some m \<Rightarrow> bind (gets (\<lambda>s. dev_read (devsw s m))) (\<lambda>d.
              case d of None \<Rightarrow> ret (-1) | Some d \<Rightarrow> call_read d addr n))
     | FD_INODE \<Rightarrow>
         bind (inode_of (fip r)) (\<lambda>ip.
         sq (ilock ip)
         (bind (readi ip (UserAddr addr) (foff r) (of_int n)) (\<lambda>(c, _).
          sq (if c > 0 then upd_file f (\<lambda>r. r\<lparr>foff := foff r + of_int c\<rparr>) else ret ())
          (sq (iunlock ip) (ret c)))))
     | FD_NONE \<Rightarrow> panic ''fileread'')"

definition write_max :: int where
  "write_max = int ((MAXOPBLOCKS - 1 - 1 - 2) div 2 * BSIZE)"

text \<open>The loop of filewrite, one transaction per round.\<close>

fun filewrite_loop :: "nat \<Rightarrow> nat \<Rightarrow> nat \<Rightarrow> u64 \<Rightarrow> int \<Rightarrow> int \<Rightarrow> ('z filesys_scheme, int) routine" where
  "filewrite_loop k f ip addr n i =
     (if i < n then
        (case k of 0 \<Rightarrow> diverge | Suc k \<Rightarrow>
         let n1 = min (n - i) write_max in
         sq begin_op
         (sq (ilock ip)
         (bind (gets (\<lambda>s. foff (files s f))) (\<lambda>o'.
          bind (writei ip (FromUser (addr + of_int i)) o' (of_int n1)) (\<lambda>r.
          sq (if r > 0 then upd_file f (\<lambda>r'. r'\<lparr>foff := foff r' + of_int r\<rparr>) else ret ())
          (sq (iunlock ip)
          (sq end_op
          (if r \<noteq> n1 then ret i else filewrite_loop k f ip addr n (i + r)))))))))
      else ret i)"

declare filewrite_loop.simps [simp del]

definition filewrite :: "nat \<Rightarrow> u64 \<Rightarrow> int \<Rightarrow> ('z filesys_scheme, int) routine" where
  "filewrite f addr n =
     bind (gets (\<lambda>s. files s f)) (\<lambda>r.
     if \<not> fwritable r then ret (-1)
     else case ftype r of
       FD_PIPE \<Rightarrow> pipewrite (fpipe r) addr n
     | FD_DEVICE \<Rightarrow>
         (case dev_index (fmajor r) of None \<Rightarrow> ret (-1)
          | Some m \<Rightarrow> bind (gets (\<lambda>s. dev_write (devsw s m))) (\<lambda>d.
              case d of None \<Rightarrow> ret (-1) | Some d \<Rightarrow> call_write d addr n))
     | FD_INODE \<Rightarrow>
         bind (inode_of (fip r)) (\<lambda>ip.
         bind (filewrite_loop (nat (n div write_max) + 1) f ip addr n 0) (\<lambda>i.
         ret (if i = n then n else -1)))
     | FD_NONE \<Rightarrow> panic ''filewrite'')"

section \<open>pipealloc\<close>

definition pipe_bad :: "nat option \<Rightarrow> nat option \<Rightarrow> ('z filesys_scheme, (nat \<times> nat) option) routine" where
  "pipe_bad f0 f1 =
     sq (case f0 of Some f \<Rightarrow> fileclose f | None \<Rightarrow> ret ())
     (sq (case f1 of Some f \<Rightarrow> fileclose f | None \<Rightarrow> ret ())
         (ret None))"

definition pipealloc :: "('z filesys_scheme, (nat \<times> nat) option) routine" where
  "pipealloc =
     bind filealloc (\<lambda>r0. case r0 of None \<Rightarrow> pipe_bad None None | Some f0 \<Rightarrow>
     bind filealloc (\<lambda>r1. case r1 of None \<Rightarrow> pipe_bad r0 None | Some f1 \<Rightarrow>
     bind kalloc (\<lambda>pi. if pi = 0 then pipe_bad r0 r1 else
     sq (upd_pipe pi (\<lambda>p. p\<lparr>readopen := True, writeopen := True, nwrite := 0, nread := 0\<rparr>))
     (sq (initlock (PipeLock pi) ''pipe'')
     (sq (upd_file f0 (\<lambda>r. r\<lparr>ftype := FD_PIPE, freadable := True, fwritable := False, fpipe := pi\<rparr>))
     (sq (upd_file f1 (\<lambda>r. r\<lparr>ftype := FD_PIPE, freadable := False, fwritable := True, fpipe := pi\<rparr>))
         (ret (Some (f0, f1)))))))))"

end
