(* ===== verification/Process.thy ===== *)
theory Process
  imports File
begin

text \<open>
  The life of a process, \<^verbatim>\<open>kernel/proc.c\<close>: the first process, fork, exit and wait.
  exit ends in the scheduler: \<open>exit_out\<close> is its part up to the switch, which gives the
  interrupt flag that sched saves, and \<open>exit\<close> never returns.
\<close>

section \<open>Trap frames and names\<close>

text \<open>The trap frame of a process is a page of physical memory.\<close>

definition tf_load :: "nat \<Rightarrow> u64 \<Rightarrow> ('z ptable_scheme, u64) routine" where
  "tf_load p o' = bind (gets (\<lambda>s. trapframe (procs s p))) (\<lambda>tf. load (tf + o'))"

definition tf_store :: "nat \<Rightarrow> u64 \<Rightarrow> u64 \<Rightarrow> ('z ptable_scheme, unit) routine" where
  "tf_store p o' v = bind (gets (\<lambda>s. trapframe (procs s p))) (\<lambda>tf. store (tf + o') v)"

text \<open>\<^verbatim>\<open>safestrcpy(dst, src, sizeof(dst))\<close> for a name of 16 bytes.\<close>

definition NAMESIZE :: nat where "NAMESIZE = 16"

definition copy_name :: "u8 list \<Rightarrow> u8 list \<Rightarrow> u8 list" where
  "copy_name dst src =
     (let t = take (NAMESIZE - 1) (takeWhile (\<lambda>c. c \<noteq> 0) src) in t @ [0] @ drop (length t + 1) dst)"

section \<open>The first process\<close>

definition initcode :: "u8 list" where
  "initcode =
    [0x17, 0x05, 0x00, 0x00, 0x13, 0x05, 0x45, 0x02,
     0x97, 0x05, 0x00, 0x00, 0x93, 0x85, 0x35, 0x02,
     0x93, 0x08, 0x70, 0x00, 0x73, 0x00, 0x00, 0x00,
     0x93, 0x08, 0x20, 0x00, 0x73, 0x00, 0x00, 0x00,
     0xef, 0xf0, 0x9f, 0xff, 0x2f, 0x69, 0x6e, 0x69,
     0x74, 0x00, 0x00, 0x24, 0x00, 0x00, 0x00, 0x00,
     0x00, 0x00, 0x00, 0x00]"

definition userinit :: "('z filesys_scheme, unit) routine" where
  "userinit =
     bind allocproc (\<lambda>a.
     sq (modify (\<lambda>s. s\<lparr>initproc := a\<rparr>))
     (case a of None \<Rightarrow> panic ''kerneltrap''
      | Some p \<Rightarrow>
        bind (gets (\<lambda>s. pagetable (procs s p))) (\<lambda>pgt.
        sq (uvmfirst pgt initcode)
        (sq (upd_proc p (\<lambda>r. r\<lparr>sz := PGSIZE\<rparr>))
        (sq (tf_store p TF_epc 0)
        (sq (tf_store p TF_sp PGSIZE)
        (sq (upd_proc p (\<lambda>r. r\<lparr>pname := copy_name (pname r) (map of_char ''initcode'')\<rparr>))
        (bind (namei [slash]) (\<lambda>c.
        sq (upd_proc p (\<lambda>r. r\<lparr>cwd := c\<rparr>))
        (sq (upd_proc p (\<lambda>r. r\<lparr>state := RUNNABLE\<rparr>))
            (release (ProcLock p))))))))))))"

section \<open>fork\<close>

definition dup_files :: "nat \<Rightarrow> nat \<Rightarrow> ('z filesys_scheme, unit) routine" where
  "dup_files p np = for_each [0..<NOFILE] (\<lambda>i.
     bind (gets (\<lambda>s. ofile (procs s p) ! i)) (\<lambda>f.
     case f of None \<Rightarrow> ret ()
     | Some f \<Rightarrow> bind (filedup f) (\<lambda>f'.
         upd_proc np (\<lambda>r. r\<lparr>ofile := (ofile r)[i := Some f']\<rparr>))))"

definition fork :: "('z filesys_scheme, int) routine" where
  "fork =
     bind this_proc (\<lambda>p.
     bind allocproc (\<lambda>a.
     case a of None \<Rightarrow> ret (-1)
     | Some np \<Rightarrow>
       bind (gets procs) (\<lambda>ps.
       bind (uvmcopy (pagetable (ps p)) (pagetable (ps np)) (sz (ps p))) (\<lambda>r.
       if r < 0 then
         sq (freeproc np) (sq (release (ProcLock np)) (ret (-1)))
       else
         sq (upd_proc np (\<lambda>r. r\<lparr>sz := sz (ps p)\<rparr>))
         (sq (modify (\<lambda>s. s\<lparr>mem := write_bytes (mem s) (trapframe (ps np))
                (read_bytes (mem s) (trapframe (ps p)) (unat TF_size))\<rparr>))
         (sq (tf_store np TF_a0 0)
         (sq (dup_files p np)
         (bind (inode_of (cwd (ps p))) (\<lambda>c.
         (bind (idup c) (\<lambda>c.
         sq (upd_proc np (\<lambda>r. r\<lparr>cwd := Some c\<rparr>))
         (sq (upd_proc np (\<lambda>r. r\<lparr>pname := copy_name (pname r) (pname (ps p))\<rparr>))
         (bind (gets (\<lambda>s. pid (procs s np))) (\<lambda>i.
         sq (release (ProcLock np))
         (sq (acquire WaitLock)
         (sq (upd_proc np (\<lambda>r. r\<lparr>parent := Some p\<rparr>))
         (sq (release WaitLock)
         (sq (acquire (ProcLock np))
         (sq (upd_proc np (\<lambda>r. r\<lparr>state := RUNNABLE\<rparr>))
         (sq (release (ProcLock np))
             (ret (sint i))))))))))))))))))))))"

section \<open>exit and wait\<close>

definition close_files :: "nat \<Rightarrow> ('z filesys_scheme, unit) routine" where
  "close_files p = for_each [0..<NOFILE] (\<lambda>fd.
     bind (gets (\<lambda>s. ofile (procs s p) ! fd)) (\<lambda>f.
     case f of None \<Rightarrow> ret ()
     | Some f \<Rightarrow> sq (fileclose f)
         (upd_proc p (\<lambda>r. r\<lparr>ofile := (ofile r)[fd := None]\<rparr>))))"

definition exit_out :: "u32 \<Rightarrow> ('z filesys_scheme, bool) routine" where
  "exit_out status =
     bind this_proc (\<lambda>p.
     bind (gets initproc) (\<lambda>ini.
     sq (panic_if (Some p = ini) ''init exiting'')
     (sq (close_files p)
     (sq begin_op
     (bind (gets (\<lambda>s. cwd (procs s p))) (\<lambda>c.
     sq (bind (inode_of c) iput)
     (sq end_op
     (sq (upd_proc p (\<lambda>r. r\<lparr>cwd := None\<rparr>))
     (sq (acquire WaitLock)
     (sq (reparent p)
     (bind (gets (\<lambda>s. parent (procs s p))) (\<lambda>par.
     sq (wakeup (proc_chan par))
     (sq (acquire (ProcLock p))
     (sq (upd_proc p (\<lambda>r. r\<lparr>xstate := status, state := ZOMBIE\<rparr>))
     (sq (release WaitLock)
         sched_out)))))))))))))))"

definition exit :: "u32 \<Rightarrow> ('z filesys_scheme, 'a) routine" where
  "exit status = sq (exit_out status) diverge"

text \<open>
  One pass of wait over the table: \<open>Inl\<close> the value wait returns, or \<open>Inr\<close> whether the
  caller has children.
\<close>

fun wait_scan :: "nat \<Rightarrow> u64 \<Rightarrow> nat list \<Rightarrow> bool \<Rightarrow> ('z filesys_scheme, int + bool) routine" where
  "wait_scan p addr [] havekids = ret (Inr havekids)"
| "wait_scan p addr (pp # pps) havekids =
     bind (gets (\<lambda>s. parent (procs s pp))) (\<lambda>par.
     if par = Some p then
       sq (acquire (ProcLock pp))
       (bind (gets (\<lambda>s. procs s pp)) (\<lambda>r.
        if state r = ZOMBIE then
          bind (if addr \<noteq> 0 then
                  bind (gets (\<lambda>s. pagetable (procs s p))) (\<lambda>pgt.
                  bind (copyout pgt addr (put32 (replicate 4 0) 0 (xstate r))) (\<lambda>c. ret (c < 0)))
                else ret False) (\<lambda>failed.
          if failed then
            sq (release (ProcLock pp)) (sq (release WaitLock) (ret (Inl (-1))))
          else
            sq (freeproc pp)
            (sq (release (ProcLock pp))
            (sq (release WaitLock) (ret (Inl (sint (pid r)))))))
        else
          sq (release (ProcLock pp)) (wait_scan p addr pps True)))
     else wait_scan p addr pps havekids)"

definition wait :: "u64 \<Rightarrow> ('z filesys_scheme, int) routine" where
  "wait addr =
     bind this_proc (\<lambda>p.
     sq (acquire WaitLock)
     (bind (wait_scan p addr [0..<NPROC] False) (\<lambda>r.
      case r of
        Inl v \<Rightarrow> ret v
      | Inr havekids \<Rightarrow>
          bind (if \<not> havekids then ret True else bind (is_killed p) (\<lambda>d. ret (d \<noteq> 0))) (\<lambda>stop.
          if stop then sq (release WaitLock) (ret (-1))
          else sq (sleep (ProcChan p) WaitLock) diverge))))"

end
