(* ===== verification/Virtio.thy ===== *)
theory Virtio
  imports Process
begin

text \<open>
  The disk driver, \<^verbatim>\<open>kernel/virtio_disk.c\<close>. The queue lives in three pages shared with
  the device; the model keeps their contents as typed arrays next to the page addresses.
  A DMA address is the object it points to. The device is outside the program: its
  registers are the map \<open>mmio\<close>, and what it puts in the used ring is part of the state.

  virtio_disk_rw waits for the interrupt handler in the middle. \<open>virtio_submit\<close> is its part
  up to the wait and \<open>virtio_finish\<close> the part after it. The buffer cache uses
  \<open>disk_rw\<close>, the effect of the two parts with a completed request in between.
\<close>

section \<open>State\<close>

definition NUM :: nat where "NUM = 8"

datatype dma = DmaNull | DmaReq nat | DmaData nat | DmaStatus nat

record virtq_desc =
  d_addr :: dma
  d_len :: u32
  d_flags :: u16
  d_next :: u16

record virtio_blk_req =
  req_type :: u32
  req_reserved :: u32
  req_sector :: u64

record vdisk = filesys +
  mmio :: "nat \<Rightarrow> u32"
  desc_page :: u64
  avail_page :: u64
  used_page :: u64
  desc :: "nat \<Rightarrow> virtq_desc"
  avail_idx :: u16
  avail_ring :: "nat \<Rightarrow> u16"
  used_dev_idx :: u16
  used_ring :: "nat \<Rightarrow> u32"
  desc_free :: "nat \<Rightarrow> bool"
  used_idx :: u16
  info_b :: "nat \<Rightarrow> nat option"
  info_status :: "nat \<Rightarrow> u8"
  ops :: "nat \<Rightarrow> virtio_blk_req"

definition VIRTIO_MMIO_MAGIC_VALUE :: nat where "VIRTIO_MMIO_MAGIC_VALUE = 0x000"
definition VIRTIO_MMIO_VERSION :: nat where "VIRTIO_MMIO_VERSION = 0x004"
definition VIRTIO_MMIO_DEVICE_ID :: nat where "VIRTIO_MMIO_DEVICE_ID = 0x008"
definition VIRTIO_MMIO_VENDOR_ID :: nat where "VIRTIO_MMIO_VENDOR_ID = 0x00c"
definition VIRTIO_MMIO_DEVICE_FEATURES :: nat where "VIRTIO_MMIO_DEVICE_FEATURES = 0x010"
definition VIRTIO_MMIO_DRIVER_FEATURES :: nat where "VIRTIO_MMIO_DRIVER_FEATURES = 0x020"
definition VIRTIO_MMIO_QUEUE_SEL :: nat where "VIRTIO_MMIO_QUEUE_SEL = 0x030"
definition VIRTIO_MMIO_QUEUE_NUM_MAX :: nat where "VIRTIO_MMIO_QUEUE_NUM_MAX = 0x034"
definition VIRTIO_MMIO_QUEUE_NUM :: nat where "VIRTIO_MMIO_QUEUE_NUM = 0x038"
definition VIRTIO_MMIO_QUEUE_READY :: nat where "VIRTIO_MMIO_QUEUE_READY = 0x044"
definition VIRTIO_MMIO_QUEUE_NOTIFY :: nat where "VIRTIO_MMIO_QUEUE_NOTIFY = 0x050"
definition VIRTIO_MMIO_INTERRUPT_STATUS :: nat where "VIRTIO_MMIO_INTERRUPT_STATUS = 0x060"
definition VIRTIO_MMIO_INTERRUPT_ACK :: nat where "VIRTIO_MMIO_INTERRUPT_ACK = 0x064"
definition VIRTIO_MMIO_STATUS :: nat where "VIRTIO_MMIO_STATUS = 0x070"
definition VIRTIO_MMIO_QUEUE_DESC_LOW :: nat where "VIRTIO_MMIO_QUEUE_DESC_LOW = 0x080"
definition VIRTIO_MMIO_QUEUE_DESC_HIGH :: nat where "VIRTIO_MMIO_QUEUE_DESC_HIGH = 0x084"
definition VIRTIO_MMIO_DRIVER_DESC_LOW :: nat where "VIRTIO_MMIO_DRIVER_DESC_LOW = 0x090"
definition VIRTIO_MMIO_DRIVER_DESC_HIGH :: nat where "VIRTIO_MMIO_DRIVER_DESC_HIGH = 0x094"
definition VIRTIO_MMIO_DEVICE_DESC_LOW :: nat where "VIRTIO_MMIO_DEVICE_DESC_LOW = 0x0a0"
definition VIRTIO_MMIO_DEVICE_DESC_HIGH :: nat where "VIRTIO_MMIO_DEVICE_DESC_HIGH = 0x0a4"

definition VIRTIO_CONFIG_S_ACKNOWLEDGE :: u32 where "VIRTIO_CONFIG_S_ACKNOWLEDGE = 1"
definition VIRTIO_CONFIG_S_DRIVER :: u32 where "VIRTIO_CONFIG_S_DRIVER = 2"
definition VIRTIO_CONFIG_S_DRIVER_OK :: u32 where "VIRTIO_CONFIG_S_DRIVER_OK = 4"
definition VIRTIO_CONFIG_S_FEATURES_OK :: u32 where "VIRTIO_CONFIG_S_FEATURES_OK = 8"

text \<open>The feature bits the driver refuses, in the order of virtio_disk_init.\<close>

definition refused_features :: "nat list" where
  "refused_features = [5, 7, 11, 12, 27, 29, 28]"

definition VRING_DESC_F_NEXT :: u16 where "VRING_DESC_F_NEXT = 1"
definition VRING_DESC_F_WRITE :: u16 where "VRING_DESC_F_WRITE = 2"
definition VIRTIO_BLK_T_IN :: u32 where "VIRTIO_BLK_T_IN = 0"
definition VIRTIO_BLK_T_OUT :: u32 where "VIRTIO_BLK_T_OUT = 1"

definition readR :: "nat \<Rightarrow> ('z vdisk_scheme, u32) routine" where
  "readR r = gets (\<lambda>s. mmio s r)"

definition writeR :: "nat \<Rightarrow> u32 \<Rightarrow> ('z vdisk_scheme, unit) routine" where
  "writeR r v = modify (\<lambda>s. s\<lparr>mmio := (mmio s)(r := v)\<rparr>)"

section \<open>Initialisation\<close>

text \<open>
  \<open>negotiate\<close> is the device's answer to the written status: the value the driver reads
  back, in which the device may have cleared FEATURES_OK.
\<close>

definition virtio_disk_init :: "(u32 \<Rightarrow> u32) \<Rightarrow> ('z vdisk_scheme, unit) routine" where
  "virtio_disk_init negotiate =
     sq (initlock VdiskLock ''virtio_disk'')
     (bind (gets mmio) (\<lambda>m.
     sq (panic_if (m VIRTIO_MMIO_MAGIC_VALUE \<noteq> 0x74726976 \<or> m VIRTIO_MMIO_VERSION \<noteq> 2 \<or>
           m VIRTIO_MMIO_DEVICE_ID \<noteq> 2 \<or> m VIRTIO_MMIO_VENDOR_ID \<noteq> 0x554d4551) ''could not find virtio disk'')
     (sq (writeR VIRTIO_MMIO_STATUS 0)
     (sq (writeR VIRTIO_MMIO_STATUS VIRTIO_CONFIG_S_ACKNOWLEDGE)
     (sq (writeR VIRTIO_MMIO_STATUS (VIRTIO_CONFIG_S_ACKNOWLEDGE OR VIRTIO_CONFIG_S_DRIVER))
     (bind (readR VIRTIO_MMIO_DEVICE_FEATURES) (\<lambda>features.
     sq (writeR VIRTIO_MMIO_DRIVER_FEATURES
           (fold (\<lambda>k f. f AND NOT (push_bit k 1)) refused_features features))
     (sq (writeR VIRTIO_MMIO_STATUS
           (negotiate (VIRTIO_CONFIG_S_ACKNOWLEDGE OR VIRTIO_CONFIG_S_DRIVER OR VIRTIO_CONFIG_S_FEATURES_OK)))
     (bind (readR VIRTIO_MMIO_STATUS) (\<lambda>status.
     sq (panic_if (status AND VIRTIO_CONFIG_S_FEATURES_OK = 0) ''virtio disk FEATURES_OK unset'')
     (sq (writeR VIRTIO_MMIO_QUEUE_SEL 0)
     (bind (readR VIRTIO_MMIO_QUEUE_READY) (\<lambda>ready.
     sq (panic_if (ready \<noteq> 0) ''virtio disk should not be ready'')
     (bind (readR VIRTIO_MMIO_QUEUE_NUM_MAX) (\<lambda>mx.
     sq (panic_if (mx = 0) ''virtio disk has no queue 0'')
     (sq (panic_if (mx < of_nat NUM) ''virtio disk max queue too short'')
     (bind kalloc (\<lambda>d. bind kalloc (\<lambda>a. bind kalloc (\<lambda>u.
     sq (modify (\<lambda>s. s\<lparr>desc_page := d, avail_page := a, used_page := u\<rparr>))
     (sq (panic_if (d = 0 \<or> a = 0 \<or> u = 0) ''virtio disk kalloc'')
     (sq (fill d 0) (sq (fill a 0) (sq (fill u 0)
     (sq (modify (\<lambda>s. s\<lparr>desc := \<lambda>_. \<lparr>d_addr = DmaNull, d_len = 0, d_flags = 0, d_next = 0\<rparr>,
           avail_idx := 0, avail_ring := \<lambda>_. 0, used_dev_idx := 0, used_ring := \<lambda>_. 0\<rparr>))
     (sq (writeR VIRTIO_MMIO_QUEUE_NUM (of_nat NUM))
     (sq (writeR VIRTIO_MMIO_QUEUE_DESC_LOW (ucast d))
     (sq (writeR VIRTIO_MMIO_QUEUE_DESC_HIGH (ucast (drop_bit 32 d)))
     (sq (writeR VIRTIO_MMIO_DRIVER_DESC_LOW (ucast a))
     (sq (writeR VIRTIO_MMIO_DRIVER_DESC_HIGH (ucast (drop_bit 32 a)))
     (sq (writeR VIRTIO_MMIO_DEVICE_DESC_LOW (ucast u))
     (sq (writeR VIRTIO_MMIO_DEVICE_DESC_HIGH (ucast (drop_bit 32 u)))
     (sq (writeR VIRTIO_MMIO_QUEUE_READY 1)
     (sq (modify (\<lambda>s. s\<lparr>desc_free := \<lambda>i. if i < NUM then True else desc_free s i\<rparr>))
         (writeR VIRTIO_MMIO_STATUS (status OR VIRTIO_CONFIG_S_DRIVER_OK))))))))))))))))))))))))))))))))))))"

section \<open>Descriptors\<close>

definition alloc_desc :: "('z vdisk_scheme, nat option) routine" where
  "alloc_desc =
     bind (gets desc_free) (\<lambda>fr.
     case find fr [0..<NUM] of
       Some i \<Rightarrow> sq (modify (\<lambda>s. s\<lparr>desc_free := (desc_free s)(i := False)\<rparr>)) (ret (Some i))
     | None \<Rightarrow> ret None)"

definition free_desc :: "nat \<Rightarrow> ('z vdisk_scheme, unit) routine" where
  "free_desc i =
     sq (panic_if (i \<ge> NUM) ''free_desc 1'')
     (bind (gets (\<lambda>s. desc_free s i)) (\<lambda>fr.
     sq (panic_if fr ''free_desc 2'')
     (sq (modify (\<lambda>s. s\<lparr>desc := (desc s)(i := \<lparr>d_addr = DmaNull, d_len = 0, d_flags = 0, d_next = 0\<rparr>),
           desc_free := (desc_free s)(i := True)\<rparr>))
         (wakeup DiskFree))))"

text \<open>
  Each turn of free_chain makes one more descriptor free, so there are at most \<open>NUM\<close>.
\<close>

fun free_chain_loop :: "nat \<Rightarrow> nat \<Rightarrow> ('z vdisk_scheme, unit) routine" where
  "free_chain_loop 0 i = diverge"
| "free_chain_loop (Suc n) i =
     bind (gets (\<lambda>s. desc s i)) (\<lambda>d.
     sq (free_desc i)
     (if d_flags d AND VRING_DESC_F_NEXT \<noteq> 0 then free_chain_loop n (unat (d_next d)) else ret ()))"

definition free_chain :: "nat \<Rightarrow> ('z vdisk_scheme, unit) routine" where
  "free_chain i = free_chain_loop (NUM + 1) i"

fun alloc3_desc_loop :: "nat \<Rightarrow> nat list \<Rightarrow> ('z vdisk_scheme, nat list option) routine" where
  "alloc3_desc_loop 0 idx = ret (Some idx)"
| "alloc3_desc_loop (Suc k) idx =
     bind alloc_desc (\<lambda>r.
     case r of Some i \<Rightarrow> alloc3_desc_loop k (idx @ [i])
     | None \<Rightarrow> sq (for_each idx free_desc) (ret None))"

definition alloc3_desc :: "('z vdisk_scheme, nat list option) routine" where
  "alloc3_desc = alloc3_desc_loop 3 []"

section \<open>Transfers\<close>

text \<open>The three descriptors of a transfer, in the order of the list \<open>idx\<close>.\<close>

definition set_desc :: "nat \<Rightarrow> virtq_desc \<Rightarrow> ('z vdisk_scheme, unit) routine" where
  "set_desc i d = modify (\<lambda>s. s\<lparr>desc := (desc s)(i := d)\<rparr>)"

definition format_descs :: "nat list \<Rightarrow> nat \<Rightarrow> u64 \<Rightarrow> bool \<Rightarrow> ('z vdisk_scheme, unit) routine" where
  "format_descs idx b sector wr =
     sq (modify (\<lambda>s. s\<lparr>ops := (ops s)(idx ! 0 :=
           \<lparr>req_type = (if wr then VIRTIO_BLK_T_OUT else VIRTIO_BLK_T_IN), req_reserved = 0, req_sector = sector\<rparr>)\<rparr>))
     (sq (set_desc (idx ! 0) \<lparr>d_addr = DmaReq (idx ! 0), d_len = 16, d_flags = VRING_DESC_F_NEXT, d_next = of_nat (idx ! 1)\<rparr>)
     (sq (set_desc (idx ! 1) \<lparr>d_addr = DmaData b, d_len = of_nat BSIZE,
            d_flags = (if wr then 0 else VRING_DESC_F_WRITE) OR VRING_DESC_F_NEXT, d_next = of_nat (idx ! 2)\<rparr>)
     (sq (modify (\<lambda>s. s\<lparr>info_status := (info_status s)(idx ! 0 := 0xff)\<rparr>))
         (set_desc (idx ! 2) \<lparr>d_addr = DmaStatus (idx ! 0), d_len = 1, d_flags = VRING_DESC_F_WRITE, d_next = 0\<rparr>))))"

definition virtio_submit :: "nat \<Rightarrow> bool \<Rightarrow> ('z vdisk_scheme, nat) routine" where
  "virtio_submit b wr =
     bind (gets (\<lambda>s. ucast (bblockno (bufs s b) * of_nat (BSIZE div 512)))) (\<lambda>sector.
     sq (acquire VdiskLock)
     (bind alloc3_desc (\<lambda>r.
      case r of None \<Rightarrow> sq (sleep DiskFree VdiskLock) diverge
      | Some idx \<Rightarrow>
        sq (format_descs idx b sector wr)
        (sq (upd_buf b (\<lambda>r. r\<lparr>bdisk := True\<rparr>))
        (sq (modify (\<lambda>s. s\<lparr>info_b := (info_b s)(idx ! 0 := Some b)\<rparr>))
        (sq (modify (\<lambda>s. s\<lparr>avail_ring := (avail_ring s)(unat (avail_idx s) mod NUM := of_nat (idx ! 0))\<rparr>))
        (sq (modify (\<lambda>s. s\<lparr>avail_idx := avail_idx s + 1\<rparr>))
        (sq (writeR VIRTIO_MMIO_QUEUE_NOTIFY 0)
            (ret (idx ! 0)))))))))) "

definition virtio_finish :: "nat \<Rightarrow> ('z vdisk_scheme, unit) routine" where
  "virtio_finish i =
     sq (modify (\<lambda>s. s\<lparr>info_b := (info_b s)(i := None)\<rparr>))
     (sq (free_chain i)
         (release VdiskLock))"

definition virtio_disk_rw :: "nat \<Rightarrow> bool \<Rightarrow> ('z vdisk_scheme, unit) routine" where
  "virtio_disk_rw b wr =
     bind (virtio_submit b wr) (\<lambda>i.
     bind (gets (\<lambda>s. bdisk (bufs s b))) (\<lambda>busy.
     if busy then sleep (BufDisk b) VdiskLock else virtio_finish i))"

text \<open>The ring index is a \<^verbatim>\<open>uint16\<close> that wraps; the loop runs once per completed request.\<close>

fun virtio_intr_loop :: "nat \<Rightarrow> ('z vdisk_scheme, unit) routine" where
  "virtio_intr_loop n =
     bind (gets (\<lambda>s. s)) (\<lambda>s.
     if used_idx s \<noteq> used_dev_idx s then
       (case n of 0 \<Rightarrow> diverge | Suc n \<Rightarrow>
        let id = unat (used_ring s (unat (used_idx s) mod NUM)) in
        sq (panic_if (info_status s id \<noteq> 0) ''virtio_disk_intr status'')
        (case info_b s id of None \<Rightarrow> panic ''kerneltrap''
         | Some b \<Rightarrow>
           sq (upd_buf b (\<lambda>r. r\<lparr>bdisk := False\<rparr>))
           (sq (wakeup (BufDisk b))
           (sq (modify (\<lambda>s. s\<lparr>used_idx := used_idx s + 1\<rparr>))
               (virtio_intr_loop n)))))
     else ret ())"

declare virtio_intr_loop.simps [simp del]

definition virtio_disk_intr :: "('z vdisk_scheme, unit) routine" where
  "virtio_disk_intr =
     sq (acquire VdiskLock)
     (bind (readR VIRTIO_MMIO_INTERRUPT_STATUS) (\<lambda>v.
     sq (writeR VIRTIO_MMIO_INTERRUPT_ACK (v AND 3))
     (bind (gets (\<lambda>s. unat (used_dev_idx s - used_idx s))) (\<lambda>n.
     sq (virtio_intr_loop n)
         (release VdiskLock)))))"

end
