(* ===== verification/Syscall.thy ===== *)
theory Syscall
  imports Virtio
begin

text \<open>
  Arguments of system calls, \<^verbatim>\<open>kernel/syscall.c\<close>, and the system calls on processes,
  \<^verbatim>\<open>kernel/sysproc.c\<close>. A string argument is its bytes without the NUL.
\<close>

section \<open>syscall.c: arguments\<close>

definition get64 :: "u8 list \<Rightarrow> nat \<Rightarrow> u64" where
  "get64 d o' = ucast (get32 d o') OR push_bit 32 (ucast (get32 d (o' + 4)))"

definition put64 :: "u8 list \<Rightarrow> nat \<Rightarrow> u64 \<Rightarrow> u8 list" where
  "put64 d o' v = put32 (put32 d o' (ucast v)) (o' + 4) (ucast (drop_bit 32 v))"

definition fetchaddr :: "u64 \<Rightarrow> ('z ptable_scheme, u64 option) routine" where
  "fetchaddr addr =
     bind this_proc (\<lambda>p.
     bind (gets (\<lambda>s. procs s p)) (\<lambda>r.
     if addr \<ge> sz r \<or> addr + 8 > sz r then ret None
     else bind (copyin (pagetable r) addr 8) (\<lambda>(c, bs).
       ret (if c \<noteq> 0 then None else Some (get64 bs 0)))))"

text \<open>fetchstr gives strlen of the buffer or -1, and the bytes copied to the buffer.\<close>

definition fetchstr :: "u64 \<Rightarrow> u64 \<Rightarrow> ('z ptable_scheme, int \<times> u8 list) routine" where
  "fetchstr addr max' =
     bind this_proc (\<lambda>p.
     bind (gets (\<lambda>s. pagetable (procs s p))) (\<lambda>pgt.
     bind (copyinstr pgt addr max') (\<lambda>(c, bs).
     ret (if c < 0 then -1 else int (length (takeWhile (\<lambda>b. b \<noteq> 0) bs)), bs))))"

definition argraw :: "nat \<Rightarrow> ('z ptable_scheme, u64) routine" where
  "argraw n =
     bind this_proc (\<lambda>p.
     if n < 6 then tf_load p (TF_a0 + 8 * of_nat n) else panic ''argraw'')"

definition argint :: "nat \<Rightarrow> ('z ptable_scheme, u32) routine" where
  "argint n = bind (argraw n) (\<lambda>v. ret (ucast v))"

definition argaddr :: "nat \<Rightarrow> ('z ptable_scheme, u64) routine" where
  "argaddr n = argraw n"

definition argstr :: "nat \<Rightarrow> u64 \<Rightarrow> ('z ptable_scheme, u8 list option) routine" where
  "argstr n max' =
     bind (argaddr n) (\<lambda>addr.
     bind (fetchstr addr max') (\<lambda>(c, bs).
     ret (if c < 0 then None else Some (takeWhile (\<lambda>b. b \<noteq> 0) bs))))"

section \<open>sysproc.c\<close>

definition sys_exit :: "('z filesys_scheme, u64) routine" where
  "sys_exit = bind (argint 0) exit"

definition sys_getpid :: "('z ptable_scheme, u64) routine" where
  "sys_getpid = bind this_proc (\<lambda>p. gets (\<lambda>s. scast (pid (procs s p))))"

definition sys_fork :: "('z filesys_scheme, u64) routine" where
  "sys_fork = bind fork (\<lambda>r. ret (of_int r))"

definition sys_wait :: "('z filesys_scheme, u64) routine" where
  "sys_wait = bind (argaddr 0) (\<lambda>p. bind (wait p) (\<lambda>r. ret (of_int r)))"

definition sys_sbrk :: "('z ptable_scheme, u64) routine" where
  "sys_sbrk =
     bind (argint 0) (\<lambda>n.
     bind this_proc (\<lambda>p.
     bind (gets (\<lambda>s. sz (procs s p))) (\<lambda>addr.
     bind (growproc n) (\<lambda>r.
     ret (if r < 0 then -1 else addr)))))"

definition sys_sleep :: "('z ptable_scheme, u64) routine" where
  "sys_sleep =
     bind (argint 0) (\<lambda>n.
     let n = (if sint n < 0 then 0 else n) in
     sq (acquire TicksLock)
     (bind (gets ticks) (\<lambda>ticks0.
     bind (gets (\<lambda>s. ticks s - ticks0 < n)) (\<lambda>early.
     if early then
       bind this_proc (\<lambda>p.
       bind (is_killed p) (\<lambda>d.
       if d \<noteq> 0 then sq (release TicksLock) (ret (-1))
       else sq (sleep TicksChan TicksLock) diverge))
     else sq (release TicksLock) (ret 0)))))"

definition sys_kill :: "('z ptable_scheme, u64) routine" where
  "sys_kill = bind (argint 0) (\<lambda>i. bind (kill i) (\<lambda>r. ret (of_int r)))"

definition sys_uptime :: "('z ptable_scheme, u64) routine" where
  "sys_uptime =
     sq (acquire TicksLock)
     (bind (gets ticks) (\<lambda>x.
     sq (release TicksLock) (ret (ucast x))))"

end
