(* ===== verification/Exec.thy ===== *)
theory Exec
  imports Syscall
begin

text \<open>
  exec, \<^verbatim>\<open>kernel/exec.c\<close>. The argument array holds addresses of strings in kernel
  memory. The \<^verbatim>\<open>goto bad\<close> of the source is the routine \<open>exec_bad\<close>.
\<close>

section \<open>ELF format (elf.h)\<close>

definition ELF_MAGIC :: u32 where "ELF_MAGIC = 0x464C457F"
definition ELF_PROG_LOAD :: u32 where "ELF_PROG_LOAD = 1"
definition ELFHDR_SIZE :: nat where "ELFHDR_SIZE = 64"
definition PROGHDR_SIZE :: nat where "PROGHDR_SIZE = 56"

record elfhdr =
  elf_magic :: u32
  elf_entry :: u64
  elf_phoff :: u64
  elf_phnum :: u16

record proghdr =
  ph_type :: u32
  ph_flags :: u32
  ph_off :: u64
  ph_vaddr :: u64
  ph_filesz :: u64
  ph_memsz :: u64

definition get_elfhdr :: "u8 list \<Rightarrow> elfhdr" where
  "get_elfhdr d = \<lparr>elf_magic = get32 d 0, elf_entry = get64 d 24, elf_phoff = get64 d 32, elf_phnum = get16 d 56\<rparr>"

definition get_proghdr :: "u8 list \<Rightarrow> proghdr" where
  "get_proghdr d = \<lparr>ph_type = get32 d 0, ph_flags = get32 d 4, ph_off = get64 d 8, ph_vaddr = get64 d 16,
     ph_filesz = get64 d 32, ph_memsz = get64 d 40\<rparr>"

section \<open>Loading\<close>

definition flags2perm :: "u32 \<Rightarrow> u64" where
  "flags2perm flags =
     (if flags AND 1 \<noteq> 0 then PTE_X else 0) OR (if flags AND 2 \<noteq> 0 then PTE_W else 0)"

fun loadseg_loop :: "nat \<Rightarrow> u64 \<Rightarrow> u64 \<Rightarrow> nat \<Rightarrow> u32 \<Rightarrow> u32 \<Rightarrow> u32 \<Rightarrow> ('z fsys_scheme, int) routine" where
  "loadseg_loop k pgt va ip offset n i =
     (if i < n then
        (case k of 0 \<Rightarrow> diverge | Suc k \<Rightarrow>
         bind (walkaddr pgt (va + ucast i)) (\<lambda>pa.
         sq (panic_if (pa = 0) ''loadseg: address should exist'')
         (let m = (if n - i < ucast PGSIZE then n - i else ucast PGSIZE) in
          bind (readi ip KernelBuf (offset + i) m) (\<lambda>(r, bs).
          sq (modify (\<lambda>s. s\<lparr>mem := write_bytes (mem s) pa bs\<rparr>))
          (if r \<noteq> int (unat m) then ret (-1)
           else loadseg_loop k pgt va ip offset n (i + ucast PGSIZE))))))
      else ret 0)"

declare loadseg_loop.simps [simp del]

definition loadseg :: "u64 \<Rightarrow> u64 \<Rightarrow> nat \<Rightarrow> u32 \<Rightarrow> u32 \<Rightarrow> ('z fsys_scheme, int) routine" where
  "loadseg pgt va ip offset n = loadseg_loop (unat n div 4096 + 1) pgt va ip offset n 0"

text \<open>The loop over the program headers gives whether it succeeded, and the size reached.\<close>

fun load_program :: "nat \<Rightarrow> u64 \<Rightarrow> nat \<Rightarrow> u32 \<Rightarrow> u64 \<Rightarrow> ('z fsys_scheme, bool \<times> u64) routine" where
  "load_program 0 pgt ip off' n = ret (True, n)"
| "load_program (Suc k) pgt ip off' n =
     bind (readi ip KernelBuf off' (of_nat PROGHDR_SIZE)) (\<lambda>(r, bs).
     let ph = get_proghdr bs in
     if r \<noteq> int PROGHDR_SIZE then ret (False, n)
     else if ph_type ph \<noteq> ELF_PROG_LOAD then load_program k pgt ip (off' + of_nat PROGHDR_SIZE) n
     else if ph_memsz ph < ph_filesz ph then ret (False, n)
     else if ph_vaddr ph + ph_memsz ph < ph_vaddr ph then ret (False, n)
     else if ph_vaddr ph mod PGSIZE \<noteq> 0 then ret (False, n)
     else
       bind (uvmalloc pgt n (ph_vaddr ph + ph_memsz ph) (flags2perm (ph_flags ph))) (\<lambda>n1.
       if n1 = 0 then ret (False, n)
       else
         bind (loadseg pgt (ph_vaddr ph) ip (ucast (ph_off ph)) (ucast (ph_filesz ph))) (\<lambda>r.
         if r < 0 then ret (False, n1)
         else load_program k pgt ip (off' + of_nat PROGHDR_SIZE) n1)))"

section \<open>The stack\<close>

text \<open>\<^verbatim>\<open>strlen\<close> of a string in kernel memory; without a NUL it does not return.\<close>

definition kstrlen :: "u64 \<Rightarrow> ('z kmem_scheme, nat) routine" where
  "kstrlen a = bind (gets (\<lambda>s. strlen (mem s) a)) (\<lambda>n. case n of None \<Rightarrow> diverge | Some n \<Rightarrow> ret n)"

definition align16 :: "u64 \<Rightarrow> u64" where
  "align16 sp = sp - sp mod 16"

text \<open>
  \<open>push_args\<close> gives the stack pointer and the pointers to the strings pushed, or \<open>None\<close>.
\<close>

fun push_args :: "u64 \<Rightarrow> u64 \<Rightarrow> u64 list \<Rightarrow> u64 \<Rightarrow> u64 list \<Rightarrow> ('z ptable_scheme, (u64 \<times> u64 list) option) routine" where
  "push_args pgt stackbase [] sp ustack = ret (Some (sp, ustack))"
| "push_args pgt stackbase (arg # argv) sp ustack =
     (if length ustack \<ge> MAXARG then ret None
      else
        bind (kstrlen arg) (\<lambda>n.
        let sp = align16 (sp - of_nat (n + 1)) in
        if sp < stackbase then ret None
        else
          bind (gets (\<lambda>s. read_bytes (mem s) arg (n + 1))) (\<lambda>bs.
          bind (copyout pgt sp bs) (\<lambda>r.
          if r < 0 then ret None
          else push_args pgt stackbase argv sp (ustack @ [sp])))))"

definition words_bytes :: "u64 list \<Rightarrow> u8 list" where
  "words_bytes ws = concat (map (\<lambda>w. put64 (replicate 8 0) 0 w) ws)"

section \<open>exec\<close>

definition exec_bad :: "u64 \<Rightarrow> u64 \<Rightarrow> nat option \<Rightarrow> ('z fsys_scheme, int) routine" where
  "exec_bad pgt n ip =
     sq (if pgt \<noteq> 0 then proc_freepagetable pgt n else ret ())
     (sq (case ip of Some ip \<Rightarrow> sq (iunlockput ip) end_op | None \<Rightarrow> ret ())
         (ret (-1)))"

text \<open>The part of the path after its last slash.\<close>

definition last_elem :: "u8 list \<Rightarrow> u8 list" where
  "last_elem path = rev (takeWhile (\<lambda>c. c \<noteq> slash) (rev path))"

text \<open>From the commit to the user image on.\<close>

definition exec_commit :: "nat \<Rightarrow> u8 list \<Rightarrow> u64 \<Rightarrow> u64 \<Rightarrow> u64 \<Rightarrow> u64 \<Rightarrow> u64 \<Rightarrow> ('z ptable_scheme, unit) routine" where
  "exec_commit p path entry' pgt n sp oldsz =
     sq (tf_store p TF_a1 sp)
     (sq (upd_proc p (\<lambda>r. r\<lparr>pname := copy_name (pname r) (last_elem path)\<rparr>))
     (bind (gets (\<lambda>s. pagetable (procs s p))) (\<lambda>oldpgt.
     sq (upd_proc p (\<lambda>r. r\<lparr>pagetable := pgt\<rparr>))
     (sq (upd_proc p (\<lambda>r. r\<lparr>sz := n\<rparr>))
     (sq (tf_store p TF_epc entry')
     (sq (tf_store p TF_sp sp)
         (proc_freepagetable oldpgt oldsz)))))))"

definition exec_stack :: "nat \<Rightarrow> u8 list \<Rightarrow> u64 list \<Rightarrow> u64 \<Rightarrow> u64 \<Rightarrow> u64 \<Rightarrow> ('z fsys_scheme, int) routine" where
  "exec_stack p path argv entry' pgt n =
     bind (gets (\<lambda>s. sz (procs s p))) (\<lambda>oldsz.
     let n = PGROUNDUP n in
     bind (uvmalloc pgt n (n + 2 * PGSIZE) PTE_W) (\<lambda>n1.
     if n1 = 0 then exec_bad pgt n None
     else
       let n = n1; sp = n; stackbase = sp - PGSIZE in
       sq (uvmclear pgt (n - 2 * PGSIZE))
       (bind (push_args pgt stackbase argv sp []) (\<lambda>pushed.
        case pushed of None \<Rightarrow> exec_bad pgt n None
        | Some (sp, ustack) \<Rightarrow>
          let argc = length ustack;
              sp = align16 (sp - of_nat ((argc + 1) * 8)) in
          if sp < stackbase then exec_bad pgt n None
          else
            bind (copyout pgt sp (words_bytes (ustack @ [0]))) (\<lambda>r.
            if r < 0 then exec_bad pgt n None
            else sq (exec_commit p path entry' pgt n sp oldsz) (ret (int argc)))))))"

definition exec :: "u8 list \<Rightarrow> u64 list \<Rightarrow> ('z fsys_scheme, int) routine" where
  "exec path argv =
     bind this_proc (\<lambda>p.
     sq begin_op
     (bind (namei path) (\<lambda>i.
      case i of None \<Rightarrow> sq end_op (ret (-1))
      | Some ip \<Rightarrow>
        sq (ilock ip)
        (bind (readi ip KernelBuf 0 (of_nat ELFHDR_SIZE)) (\<lambda>(r, bs).
         let elf = get_elfhdr bs in
         if r \<noteq> int ELFHDR_SIZE then exec_bad 0 0 (Some ip)
         else if elf_magic elf \<noteq> ELF_MAGIC then exec_bad 0 0 (Some ip)
         else
           bind (proc_pagetable p) (\<lambda>pgt.
           if pgt = 0 then exec_bad 0 0 (Some ip)
           else
             bind (load_program (unat (elf_phnum elf)) pgt ip (ucast (elf_phoff elf)) 0) (\<lambda>(ok, n).
             if \<not> ok then exec_bad pgt n (Some ip)
             else
               sq (iunlockput ip)
               (sq end_op
               (bind this_proc (\<lambda>p. exec_stack p path argv (elf_entry elf) pgt n))))))))))"

end
