(* ===== verification/Sysfile.thy ===== *)
theory Sysfile
  imports Exec
begin

text \<open>
  The system calls on files, \<^verbatim>\<open>kernel/sysfile.c\<close>, and the dispatch of system calls,
  \<^verbatim>\<open>syscall\<close> of \<^verbatim>\<open>kernel/syscall.c\<close>. A call that fails gives \<open>-1\<close> as a 64-bit
  word. The \<^verbatim>\<open>goto bad\<close> of the source are the routines with \<open>bad\<close> or \<open>fail\<close> in their
  names.
\<close>

section \<open>Open modes (fcntl.h)\<close>

definition O_RDONLY :: u32 where "O_RDONLY = 0x000"
definition O_WRONLY :: u32 where "O_WRONLY = 0x001"
definition O_RDWR :: u32 where "O_RDWR = 0x002"
definition O_CREATE :: u32 where "O_CREATE = 0x200"
definition O_TRUNC :: u32 where "O_TRUNC = 0x400"

section \<open>Descriptors\<close>

definition argfd :: "nat \<Rightarrow> ('z ptable_scheme, (nat \<times> nat) option) routine" where
  "argfd n =
     bind (argint n) (\<lambda>fd.
     if sint fd < 0 \<or> sint fd \<ge> int NOFILE then ret None
     else bind this_proc (\<lambda>p.
       bind (gets (\<lambda>s. ofile (procs s p) ! unat fd)) (\<lambda>f.
       ret (map_option (\<lambda>f. (unat fd, f)) f))))"

definition fdalloc :: "nat \<Rightarrow> ('z ptable_scheme, nat option) routine" where
  "fdalloc f =
     bind this_proc (\<lambda>p.
     bind (gets (\<lambda>s. ofile (procs s p))) (\<lambda>fs.
     case find (\<lambda>fd. fs ! fd = None) [0..<NOFILE] of
       Some fd \<Rightarrow> sq (upd_proc p (\<lambda>r. r\<lparr>ofile := (ofile r)[fd := Some f]\<rparr>)) (ret (Some fd))
     | None \<Rightarrow> ret None))"

definition sys_dup :: "('z filesys_scheme, u64) routine" where
  "sys_dup =
     bind (argfd 0) (\<lambda>a. case a of None \<Rightarrow> ret (-1) | Some (_, f) \<Rightarrow>
     bind (fdalloc f) (\<lambda>r. case r of None \<Rightarrow> ret (-1) | Some fd \<Rightarrow>
     sq (filedup f) (ret (of_nat fd))))"

definition sys_read :: "('z filesys_scheme, u64) routine" where
  "sys_read =
     bind (argaddr 1) (\<lambda>p.
     bind (argint 2) (\<lambda>n.
     bind (argfd 0) (\<lambda>a. case a of None \<Rightarrow> ret (-1) | Some (_, f) \<Rightarrow>
     bind (fileread f p (sint n)) (\<lambda>r. ret (of_int r)))))"

definition sys_write :: "('z filesys_scheme, u64) routine" where
  "sys_write =
     bind (argaddr 1) (\<lambda>p.
     bind (argint 2) (\<lambda>n.
     bind (argfd 0) (\<lambda>a. case a of None \<Rightarrow> ret (-1) | Some (_, f) \<Rightarrow>
     bind (filewrite f p (sint n)) (\<lambda>r. ret (of_int r)))))"

definition sys_close :: "('z filesys_scheme, u64) routine" where
  "sys_close =
     bind (argfd 0) (\<lambda>a. case a of None \<Rightarrow> ret (-1) | Some (fd, f) \<Rightarrow>
     bind this_proc (\<lambda>p.
     sq (upd_proc p (\<lambda>r. r\<lparr>ofile := (ofile r)[fd := None]\<rparr>))
     (sq (fileclose f) (ret 0))))"

definition sys_fstat :: "('z filesys_scheme, u64) routine" where
  "sys_fstat =
     bind (argaddr 1) (\<lambda>st.
     bind (argfd 0) (\<lambda>a. case a of None \<Rightarrow> ret (-1) | Some (_, f) \<Rightarrow>
     bind (filestat f st) (\<lambda>r. ret (of_int r))))"

section \<open>Links\<close>

definition path_max :: u64 where "path_max = of_nat MAXPATH"

definition add_nlink :: "nat \<Rightarrow> u16 \<Rightarrow> ('z fsys_scheme, unit) routine" where
  "add_nlink ip d = sq (upd_inode ip (\<lambda>r. r\<lparr>inlink := inlink r + d\<rparr>)) (iupdate ip)"

definition link_bad :: "nat \<Rightarrow> ('z fsys_scheme, u64) routine" where
  "link_bad ip =
     sq (ilock ip)
     (sq (add_nlink ip (-1))
     (sq (iunlockput ip)
     (sq end_op (ret (-1)))))"

definition sys_link :: "('z fsys_scheme, u64) routine" where
  "sys_link =
     bind (argstr 0 path_max) (\<lambda>a. case a of None \<Rightarrow> ret (-1) | Some old \<Rightarrow>
     bind (argstr 1 path_max) (\<lambda>a. case a of None \<Rightarrow> ret (-1) | Some new \<Rightarrow>
     sq begin_op
     (bind (namei old) (\<lambda>a. case a of None \<Rightarrow> sq end_op (ret (-1)) | Some ip \<Rightarrow>
     sq (ilock ip)
     (bind (gets (\<lambda>s. itype (inodes s ip))) (\<lambda>t.
      if t = T_DIR then sq (iunlockput ip) (sq end_op (ret (-1)))
      else
        sq (add_nlink ip 1)
        (sq (iunlock ip)
        (bind (nameiparent new) (\<lambda>a. case a of None \<Rightarrow> link_bad ip | Some (dp, nm) \<Rightarrow>
        sq (ilock dp)
        (bind (gets inodes) (\<lambda>is.
         bind (if idev (is dp) \<noteq> idev (is ip) then ret True
               else bind (dirlink dp nm (inum (is ip))) (\<lambda>r. ret (r < 0))) (\<lambda>failed.
         if failed then sq (iunlockput dp) (link_bad ip)
         else
           sq (iunlockput dp)
           (sq (iput ip)
           (sq end_op (ret 0)))))))))))))))"

fun isdirempty_loop :: "nat \<Rightarrow> nat \<Rightarrow> u32 \<Rightarrow> ('z fsys_scheme, bool) routine" where
  "isdirempty_loop k dp off' =
     bind (gets (\<lambda>s. isize (inodes s dp))) (\<lambda>n.
     if off' < n then
       (case k of 0 \<Rightarrow> diverge | Suc k \<Rightarrow>
        bind (readi dp KernelBuf off' (of_nat DESIZE)) (\<lambda>(r, de).
        sq (panic_if (r \<noteq> int DESIZE) ''isdirempty: readi'')
        (if de_inum de \<noteq> 0 then ret False else isdirempty_loop k dp (off' + of_nat DESIZE))))
     else ret True)"

declare isdirempty_loop.simps [simp del]

definition isdirempty :: "nat \<Rightarrow> ('z fsys_scheme, bool) routine" where
  "isdirempty dp =
     bind (gets (\<lambda>s. isize (inodes s dp))) (\<lambda>n.
     isdirempty_loop (unat n div DESIZE + 1) dp (of_nat (2 * DESIZE)))"

definition dot :: "u8 list" where "dot = map of_char ''.''"
definition dotdot :: "u8 list" where "dotdot = map of_char ''..''"

definition unlink_bad :: "nat \<Rightarrow> ('z fsys_scheme, u64) routine" where
  "unlink_bad dp = sq (iunlockput dp) (sq end_op (ret (-1)))"

definition sys_unlink :: "('z fsys_scheme, u64) routine" where
  "sys_unlink =
     bind (argstr 0 path_max) (\<lambda>a. case a of None \<Rightarrow> ret (-1) | Some path \<Rightarrow>
     sq begin_op
     (bind (nameiparent path) (\<lambda>a. case a of None \<Rightarrow> sq end_op (ret (-1)) | Some (dp, nm) \<Rightarrow>
     sq (ilock dp)
     (if namecmp nm dot = 0 \<or> namecmp nm dotdot = 0 then unlink_bad dp
      else bind (dirlookup dp nm) (\<lambda>found. case found of None \<Rightarrow> unlink_bad dp | Some (ip, off') \<Rightarrow>
        sq (ilock ip)
        (bind (gets (\<lambda>s. inodes s ip)) (\<lambda>r.
         sq (panic_if (sint (inlink r) < 1) ''unlink: nlink < 1'')
         (bind (if itype r = T_DIR then bind (isdirempty ip) (\<lambda>e. ret (\<not> e)) else ret False) (\<lambda>full.
          if full then sq (iunlockput ip) (unlink_bad dp)
          else
            bind (writei dp (FromKernel (replicate DESIZE 0)) off' (of_nat DESIZE)) (\<lambda>n.
            sq (panic_if (n \<noteq> int DESIZE) ''unlink: writei'')
            (sq (if itype r = T_DIR then add_nlink dp (-1) else ret ())
            (sq (iunlockput dp)
            (sq (add_nlink ip (-1))
            (sq (iunlockput ip)
            (sq end_op (ret 0))))))))))))))) )"

section \<open>Creation and opening\<close>

definition create_fail :: "nat \<Rightarrow> nat \<Rightarrow> ('z fsys_scheme, nat option) routine" where
  "create_fail ip dp =
     sq (upd_inode ip (\<lambda>r. r\<lparr>inlink := 0\<rparr>))
     (sq (iupdate ip)
     (sq (iunlockput ip)
     (sq (iunlockput dp) (ret None))))"

definition create :: "u8 list \<Rightarrow> u16 \<Rightarrow> u16 \<Rightarrow> u16 \<Rightarrow> ('z fsys_scheme, nat option) routine" where
  "create path type' major minor =
     bind (nameiparent path) (\<lambda>a. case a of None \<Rightarrow> ret None | Some (dp, nm) \<Rightarrow>
     sq (ilock dp)
     (bind (dirlookup dp nm) (\<lambda>found. case found of
        Some (ip, _) \<Rightarrow>
          sq (iunlockput dp)
          (sq (ilock ip)
          (bind (gets (\<lambda>s. itype (inodes s ip))) (\<lambda>t.
           if type' = T_FILE \<and> (t = T_FILE \<or> t = T_DEVICE) then ret (Some ip)
           else sq (iunlockput ip) (ret None))))
      | None \<Rightarrow>
          bind (gets (\<lambda>s. idev (inodes s dp))) (\<lambda>dev.
          bind (ialloc dev type') (\<lambda>a. case a of
            None \<Rightarrow> sq (iunlockput dp) (ret None)
          | Some ip \<Rightarrow>
            sq (ilock ip)
            (sq (upd_inode ip (\<lambda>r. r\<lparr>imajor := major, iminor := minor, inlink := 1\<rparr>))
            (sq (iupdate ip)
            (bind (gets inodes) (\<lambda>is.
             bind (if type' = T_DIR then
                     bind (dirlink ip dot (inum (is ip))) (\<lambda>r.
                     if r < 0 then ret True
                     else bind (dirlink ip dotdot (inum (is dp))) (\<lambda>r. ret (r < 0)))
                   else ret False) (\<lambda>failed.
             if failed then create_fail ip dp
             else
               bind (dirlink dp nm (inum (is ip))) (\<lambda>r.
               if r < 0 then create_fail ip dp
               else
                 sq (if type' = T_DIR then add_nlink dp 1 else ret ())
                 (sq (iunlockput dp) (ret (Some ip))))))))))))))"

text \<open>The inode that open works on, locked, or \<open>None\<close> after the failed lookup or check.\<close>

definition open_inode :: "u8 list \<Rightarrow> u32 \<Rightarrow> ('z fsys_scheme, nat option) routine" where
  "open_inode path omode =
     (if omode AND O_CREATE \<noteq> 0 then create path T_FILE 0 0
      else
        bind (namei path) (\<lambda>a. case a of None \<Rightarrow> ret None | Some ip \<Rightarrow>
        sq (ilock ip)
        (bind (gets (\<lambda>s. itype (inodes s ip))) (\<lambda>t.
         if t = T_DIR \<and> omode \<noteq> O_RDONLY then sq (iunlockput ip) (ret None)
         else ret (Some ip)))))"

definition open_fail :: "nat \<Rightarrow> ('z fsys_scheme, u64) routine" where
  "open_fail ip = sq (iunlockput ip) (sq end_op (ret (-1)))"

definition sys_open :: "('z filesys_scheme, u64) routine" where
  "sys_open =
     bind (argint 1) (\<lambda>omode.
     bind (argstr 0 path_max) (\<lambda>a. case a of None \<Rightarrow> ret (-1) | Some path \<Rightarrow>
     sq begin_op
     (bind (open_inode path omode) (\<lambda>a. case a of None \<Rightarrow> sq end_op (ret (-1)) | Some ip \<Rightarrow>
     bind (gets (\<lambda>s. inodes s ip)) (\<lambda>r.
     if itype r = T_DEVICE \<and> dev_index (imajor r) = None then open_fail ip
     else
       bind filealloc (\<lambda>a. case a of None \<Rightarrow> open_fail ip | Some f \<Rightarrow>
       bind (fdalloc f) (\<lambda>a. case a of None \<Rightarrow> sq (fileclose f) (open_fail ip) | Some fd \<Rightarrow>
       sq (upd_file f (\<lambda>g. if itype r = T_DEVICE then g\<lparr>ftype := FD_DEVICE, fmajor := imajor r\<rparr>
                           else g\<lparr>ftype := FD_INODE, foff := 0\<rparr>))
       (sq (upd_file f (\<lambda>g. g\<lparr>fip := Some ip, freadable := (omode AND O_WRONLY = 0),
              fwritable := (omode AND O_WRONLY \<noteq> 0 \<or> omode AND O_RDWR \<noteq> 0)\<rparr>))
       (sq (if omode AND O_TRUNC \<noteq> 0 \<and> itype r = T_FILE then itrunc ip else ret ())
       (sq (iunlock ip)
       (sq end_op (ret (of_nat fd)))))))))))))"

text \<open>The common end of mkdir and mknod: the argument and the new inode.\<close>

definition create_call :: "u16 \<Rightarrow> u16 \<Rightarrow> u16 \<Rightarrow> ('z fsys_scheme, u64) routine" where
  "create_call type' major minor =
     bind (argstr 0 path_max) (\<lambda>a. case a of None \<Rightarrow> sq end_op (ret (-1)) | Some path \<Rightarrow>
     bind (create path type' major minor) (\<lambda>a. case a of None \<Rightarrow> sq end_op (ret (-1)) | Some ip \<Rightarrow>
     sq (iunlockput ip)
     (sq end_op (ret 0))))"

definition sys_mkdir :: "('z fsys_scheme, u64) routine" where
  "sys_mkdir = sq begin_op (create_call T_DIR 0 0)"

definition sys_mknod :: "('z fsys_scheme, u64) routine" where
  "sys_mknod =
     sq begin_op
     (bind (argint 1) (\<lambda>major.
     bind (argint 2) (\<lambda>minor.
     create_call T_DEVICE (ucast major) (ucast minor))))"

definition sys_chdir :: "('z filesys_scheme, u64) routine" where
  "sys_chdir =
     bind this_proc (\<lambda>p.
     sq begin_op
     (bind (argstr 0 path_max) (\<lambda>a. case a of None \<Rightarrow> sq end_op (ret (-1)) | Some path \<Rightarrow>
     bind (namei path) (\<lambda>a. case a of None \<Rightarrow> sq end_op (ret (-1)) | Some ip \<Rightarrow>
     sq (ilock ip)
     (bind (gets (\<lambda>s. itype (inodes s ip))) (\<lambda>t.
      if t \<noteq> T_DIR then sq (iunlockput ip) (sq end_op (ret (-1)))
      else
        sq (iunlock ip)
        (bind (gets (\<lambda>s. cwd (procs s p))) (\<lambda>c.
        sq (bind (inode_of c) iput)
        (sq end_op
        (sq (upd_proc p (\<lambda>r. r\<lparr>cwd := Some ip\<rparr>))
            (ret 0)))))))))))"

section \<open>exec and pipe\<close>

text \<open>
  The loop of sys_exec gives whether the argument array was complete, and the pages taken.
\<close>

fun fetch_args :: "nat \<Rightarrow> u64 \<Rightarrow> u64 list \<Rightarrow> ('z ptable_scheme, bool \<times> u64 list) routine" where
  "fetch_args 0 uargv argv = ret (False, argv)"
| "fetch_args (Suc k) uargv argv =
     bind (fetchaddr (uargv + 8 * of_nat (length argv))) (\<lambda>a. case a of None \<Rightarrow> ret (False, argv) | Some uarg \<Rightarrow>
     if uarg = 0 then ret (True, argv)
     else
       bind kalloc (\<lambda>page.
       if page = 0 then ret (False, argv)
       else
         bind (fetchstr uarg PGSIZE) (\<lambda>(r, bs).
         sq (modify (\<lambda>s. s\<lparr>mem := write_bytes (mem s) page bs\<rparr>))
         (if r < 0 then ret (False, argv @ [page])
          else fetch_args k uargv (argv @ [page])))))"

definition sys_exec :: "('z fsys_scheme, u64) routine" where
  "sys_exec =
     bind (argaddr 1) (\<lambda>uargv.
     bind (argstr 0 path_max) (\<lambda>a. case a of None \<Rightarrow> ret (-1) | Some path \<Rightarrow>
     bind (fetch_args MAXARG uargv []) (\<lambda>(ok, argv).
     bind (if ok then exec path argv else ret (-1)) (\<lambda>r.
     sq (for_each argv kfree)
        (ret (of_int r))))))"

definition clear_fd :: "nat \<Rightarrow> nat \<Rightarrow> ('z ptable_scheme, unit) routine" where
  "clear_fd p fd = upd_proc p (\<lambda>r. r\<lparr>ofile := (ofile r)[fd := None]\<rparr>)"

definition close_both :: "nat \<Rightarrow> nat \<Rightarrow> ('z filesys_scheme, u64) routine" where
  "close_both rfl wfl = sq (fileclose rfl) (sq (fileclose wfl) (ret (-1)))"

definition sys_pipe :: "('z filesys_scheme, u64) routine" where
  "sys_pipe =
     bind this_proc (\<lambda>p.
     bind (argaddr 0) (\<lambda>fdarray.
     bind pipealloc (\<lambda>a. case a of None \<Rightarrow> ret (-1) | Some (rfl, wfl) \<Rightarrow>
     bind (fdalloc rfl) (\<lambda>a. case a of None \<Rightarrow> close_both rfl wfl | Some fd0 \<Rightarrow>
     bind (fdalloc wfl) (\<lambda>a. case a of None \<Rightarrow> sq (clear_fd p fd0) (close_both rfl wfl) | Some fd1 \<Rightarrow>
     bind (gets (\<lambda>s. pagetable (procs s p))) (\<lambda>pgt.
     bind (copyout pgt fdarray (put32 (replicate 4 0) 0 (of_nat fd0))) (\<lambda>r.
     bind (if r < 0 then ret True
           else bind (copyout pgt (fdarray + 4) (put32 (replicate 4 0) 0 (of_nat fd1))) (\<lambda>r. ret (r < 0))) (\<lambda>failed.
     if failed then sq (clear_fd p fd0) (sq (clear_fd p fd1) (close_both rfl wfl))
     else ret 0))))))))"

section \<open>Dispatch (syscall.c)\<close>

definition syscalls :: "('z filesys_scheme, u64) routine list" where
  "syscalls = [sys_fork, sys_exit, sys_wait, sys_pipe, sys_read, sys_kill, sys_exec, sys_fstat, sys_chdir,
     sys_dup, sys_getpid, sys_sbrk, sys_sleep, sys_uptime, sys_open, sys_write, sys_mknod, sys_unlink,
     sys_link, sys_mkdir, sys_close]"

text \<open>Entry \<open>num\<close> of the C array, which has no entry 0, is element \<open>num - 1\<close> of the list.\<close>

definition syscall :: "('z filesys_scheme, unit) routine" where
  "syscall =
     bind this_proc (\<lambda>p.
     bind (tf_load p TF_a7) (\<lambda>a7.
     let num = sint (ucast a7 :: u32) in
     if num > 0 \<and> num < int (length (syscalls :: ('z filesys_scheme, u64) routine list)) + 1 then
       bind (syscalls ! (nat num - 1)) (\<lambda>v. tf_store p TF_a0 v)
     else
       bind (gets (\<lambda>s. procs s p)) (\<lambda>r.
       sq (printf (map of_char ''%d %s: unknown sys call %d'' @ [10]) [IntArg (pid r), StrArg (Some (pname r)), IntArg (ucast a7)])
          (tf_store p TF_a0 (-1)))))"

end
