(* ===== verification/Trap.thy ===== *)
theory Trap
  imports Sysfile
begin

text \<open>
  Traps and interrupts, \<^verbatim>\<open>kernel/trap.c\<close>, the interrupt controller,
  \<^verbatim>\<open>kernel/plic.c\<close>, and forkret of \<^verbatim>\<open>kernel/proc.c\<close>.

  The addresses of assembly routines are part of the state. usertrapret ends with a jump
  to the trampoline; it gives the target and the argument of that jump. The interrupt
  controller is a device: for each hart it has the interrupts it will hand out and those
  that were completed.
\<close>

section \<open>State\<close>

record trapsys = vdisk +
  kernelvec_addr :: u64
  uservec_addr :: u64
  userret_addr :: u64
  usertrap_addr :: u64
  forkret_first :: bool
  plic_regs :: "u64 \<Rightarrow> u32"
  plic_claims :: "nat \<Rightarrow> u32 list"
  plic_done :: "nat \<Rightarrow> u32 list"

definition myhart :: "'z machine_scheme \<Rightarrow> hart" where
  "myhart s = harts s (tp s)"

definition upd_hart :: "(hart \<Rightarrow> hart) \<Rightarrow> ('z machine_scheme, unit) routine" where
  "upd_hart f = modify (\<lambda>s. s\<lparr>harts := (harts s)(tp s := f (harts s (tp s)))\<rparr>)"

section \<open>plic.c\<close>

definition PLIC_SENABLE :: "nat \<Rightarrow> u64" where "PLIC_SENABLE h = PLIC + 0x2080 + of_nat h * 0x100"
definition PLIC_SPRIORITY :: "nat \<Rightarrow> u64" where "PLIC_SPRIORITY h = PLIC + 0x201000 + of_nat h * 0x2000"

definition plic_write :: "u64 \<Rightarrow> u32 \<Rightarrow> ('z trapsys_scheme, unit) routine" where
  "plic_write a v = modify (\<lambda>s. s\<lparr>plic_regs := (plic_regs s)(a := v)\<rparr>)"

definition plicinit :: "('z trapsys_scheme, unit) routine" where
  "plicinit = sq (plic_write (PLIC + ucast UART0_IRQ * 4) 1) (plic_write (PLIC + ucast VIRTIO0_IRQ * 4) 1)"

definition plicinithart :: "('z trapsys_scheme, unit) routine" where
  "plicinithart =
     bind cpuid (\<lambda>h.
     sq (plic_write (PLIC_SENABLE h) (push_bit (unat UART0_IRQ) 1 OR push_bit (unat VIRTIO0_IRQ) 1))
        (plic_write (PLIC_SPRIORITY h) 0))"

text \<open>A read of the claim register takes the next pending interrupt, 0 when there is none.\<close>

definition plic_claim :: "('z trapsys_scheme, u32) routine" where
  "plic_claim =
     bind cpuid (\<lambda>h.
     bind (gets (\<lambda>s. case plic_claims s h of [] \<Rightarrow> 0 | i # _ \<Rightarrow> i)) (\<lambda>irq.
     sq (modify (\<lambda>s. s\<lparr>plic_claims := (plic_claims s)(h := tl (plic_claims s h))\<rparr>)) (ret irq)))"

definition plic_complete :: "u32 \<Rightarrow> ('z trapsys_scheme, unit) routine" where
  "plic_complete irq =
     bind cpuid (\<lambda>h.
     modify (\<lambda>s. s\<lparr>plic_done := (plic_done s)(h := plic_done s h @ [irq])\<rparr>))"

section \<open>Device interrupts\<close>

definition trapinit :: "('z machine_scheme, unit) routine" where
  "trapinit = initlock TicksLock ''time''"

definition w_stvec :: "u64 \<Rightarrow> ('z machine_scheme, unit) routine" where
  "w_stvec x = upd_hart (\<lambda>h. h\<lparr>stvec := x\<rparr>)"

definition trapinithart :: "('z trapsys_scheme, unit) routine" where
  "trapinithart = bind (gets kernelvec_addr) w_stvec"

definition clockintr :: "('z ptable_scheme, unit) routine" where
  "clockintr =
     sq (acquire TicksLock)
     (sq (modify (\<lambda>s. s\<lparr>ticks := ticks s + 1\<rparr>))
     (sq (wakeup TicksChan)
         (release TicksLock)))"

definition devintr :: "('z trapsys_scheme, nat) routine" where
  "devintr =
     bind (gets (\<lambda>s. scause (myhart s))) (\<lambda>cause.
     if cause AND 0x8000000000000000 \<noteq> 0 \<and> cause AND 0xff = 9 then
       bind plic_claim (\<lambda>irq.
       sq (if irq = UART0_IRQ then uartintr
           else if irq = VIRTIO0_IRQ then virtio_disk_intr
           else if irq \<noteq> 0 then printf (map of_char ''unexpected interrupt irq=%d'' @ [10]) [IntArg irq]
           else ret ())
       (sq (if irq \<noteq> 0 then plic_complete irq else ret ())
           (ret 1)))
     else if cause = 0x8000000000000001 then
       bind cpuid (\<lambda>h.
       sq (if h = 0 then clockintr else ret ())
       (sq (upd_hart (\<lambda>h. h\<lparr>sip := sip h AND NOT 2\<rparr>))
           (ret 2)))
     else ret 0)"

section \<open>Giving up the hart\<close>

text \<open>
  yield, in the run in which the scheduler of this hart picks the same process again when it
  is back.
\<close>

definition yield :: "('z ptable_scheme, unit) routine" where
  "yield =
     bind yield_out (\<lambda>(p, i).
     sq (scheduler_back p)
     (sq intr_on
     (bind (scheduler_pick p) (\<lambda>picked.
      if picked then yield_in p i else diverge))))"

section \<open>Traps\<close>

definition usertrapret :: "('z trapsys_scheme, u64 \<times> u64) routine" where
  "usertrapret =
     bind this_proc (\<lambda>p.
     sq intr_off
     (bind (gets (\<lambda>s. s)) (\<lambda>s.
     sq (w_stvec (TRAMPOLINE + (uservec_addr s - trampoline s)))
     (sq (tf_store p TF_kernel_satp (satp (myhart s)))
     (sq (tf_store p TF_kernel_sp (kstack (procs s p) + PGSIZE))
     (sq (tf_store p TF_kernel_trap (usertrap_addr s))
     (sq (tf_store p TF_kernel_hartid (of_nat (tp s)))
     (sq (upd_hart (\<lambda>h. h\<lparr>sstatus := (sstatus h AND NOT SSTATUS_SPP) OR SSTATUS_SPIE\<rparr>))
     (bind (tf_load p TF_epc) (\<lambda>epc.
     sq (upd_hart (\<lambda>h. h\<lparr>sepc := epc\<rparr>))
        (ret (TRAMPOLINE + (userret_addr s - trampoline s), MAKE_SATP (pagetable (procs s p))))))))))))))"

text \<open>The message for a trap that kills the process.\<close>

definition report :: "string \<Rightarrow> u64 \<Rightarrow> nat \<Rightarrow> ('z consys_scheme, unit) routine" where
  "report msg x p =
     bind (gets (\<lambda>s. s)) (\<lambda>s.
     sq (printf (map of_char msg @ [10]) [PtrArg x, IntArg (pid (procs s p))])
        (printf (map of_char ''            sepc=%p stval=%p'' @ [10]) [PtrArg (sepc (myhart s)), PtrArg (stval (myhart s))]))"

definition usertrap :: "('z trapsys_scheme, u64 \<times> u64) routine" where
  "usertrap =
     bind (gets myhart) (\<lambda>h.
     sq (panic_if (sstatus h AND SSTATUS_SPP \<noteq> 0) ''usertrap: not from user mode'')
     (bind (gets kernelvec_addr) (\<lambda>kv.
     sq (w_stvec kv)
     (bind this_proc (\<lambda>p.
     sq (tf_store p TF_epc (sepc h))
     (bind (if scause h = 8 then
              bind (is_killed p) (\<lambda>d.
              sq (if d \<noteq> 0 then exit (-1) else ret ())
              (bind (tf_load p TF_epc) (\<lambda>epc.
              sq (tf_store p TF_epc (epc + 4))
              (sq intr_on
              (sq syscall (ret 0))))))
            else if scause h = 15 then
              bind (CowHandler (stval h)) (\<lambda>err.
              sq (if err < 0 then
                    sq (report ''usertrap(): unexpected CowHandler err %p pid=%d'' (of_int err) p) (setkilled p)
                  else ret ())
                 (ret 0))
            else
              bind devintr (\<lambda>which_dev.
              sq (if which_dev = 0 then
                    sq (report ''usertrap(): unexpected scause %p pid=%d'' (scause h) p) (setkilled p)
                  else ret ())
                 (ret which_dev))) (\<lambda>which_dev.
      bind (is_killed p) (\<lambda>d.
      sq (if d \<noteq> 0 then exit (-1) else ret ())
      (sq (if which_dev = 2 then yield else ret ())
          usertrapret)))))))))"

definition kerneltrap :: "('z trapsys_scheme, unit) routine" where
  "kerneltrap =
     bind (gets myhart) (\<lambda>h.
     sq (panic_if (sstatus h AND SSTATUS_SPP = 0) ''kerneltrap: not from supervisor mode'')
     (bind (gets intr_get) (\<lambda>on.
     sq (panic_if on ''kerneltrap: interrupts enabled'')
     (bind devintr (\<lambda>which_dev.
     sq (panic_if (which_dev = 0) ''kerneltrap'')
     (sq (if which_dev = 2 then
            bind myproc (\<lambda>p. case p of None \<Rightarrow> ret ()
            | Some p \<Rightarrow> bind (gets (\<lambda>s. state (procs s p))) (\<lambda>st.
                if st = RUNNING then yield else ret ()))
          else ret ())
         (upd_hart (\<lambda>h'. h'\<lparr>sepc := sepc h, sstatus := sstatus h\<rparr>))))))))"

section \<open>forkret (proc.c)\<close>

definition forkret :: "('z trapsys_scheme, u64 \<times> u64) routine" where
  "forkret =
     bind this_proc (\<lambda>p.
     sq (release (ProcLock p))
     (bind (gets forkret_first) (\<lambda>first.
     sq (if first then
           sq (fsinit ROOTDEV) (modify (\<lambda>s. s\<lparr>forkret_first := False\<rparr>))
         else ret ())
        usertrapret)))"

end
