(* ===== verification/Boot.thy ===== *)
theory Boot
  imports Trap
begin

text \<open>
  Start of the machine: \<^verbatim>\<open>kernel/start.c\<close>, which each hart runs in machine mode, and
  \<^verbatim>\<open>kernel/main.c\<close>. The machine-mode registers and the timer of the CLINT are state of
  this theory; \<^verbatim>\<open>mret\<close> gives the address it jumps to. \<open>scheduler\<close> never returns: its body
  for one slot is in the theory Proc, and main is given up to the call of the scheduler.
\<close>

section \<open>State\<close>

record mregs =
  mhartid :: u64
  mstatus :: u64
  mepc :: u64
  medeleg :: u64
  mideleg :: u64
  sie :: u64
  pmpaddr0 :: u64
  pmpcfg0 :: u64
  mscratch :: u64
  mtvec :: u64
  mie :: u64

record bootsys = trapsys +
  mhart :: "nat \<Rightarrow> mregs"
  mtime :: u64
  mtimecmp :: "u64 \<Rightarrow> u64"
  timer_scratch :: "nat \<Rightarrow> u64 list"
  timer_scratch_addr :: u64
  main_addr :: u64
  timervec_addr :: u64
  etext :: u64
  kernel_pagetable :: u64
  started :: bool

definition MSTATUS_MPP_MASK :: u64 where "MSTATUS_MPP_MASK = push_bit 11 3"
definition MSTATUS_MPP_S :: u64 where "MSTATUS_MPP_S = push_bit 11 1"
definition MSTATUS_MIE :: u64 where "MSTATUS_MIE = push_bit 3 1"
definition SIE_SEIE :: u64 where "SIE_SEIE = push_bit 9 1"
definition SIE_STIE :: u64 where "SIE_STIE = push_bit 5 1"
definition SIE_SSIE :: u64 where "SIE_SSIE = push_bit 1 1"
definition MIE_MTIE :: u64 where "MIE_MTIE = push_bit 7 1"
definition CLINT :: u64 where "CLINT = 0x2000000"
definition CLINT_MTIMECMP :: "u64 \<Rightarrow> u64" where "CLINT_MTIMECMP h = CLINT + 0x4000 + 8 * h"

text \<open>\<open>id\<close> is the number of the hart that runs.\<close>

definition upd_mregs :: "nat \<Rightarrow> (mregs \<Rightarrow> mregs) \<Rightarrow> ('z bootsys_scheme, unit) routine" where
  "upd_mregs h f = modify (\<lambda>s. s\<lparr>mhart := (mhart s)(h := f (mhart s h))\<rparr>)"

section \<open>start.c\<close>

definition timerinit :: "nat \<Rightarrow> ('z bootsys_scheme, unit) routine" where
  "timerinit h =
     bind (gets (\<lambda>s. mhartid (mhart s h))) (\<lambda>id'.
     let interval = 1000000 in
     sq (modify (\<lambda>s. s\<lparr>mtimecmp := (mtimecmp s)(CLINT_MTIMECMP id' := mtime s + interval)\<rparr>))
     (sq (modify (\<lambda>s. s\<lparr>timer_scratch := (timer_scratch s)(unat id' :=
            (timer_scratch s (unat id'))[3 := CLINT_MTIMECMP id', 4 := interval])\<rparr>))
     (bind (gets (\<lambda>s. s)) (\<lambda>s.
     sq (upd_mregs h (\<lambda>m. m\<lparr>mscratch := timer_scratch_addr s + 40 * id'\<rparr>))
     (sq (upd_mregs h (\<lambda>m. m\<lparr>mtvec := timervec_addr s\<rparr>))
     (sq (upd_mregs h (\<lambda>m. m\<lparr>mstatus := mstatus m OR MSTATUS_MIE\<rparr>))
         (upd_mregs h (\<lambda>m. m\<lparr>mie := mie m OR MIE_MTIE\<rparr>))))))))"

definition start :: "nat \<Rightarrow> ('z bootsys_scheme, u64) routine" where
  "start h =
     sq (upd_mregs h (\<lambda>m. m\<lparr>mstatus := (mstatus m AND NOT MSTATUS_MPP_MASK) OR MSTATUS_MPP_S\<rparr>))
     (bind (gets main_addr) (\<lambda>a.
     sq (upd_mregs h (\<lambda>m. m\<lparr>mepc := a\<rparr>))
     (sq (modify (\<lambda>s. s\<lparr>harts := (harts s)(h := (harts s h)\<lparr>satp := 0\<rparr>)\<rparr>))
     (sq (upd_mregs h (\<lambda>m. m\<lparr>medeleg := 0xffff, mideleg := 0xffff\<rparr>))
     (sq (upd_mregs h (\<lambda>m. m\<lparr>sie := sie m OR SIE_SEIE OR SIE_STIE OR SIE_SSIE\<rparr>))
     (sq (upd_mregs h (\<lambda>m. m\<lparr>pmpaddr0 := 0x3fffffffffffff, pmpcfg0 := 0xf\<rparr>))
     (sq (timerinit h)
     (bind (gets (\<lambda>s. mhartid (mhart s h))) (\<lambda>id'.
     sq (modify (\<lambda>s. s\<lparr>tp := unat id'\<rparr>))
        (gets (\<lambda>s. mepc (mhart s h))))))))))))"

section \<open>main.c\<close>

definition kvminit :: "('z bootsys_scheme, unit) routine" where
  "kvminit =
     bind (gets (\<lambda>s. s)) (\<lambda>s.
     bind (kvmmake (etext s) (trampoline s)) (\<lambda>k.
     modify (\<lambda>s. s\<lparr>kernel_pagetable := k\<rparr>)))"

definition puts :: "string \<Rightarrow> ('z consys_scheme, unit) routine" where
  "puts msg = printf (map of_char msg @ [10]) []"

definition main :: "(u32 \<Rightarrow> u32) \<Rightarrow> ('z bootsys_scheme, unit) routine" where
  "main negotiate =
     bind cpuid (\<lambda>h.
     if h = 0 then
       sq consoleinit
       (sq printfinit
       (sq (puts '''')
       (sq (puts ''xv6 kernel is booting'')
       (sq (puts '''')
       (sq kinit
       (sq kvminit
       (sq (bind (gets kernel_pagetable) kvminithart)
       (sq procinit
       (sq trapinit
       (sq trapinithart
       (sq plicinit
       (sq plicinithart
       (sq binit
       (sq iinit
       (sq fileinit
       (sq (virtio_disk_init negotiate)
       (sq userinit
           (modify (\<lambda>s. s\<lparr>started := True\<rparr>)))))))))))))))))))
     else
       bind (gets started) (\<lambda>go.
       if \<not> go then diverge
       else
         sq (printf (map of_char ''hart %d starting'' @ [10]) [IntArg (of_nat h)])
         (sq (bind (gets kernel_pagetable) kvminithart)
         (sq trapinithart
             plicinithart))))"

end
