(* ===== verification/Encode.thy ===== *)
theory Encode
  imports Log
begin

text \<open>
  Integers in blocks of bytes: what was put can be got, and putting leaves the other bytes
  alone. The on-disk log header and the other structures of the disk are built on these facts.
\<close>

section \<open>Bytes of a block\<close>

lemma length_put [simp]: "length (put16 d i w) = length d" "length (put32 d i v) = length d"
  by (simp_all add: put16_def put32_def)

lemma byte_at_update: "byte_at (d[i := x]) j = (if j = i \<and> i < length d then x else byte_at d j)"
  by (auto simp: byte_at_def nth_list_update)

lemma byte_at_put16:
  "i + 1 < length d \<Longrightarrow> byte_at (put16 d i v) j = (if j = i then ucast v else if j = i + 1 then ucast (drop_bit 8 v) else byte_at d j)"
  by (auto simp: put16_def byte_at_update)

lemma byte_at_put32:
  "i + 3 < length d \<Longrightarrow> byte_at (put32 d i v) j =
    (if j = i then ucast v else if j = i + 1 then ucast (drop_bit 8 v) else if j = i + 2 then ucast (drop_bit 16 v)
     else if j = i + 3 then ucast (drop_bit 24 v) else byte_at d j)"
  by (auto simp: put32_def byte_at_update)

section \<open>Round trips\<close>

lemma bytes32:
  fixes v :: u32
  shows "ucast (ucast v :: u8) OR push_bit 8 (ucast (ucast (drop_bit 8 v) :: u8) OR
     push_bit 8 (ucast (ucast (drop_bit 16 v) :: u8) OR push_bit 8 (ucast (ucast (drop_bit 24 v) :: u8)))) = v"
proof (rule bit_word_eqI, goal_cases)
  case (1 n)
  then consider "n < 8" | "8 \<le> n" "n < 16" | "16 \<le> n" "n < 24" | "24 \<le> n" "n < 32" by fastforce
  then show ?case by cases (auto simp: bit_or_iff bit_push_bit_iff bit_ucast_iff bit_drop_bit_eq)
qed

lemma bytes16:
  fixes v :: u16
  shows "ucast (ucast v :: u8) OR push_bit 8 (ucast (ucast (drop_bit 8 v) :: u8)) = v"
proof (rule bit_word_eqI, goal_cases)
  case (1 n)
  then consider "n < 8" | "8 \<le> n" "n < 16" by fastforce
  then show ?case by cases (auto simp: bit_or_iff bit_push_bit_iff bit_ucast_iff bit_drop_bit_eq)
qed

lemma get16_put16 [simp]: "i + 1 < length d \<Longrightarrow> get16 (put16 d i v) i = v"
  using bytes16 [of v] by (simp add: get16_def byte_at_put16)

lemma get32_put32 [simp]: "i + 3 < length d \<Longrightarrow> get32 (put32 d i v) i = v"
  using bytes32 [of v] by (simp add: get32_def byte_at_put32)

lemma get_other [simp]:
  "i + 1 < length d \<Longrightarrow> j + 2 \<le> i \<or> i + 2 \<le> j \<Longrightarrow> get16 (put16 d i w) j = get16 d j"
  "i + 1 < length d \<Longrightarrow> j + 4 \<le> i \<or> i + 2 \<le> j \<Longrightarrow> get32 (put16 d i w) j = get32 d j"
  "i + 3 < length d \<Longrightarrow> j + 2 \<le> i \<or> i + 4 \<le> j \<Longrightarrow> get16 (put32 d i v) j = get16 d j"
  "i + 3 < length d \<Longrightarrow> j + 4 \<le> i \<or> i + 4 \<le> j \<Longrightarrow> get32 (put32 d i v) j = get32 d j"
  by (auto simp: get16_def get32_def byte_at_put16 byte_at_put32)

section \<open>The log header\<close>

lemma put_words:
  assumes "o' + 4 * n \<le> length d"
  shows "length (fold (\<lambda>i d. put32 d (o' + 4 * i) (f i)) [0..<n] d) = length d"
    "k + 4 \<le> o' \<Longrightarrow> get32 (fold (\<lambda>i d. put32 d (o' + 4 * i) (f i)) [0..<n] d) k = get32 d k"
    "k + 2 \<le> o' \<Longrightarrow> get16 (fold (\<lambda>i d. put32 d (o' + 4 * i) (f i)) [0..<n] d) k = get16 d k"
    "j < n \<Longrightarrow> get32 (fold (\<lambda>i d. put32 d (o' + 4 * i) (f i)) [0..<n] d) (o' + 4 * j) = f j"
  using assms
proof (induction n)
  case (Suc n)
  { case 1 with Suc show ?case by simp }
  { case 2 with Suc show ?case by simp }
  { case 3 with Suc show ?case by simp }
  { case 4 with Suc show ?case by (cases "j = n") simp_all }
qed simp_all

lemma put_head_fields:
  assumes "0 \<le> lh_n h" "lh_n h \<le> int LOGSIZE" "length d = BSIZE"
  shows "length (put_head h d) = BSIZE" "head_n (put_head h d) = lh_n h"
    "i < nat (lh_n h) \<Longrightarrow> head_block (put_head h d) i = lh_block h i"
proof -
  have s: "LOGSIZE = 30" "BSIZE = 1024" by (simp_all add: LOGSIZE_def MAXOPBLOCKS_def BSIZE_def)
  then have l: "4 + 4 * nat (lh_n h) \<le> length (put32 d 0 (of_int (lh_n h)))" using assms by simp
  have n: "sint (of_int (lh_n h) :: u32) = lh_n h" using assms s by (simp add: signed_of_int signed_take_bit_int_eq_self)
  show "length (put_head h d) = BSIZE" "head_n (put_head h d) = lh_n h"
    "i < nat (lh_n h) \<Longrightarrow> head_block (put_head h d) i = lh_block h i"
    using put_words [OF l] assms(3) s n by (simp_all add: put_head_def head_n_def head_block_def)
qed



end
