(* ===== verification/Cache.thy ===== *)
theory Cache
  imports Bio
begin

text \<open>
  What the buffer cache promises to its clients. The relation \<open>cache H P v s\<close> says that the
  state \<open>s\<close> is a well-formed cache in which the running process holds the blocks \<open>dom H\<close>
  (block \<open>n\<close> in buffer \<open>H n\<close>), the blocks \<open>P\<close> are pinned, and \<open>v\<close> is what
  the blocks contain as seen through the cache. The laws of the operations on this relation
  form the locale \<open>block_cache\<close>, in which the copying of a block, the common step of
  committing and installing a transaction, is treated once.
\<close>

section \<open>The list of buffers\<close>

lemma NBUF_eq: "NBUF = 30"
  by (simp add: NBUF_def MAXOPBLOCKS_def)

text \<open>The nodes visited from \<open>p\<close> on before \<open>q\<close>.\<close>

fun path :: "(nat \<Rightarrow> nat) \<Rightarrow> nat \<Rightarrow> nat list \<Rightarrow> nat \<Rightarrow> bool" where
  "path nx p [] q \<longleftrightarrow> nx p = q"
| "path nx p (x # xs) q \<longleftrightarrow> nx p = x \<and> path nx x xs q"

lemma path_append: "path nx p (xs @ y # ys) q \<longleftrightarrow> path nx p xs y \<and> path nx y ys q"
  by (induction xs arbitrary: p) auto

lemma path_cong: "(\<And>x. x = p \<or> x \<in> set xs \<Longrightarrow> nx x = ny x) \<Longrightarrow> path nx p xs q = path ny p xs q"
  by (induction xs arbitrary: p) auto

lemma path_last: "path nx p xs q \<Longrightarrow> nx (last (p # xs)) = q"
  by (induction xs arbitrary: p) auto

lemma path_remove:
  assumes "path nx p (xs @ y # ys) q" "distinct (p # xs @ y # ys)"
  shows "path (nx(last (p # xs) := nx y)) p (xs @ ys) q"
  using assms
proof (induction xs arbitrary: p)
  case Nil
  then have "path (nx(p := nx y)) y ys q = path nx y ys q" by (intro path_cong) auto
  with Nil show ?case by (cases ys) (auto simp: fun_upd_def)
next
  case (Cons x xs)
  have "last (x # xs) \<noteq> p" using Cons.prems(2) last_in_set [of "x # xs"] by auto
  with Cons show ?case by auto
qed

lemma path_push:
  assumes "path nx p xs q" "b \<notin> set xs" "b \<noteq> p" "p \<notin> set xs"
  shows "path (nx(b := nx p, p := b)) p (b # xs) q"
proof (cases xs)
  case Nil
  with assms show ?thesis by simp
next
  case (Cons x ys)
  have "path (nx(b := nx p, p := b)) x ys q = path nx x ys q"
    using assms Cons by (intro path_cong) auto
  with assms Cons show ?thesis by simp
qed

lemma path_snoc:
  assumes "path nx p xs q" "b \<notin> set xs" "b \<noteq> p" "distinct (p # xs)"
  shows "path (nx(b := q, last (p # xs) := b)) p (xs @ [b]) q"
  using assms
proof (induction xs arbitrary: p)
  case (Cons x xs)
  have "last (x # xs) \<noteq> p" using Cons.prems last_in_set [of "x # xs"] by auto
  with Cons show ?case by auto
qed simp

text \<open>The buffers from most to least recently used.\<close>

definition ring :: "(nat \<Rightarrow> buf) \<Rightarrow> nat list \<Rightarrow> bool" where
  "ring f L \<longleftrightarrow> distinct (NBUF # L) \<and> path (\<lambda>b. bnext (f b)) NBUF L NBUF \<and> path (\<lambda>b. bprev (f b)) NBUF (rev L) NBUF"

lemma find_cached_run:
  "path (\<lambda>b. bnext (bufs s b)) p xs NBUF \<Longrightarrow> NBUF \<notin> set xs \<Longrightarrow> length xs \<le> n \<Longrightarrow>
    find_cached n dev bno (bnext (bufs s p)) s = Ok (find (\<lambda>b. bdev (bufs s b) = dev \<and> bblockno (bufs s b) = bno) xs) s"
proof (induction xs arbitrary: p n)
  case Nil
  then show ?case by (simp add: find_cached.simps)
next
  case (Cons x xs)
  then obtain m where "n = Suc m" by (cases n) auto
  with Cons show ?case by (subst find_cached.simps) auto
qed

lemma find_unused_run:
  "path (\<lambda>b. bprev (bufs s b)) p xs NBUF \<Longrightarrow> NBUF \<notin> set xs \<Longrightarrow> length xs \<le> n \<Longrightarrow>
    find_unused_buf n (bprev (bufs s p)) s = Ok (find (\<lambda>b. brefcnt (bufs s b) = 0) xs) s"
proof (induction xs arbitrary: p n)
  case Nil
  then show ?case by (simp add: find_unused_buf.simps)
next
  case (Cons x xs)
  then obtain m where "n = Suc m" by (cases n) auto
  with Cons show ?case by (subst find_unused_buf.simps) auto
qed

text \<open>Only the links matter to the list.\<close>

lemma ring_cong:
  assumes "\<And>b. bnext (g b) = bnext (f b)" "\<And>b. bprev (g b) = bprev (f b)"
  shows "ring g L = ring f L"
  using assms by (simp add: ring_def)

lemma upd_buf_run [run_simps]: "upd_buf b f s = Ok () (s\<lparr>bufs := (bufs s)(b := f (bufs s b))\<rparr>)"
  by (simp add: upd_buf_def)

text \<open>The links after a buffer was unlinked.\<close>

definition relink :: "(nat \<Rightarrow> buf) \<Rightarrow> (nat \<Rightarrow> nat) \<Rightarrow> (nat \<Rightarrow> nat) \<Rightarrow> nat \<Rightarrow> buf" where
  "relink f nx pv = (\<lambda>b. (f b)\<lparr>bnext := nx b, bprev := pv b\<rparr>)"

lemma relink_simps [simp]:
  "bnext (relink f nx pv b) = nx b" "bprev (relink f nx pv b) = pv b" "bvalid (relink f nx pv b) = bvalid (f b)"
  "bdev (relink f nx pv b) = bdev (f b)" "bblockno (relink f nx pv b) = bblockno (f b)"
  "brefcnt (relink f nx pv b) = brefcnt (f b)" "bdata (relink f nx pv b) = bdata (f b)"
  by (simp_all add: relink_def)

lemma unlink_run:
  assumes "bnext (bufs s b) \<noteq> b" "bprev (bufs s b) \<noteq> b"
  shows "unlink b s = Ok () (s\<lparr>bufs := relink (bufs s)
    ((\<lambda>b. bnext (bufs s b))(bprev (bufs s b) := bnext (bufs s b)))
    ((\<lambda>b. bprev (bufs s b))(bnext (bufs s b) := bprev (bufs s b)))\<rparr>)"
  using assms by (auto simp: unlink_def upd_buf_run relink_def fun_eq_iff intro!: arg_cong2 [of _ _ _ _ Ok] bcache.unfold_congs)

lemma link_front_run:
  assumes "b \<noteq> NBUF" "bnext (bufs s NBUF) \<noteq> b"
  shows "link_front b s = Ok () (s\<lparr>bufs := relink (bufs s)
    ((\<lambda>b. bnext (bufs s b))(b := bnext (bufs s NBUF), NBUF := b))
    ((\<lambda>b. bprev (bufs s b))(b := NBUF, bnext (bufs s NBUF) := b))\<rparr>)"
  using assms by (auto simp: link_front_def upd_buf_run relink_def fun_eq_iff intro!: arg_cong2 [of _ _ _ _ Ok] bcache.unfold_congs)

lemma relink_relink [simp]: "relink (relink f nx pv) nx' pv' = relink f nx' pv'"
  by (simp add: relink_def fun_eq_iff)

lemma path_head: "path nx p xs q \<Longrightarrow> nx p = hd (xs @ [q])"
  by (cases xs) auto

lemma hd_rev_snoc: "hd (rev xs @ [p]) = last (p # xs)"
  by (cases xs rule: rev_cases) simp_all

lemma ring_neighbours:
  assumes "ring f (A @ b # B)"
  shows "bprev (f b) = last (NBUF # A)" "bnext (f b) = hd (B @ [NBUF])" "bnext (f b) = last (NBUF # rev B)"
    "bprev (f b) \<noteq> b" "bnext (f b) \<noteq> b"
proof -
  have p: "path (\<lambda>b. bnext (f b)) b B NBUF" "path (\<lambda>b. bprev (f b)) b (rev A) NBUF" "distinct (NBUF # A @ b # B)"
    using assms by (simp_all add: ring_def path_append)
  show a: "bprev (f b) = last (NBUF # A)" using path_head [OF p(2)] by (simp only: hd_rev_snoc)
  show n: "bnext (f b) = hd (B @ [NBUF])" using path_head [OF p(1)] .
  show "bnext (f b) = last (NBUF # rev B)" using n hd_rev_snoc [of "rev B" NBUF] by simp
  have "last (NBUF # A) \<in> set (NBUF # A)" "hd (B @ [NBUF]) \<in> set (B @ [NBUF])"
    by (rule last_in_set, simp) (rule hd_in_set, simp)
  with a n p(3) show "bprev (f b) \<noteq> b" "bnext (f b) \<noteq> b" by auto
qed

text \<open>The effect of link_front on the list.\<close>

lemma ring_push:
  assumes "distinct (NBUF # L)" "path nx NBUF L NBUF" "path pv NBUF (rev L) NBUF" "b \<notin> set L" "b \<noteq> NBUF"
  shows "ring (relink f (nx(b := nx NBUF, NBUF := b)) (pv(b := NBUF, nx NBUF := b))) (b # L)"
proof -
  have "nx NBUF = last (NBUF # rev L)" using path_head [OF assms(2)] hd_rev_snoc [of "rev L" NBUF] by simp
  then have "path (pv(b := NBUF, nx NBUF := b)) NBUF (rev L @ [b]) NBUF"
    using path_snoc [OF assms(3), of b] assms(1,4,5) by simp
  moreover have "path (nx(b := nx NBUF, NBUF := b)) NBUF (b # L) NBUF"
    using assms by (intro path_push) auto
  ultimately show ?thesis using assms by (simp add: ring_def fun_upd_def cong: if_cong)
qed

lemma to_front:
  assumes r: "ring (bufs s) (A @ b # B)"
  obtains nx pv where "sq (unlink b) (link_front b) s = Ok () (s\<lparr>bufs := relink (bufs s) nx pv\<rparr>)"
    "ring (relink (bufs s) nx pv) (b # A @ B)"
proof -
  note nb = ring_neighbours [OF r]
  let ?n = "\<lambda>b. bnext (bufs s b)" and ?p = "\<lambda>b. bprev (bufs s b)"
  define n1 p1 where "n1 = ?n(?p b := ?n b)" and "p1 = ?p(?n b := ?p b)"
  have d: "distinct (NBUF # A @ b # B)" and pn: "path ?n NBUF (A @ b # B) NBUF"
    and pp: "path ?p NBUF (rev B @ b # rev A) NBUF" using r by (simp_all add: ring_def)
  have n1: "path n1 NBUF (A @ B) NBUF" using path_remove [OF pn d] unfolding n1_def nb(1) .
  have "path (?p(last (NBUF # rev B) := ?p b)) NBUF (rev B @ rev A) NBUF"
    using d by (intro path_remove [OF pp]) auto
  then have p1: "path p1 NBUF (rev (A @ B)) NBUF" unfolding p1_def nb(3) rev_append .
  have "hd (A @ B @ [NBUF]) \<in> set (A @ B @ [NBUF])" by (rule hd_in_set) simp
  then have fb: "n1 NBUF \<noteq> b" using path_head [OF n1] d by auto
  have "unlink b s = Ok () (s\<lparr>bufs := relink (bufs s) n1 p1\<rparr>)"
    unfolding n1_def p1_def using nb(4,5) by (intro unlink_run)
  moreover have "link_front b (s\<lparr>bufs := relink (bufs s) n1 p1\<rparr>) =
      Ok () (s\<lparr>bufs := relink (bufs s) (n1(b := n1 NBUF, NBUF := b)) (p1(b := NBUF, n1 NBUF := b))\<rparr>)"
    using d fb by (subst link_front_run) auto
  moreover have "ring (relink (bufs s) (n1(b := n1 NBUF, NBUF := b)) (p1(b := NBUF, n1 NBUF := b))) (b # A @ B)"
    using d by (intro ring_push [OF _ n1 p1]) auto
  ultimately show ?thesis by (intro that) simp
qed

section \<open>The relation\<close>

definition holds :: "(nat \<Rightarrow> buf) \<Rightarrow> nat \<Rightarrow> nat \<Rightarrow> bool" where
  "holds f b n \<longleftrightarrow> b < NBUF \<and> bdev (f b) = ROOTDEV \<and> unat (bblockno (f b)) = n"

definition pinned :: "nat set \<Rightarrow> (nat \<Rightarrow> buf) \<Rightarrow> nat \<Rightarrow> bool" where
  "pinned P f b \<longleftrightarrow> (\<exists>n\<in>P. holds f b n)"

lemma pinned_block: "holds f b n \<Longrightarrow> pinned P f b \<longleftrightarrow> n \<in> P"
  by (auto simp: pinned_def holds_def)

text \<open>The parts of the relation: the references and locks of the buffers, and the contents.\<close>

definition use_ok :: "bool \<Rightarrow> bool \<Rightarrow> 'z bcache_scheme \<Rightarrow> nat \<Rightarrow> bool" where
  "use_ok held pin s b \<longleftrightarrow> unat (brefcnt (bufs s b)) = of_bool held + of_bool pin \<and>
     (slocked (sleeplks s (BufSleepLock b)) \<noteq> 0 \<longleftrightarrow> held) \<and>
     (held \<longrightarrow> spid (sleeplks s (BufSleepLock b)) = curpid s)"

definition uses_ok :: "(nat \<rightharpoonup> nat) \<Rightarrow> nat set \<Rightarrow> 'z bcache_scheme \<Rightarrow> bool" where
  "uses_ok H P s \<longleftrightarrow> (\<forall>b<NBUF. use_ok (b \<in> ran H) (pinned P (bufs s) b) s b)"

definition blocks_ok :: "(nat \<rightharpoonup> nat) \<Rightarrow> nat set \<Rightarrow> blocks \<Rightarrow> 'z bcache_scheme \<Rightarrow> bool" where
  "blocks_ok H P v s \<longleftrightarrow>
     (\<forall>n b. H n = Some b \<longrightarrow> holds (bufs s) b n \<and> bvalid (bufs s b)) \<and>
     (\<forall>n\<in>P. \<exists>b. holds (bufs s) b n \<and> bvalid (bufs s b)) \<and>
     (\<forall>b c n. holds (bufs s) b n \<longrightarrow> holds (bufs s) c n \<longrightarrow> b = c) \<and>
     (\<forall>b n. holds (bufs s) b n \<longrightarrow> bvalid (bufs s b) \<longrightarrow> bdata (bufs s b) = v n) \<and>
     (\<forall>n. v n \<noteq> disk s n \<longrightarrow> n \<in> P \<union> dom H)"

definition cache :: "(nat \<rightharpoonup> nat) \<Rightarrow> nat set \<Rightarrow> blocks \<Rightarrow> 'z bcache_scheme \<Rightarrow> bool" where
  "cache H P v s \<longleftrightarrow> sys_ok s \<and> (\<exists>L. ring (bufs s) L \<and> set L = {..<NBUF}) \<and> uses_ok H P s \<and> blocks_ok H P v s"

text \<open>What an operation of the cache may change besides waking sleepers.\<close>

definition only_cache :: "'z bcache_scheme \<Rightarrow> 'z bcache_scheme \<Rightarrow> bool" where
  "only_cache s t \<longleftrightarrow> calm (s\<lparr>bufs := bufs t, sleeplks := sleeplks t, disk_writes := disk_writes t\<rparr>) t"

lemma calm_cache: "calm s t \<Longrightarrow> cache H P v s \<Longrightarrow> cache H P v t"
  by (simp add: cache_def uses_ok_def use_ok_def blocks_ok_def calm_bcache calm_sleeplks calm_sys_ok calm_curpid)

lemma holds_unique: "holds f b n \<Longrightarrow> holds f b m \<Longrightarrow> n = m"
  by (simp add: holds_def)

lemma cacheD:
  assumes "cache H P v s"
  shows "sys_ok s" "uses_ok H P s" "\<And>n b. H n = Some b \<Longrightarrow> holds (bufs s) b n"
    "\<And>n b. H n = Some b \<Longrightarrow> bvalid (bufs s b)"
    "\<And>n. n \<in> P \<Longrightarrow> \<exists>b. holds (bufs s) b n \<and> bvalid (bufs s b)"
    "\<And>b c n. holds (bufs s) b n \<Longrightarrow> holds (bufs s) c n \<Longrightarrow> b = c"
    "\<And>b n. holds (bufs s) b n \<Longrightarrow> bvalid (bufs s b) \<Longrightarrow> bdata (bufs s b) = v n"
    "\<And>n. v n \<noteq> disk s n \<Longrightarrow> n \<in> P \<union> dom H"
  using assms unfolding cache_def blocks_ok_def by metis+

lemma cache_inj: "cache H P v s \<Longrightarrow> H n = Some b \<Longrightarrow> H m = Some b \<Longrightarrow> n = m"
  using cacheD(3) holds_unique by metis

lemma only_cache_calm: "calm s t \<Longrightarrow> only_cache s t"
  by (simp add: only_cache_def calm_bcache calm_sleeplks)

section \<open>Taking and releasing a block\<close>

lemma uses_okD:
  assumes "uses_ok H P s" "b < NBUF"
  shows "unat (brefcnt (bufs s b)) = of_bool (b \<in> ran H) + of_bool (pinned P (bufs s) b)"
    "slocked (sleeplks s (BufSleepLock b)) \<noteq> 0 \<longleftrightarrow> b \<in> ran H"
    "b \<in> ran H \<Longrightarrow> spid (sleeplks s (BufSleepLock b)) = curpid s"
  using assms unfolding uses_ok_def use_ok_def by blast+

text \<open>Enough to look at the buffer that an operation changes.\<close>

lemma uses_okI:
  assumes "uses_ok H P s" "curpid t = curpid s"
    and "\<And>x. x \<noteq> b \<Longrightarrow> brefcnt (bufs t x) = brefcnt (bufs s x) \<and>
      sleeplks t (BufSleepLock x) = sleeplks s (BufSleepLock x) \<and>
      (x \<in> ran H' \<longleftrightarrow> x \<in> ran H) \<and> (pinned P' (bufs t) x \<longleftrightarrow> pinned P (bufs s) x)"
    and "use_ok (b \<in> ran H') (pinned P' (bufs t) b) t b"
  shows "uses_ok H' P' t"
  unfolding uses_ok_def
proof (intro allI impI)
  fix x assume x: "x < NBUF"
  show "use_ok (x \<in> ran H') (pinned P' (bufs t) x) t x"
    using assms(4) assms(3) [of x] uses_okD [OF assms(1) x] assms(2) by (cases "x = b") (auto simp: use_ok_def)
qed

text \<open>A buffer without references holds no block that is in use.\<close>

lemma unused_buf:
  assumes "cache H P v s" "brefcnt (bufs s b) = 0" "holds (bufs s) b n"
  shows "n \<notin> P" "H n = None" "b \<notin> ran H"
proof -
  have b: "b < NBUF" using assms(3) by (simp add: holds_def)
  have u: "of_bool (b \<in> ran H) + of_bool (pinned P (bufs s) b) = (0::nat)"
    using uses_okD(1) [OF cacheD(2) [OF assms(1)] b] assms(2) by simp
  then show "b \<notin> ran H" by auto
  from u show "n \<notin> P" using pinned_block [OF assms(3)] by auto
  show "H n = None"
  proof (rule ccontr)
    assume "H n \<noteq> None"
    then obtain c where c: "H n = Some c" by auto
    then have "c = b" using cacheD(3,6) [OF assms(1)] assms(3) by blast
    with c \<open>b \<notin> ran H\<close> show False by (auto simp: ran_def)
  qed
qed

lemma held_buf:
  assumes "cache H P v s" "H n = None" "holds (bufs s) b n"
  shows "b \<notin> ran H"
proof
  assume "b \<in> ran H"
  then obtain m where m: "H m = Some b" by (auto simp: ran_def)
  then have "m = n" using cacheD(3) [OF assms(1)] assms(3) holds_unique by blast
  with m assms(2) show False by simp
qed

lemma cache_take:
  assumes c: "cache H P v s" and n: "H n = None" and b: "b < NBUF"
    and old: "holds (bufs s) b n \<or> brefcnt (bufs s b) = 0 \<and> (\<forall>c. \<not> holds (bufs s) c n)"
    and r: "bdev r = ROOTDEV" "unat (bblockno r) = n" "bvalid r" "bdata r = v n"
      "unat (brefcnt r) = 1 + of_bool (n \<in> P)" "bnext r = bnext (bufs s b)" "bprev r = bprev (bufs s b)"
    and t: "bufs t = (bufs s)(b := r)" "sleeplks t = (sleeplks s)(BufSleepLock b := l)" "disk t = disk s"
      "sys_ok t" "curpid t = curpid s"
    and l: "slocked l \<noteq> 0" "spid l = curpid s"
  shows "cache (H(n \<mapsto> b)) P v t"
proof -
  have bh: "b \<notin> ran H"
    using old held_buf [OF c n] uses_okD(1) [OF cacheD(2) [OF c] b] by auto
  have ran: "ran (H(n \<mapsto> b)) = insert b (ran H)" using n by simp
  have h: "holds ((bufs s)(b := r)) x m \<longleftrightarrow> (if x = b then m = n else holds (bufs s) x m)" for x m
    using b r(1,2) by (auto simp: holds_def)
  have hn: "x = b" if "holds (bufs s) x n" for x using old that cacheD(6) [OF c] by blast
  have hb: "m = n" if "holds (bufs s) b m" "m \<in> P" for m
    using old that holds_unique unused_buf(1) [OF c] by blast
  have ring: "\<exists>L. ring (bufs t) L \<and> set L = {..<NBUF}"
    using c r(6,7) ring_cong [of "bufs t" "bufs s"] by (auto simp: cache_def t(1))
  have pin: "pinned P ((bufs s)(b := r)) x \<longleftrightarrow> (if x = b then n \<in> P else pinned P (bufs s) x)" for x
    by (simp add: pinned_def h)
  have uses: "uses_ok (H(n \<mapsto> b)) P t"
    using r(5) l unfolding ran
    by (intro uses_okI [OF cacheD(2) [OF c] t(5), of b]) (simp_all add: pin use_ok_def t(1,2,5) n)
  have "blocks_ok (H(n \<mapsto> b)) P v t"
    unfolding blocks_ok_def
  proof (intro conjI allI impI ballI)
    fix m x assume "(H(n \<mapsto> b)) m = Some x"
    then show "holds (bufs t) x m" "bvalid (bufs t x)"
      using cacheD(3,4) [OF c] bh b r by (auto simp: h t(1) split: if_splits intro: ranI)
  next
    fix m assume "m \<in> P"
    then obtain x where "holds (bufs s) x m" "bvalid (bufs s x)" using cacheD(5) [OF c] by blast
    then show "\<exists>x. holds (bufs t) x m \<and> bvalid (bufs t x)"
      using hb \<open>m \<in> P\<close> r(3) by (intro exI [of _ x]) (auto simp: h t(1))
  next
    fix x y m assume "holds (bufs t) x m" "holds (bufs t) y m"
    then show "x = y" using hn cacheD(6) [OF c] by (auto simp: h t(1) split: if_splits)
  next
    fix x m assume "holds (bufs t) x m" "bvalid (bufs t x)"
    then show "bdata (bufs t x) = v m" using cacheD(7) [OF c] r(4) by (auto simp: h t(1) split: if_splits)
  next
    fix m assume "v m \<noteq> disk t m"
    then show "m \<in> P \<union> dom (H(n \<mapsto> b))" using cacheD(8) [OF c, of m] by (auto simp: t(3))
  qed
  with ring uses t(4) show ?thesis by (simp add: cache_def)
qed

lemma find_unique: "b \<in> set xs \<Longrightarrow> Q b \<Longrightarrow> (\<And>c. c \<in> set xs \<Longrightarrow> Q c \<Longrightarrow> c = b) \<Longrightarrow> find Q xs = Some b"
proof (induction xs)
  case (Cons x xs)
  show ?case
  proof (cases "Q x")
    case True
    then show ?thesis using Cons.prems(3) [of x] by simp
  next
    case False
    then have "b \<in> set xs" using Cons.prems(1,2) by auto
    then have "find Q xs = Some b" using Cons.prems(2,3) by (intro Cons.IH) simp_all
    with False show ?thesis by simp
  qed
qed simp

lemma find_ex: "\<exists>x\<in>set xs. Q x \<Longrightarrow> \<exists>x. find Q xs = Some x \<and> x \<in> set xs \<and> Q x"
  by (induction xs) auto

lemma used_blocks:
  assumes "cache H P v s"
  shows "finite (P \<union> dom H)" "\<forall>b<NBUF. brefcnt (bufs s b) \<noteq> 0 \<Longrightarrow> NBUF \<le> card (P \<union> dom H)"
proof -
  let ?f = "\<lambda>b. unat (bblockno (bufs s b))"
  have "P \<union> dom H \<subseteq> ?f ` {..<NBUF}"
  proof
    fix n assume "n \<in> P \<union> dom H"
    then obtain b where "holds (bufs s) b n" using cacheD(3,5) [OF assms] by blast
    then show "n \<in> ?f ` {..<NBUF}" by (auto simp: holds_def)
  qed
  then show fin: "finite (P \<union> dom H)" by (rule finite_subset) simp
  assume all: "\<forall>b<NBUF. brefcnt (bufs s b) \<noteq> 0"
  have h: "holds (bufs s) b (?f b) \<and> ?f b \<in> P \<union> dom H" if "b < NBUF" for b
  proof -
    have "unat (brefcnt (bufs s b)) \<noteq> 0" using all that by (simp add: unat_eq_0)
    then have "b \<in> ran H \<or> pinned P (bufs s) b"
      using uses_okD(1) [OF cacheD(2) [OF assms] that] by auto
    then obtain n where "n \<in> P \<union> dom H" "holds (bufs s) b n" using cacheD(3) [OF assms] by (auto simp: ran_def pinned_def)
    then show ?thesis by (auto simp: holds_def)
  qed
  have "inj_on ?f {..<NBUF}"
  proof (rule inj_onI)
    fix b c assume "b \<in> {..<NBUF}" "c \<in> {..<NBUF}" "?f b = ?f c"
    then show "b = c" using h [of b] h [of c] cacheD(6) [OF assms] by auto
  qed
  then have "card (?f ` {..<NBUF}) = NBUF" by (simp add: card_image)
  moreover have "?f ` {..<NBUF} \<subseteq> P \<union> dom H" using h by auto
  ultimately show "NBUF \<le> card (P \<union> dom H)" using card_mono [OF fin] by metis
qed

text \<open>bget, once for a block in the cache and once for one that is not.\<close>

definition got :: "'z bcache_scheme \<Rightarrow> nat \<Rightarrow> buf \<Rightarrow> 'z bcache_scheme" where
  "got s b r = s\<lparr>bufs := (bufs s)(b := r),
     sleeplks := (sleeplks s)(BufSleepLock b := (sleeplks s (BufSleepLock b))\<lparr>slocked := 1, spid := curpid s\<rparr>)\<rparr>"

lemma block_word: "n < 2 ^ 32 \<Longrightarrow> w = (of_nat n :: u32) \<longleftrightarrow> unat w = n"
  by (auto simp: unat_of_nat take_bit_nat_eq_self)

lemma sys_ok_settle [simp]: "sys_ok (settle s) = sys_ok s" "curpid (settle s) = curpid s"
  by (simp_all add: sys_ok_def curpid_def mycpu_def settle_def cpu_ok_def lock_free_def intr_get_def)

lemma bget_tail:
  assumes "sys_ok s" "slocked (sleeplks s (BufSleepLock b)) = 0"
  shows "\<exists>t. sq (upd_buf b f) (sq (release BcacheLock) (sq (acquiresleep (BufSleepLock b)) (ret b))) (enter BcacheLock s) = Ok b t \<and>
    calm (got s b (f (bufs s b))) t"
proof -
  let ?s = "settle (s\<lparr>bufs := (bufs s)(b := f (bufs s b))\<rparr>)"
  have ok: "sys_ok ?s" using assms(1) by simp
  obtain t where t: "acquiresleep (BufSleepLock b) ?s = Ok () t"
    "calm (?s\<lparr>sleeplks := (sleeplks ?s)(BufSleepLock b := (sleeplks ?s (BufSleepLock b))\<lparr>slocked := 1, spid := curpid ?s\<rparr>)\<rparr>) t"
    using acquiresleep_run [OF ok, of "BufSleepLock b"] assms(2) by auto
  have "calm (settle (got s b (f (bufs s b)))) t" using t(2) by (simp add: got_def)
  then have "calm (got s b (f (bufs s b))) t" by (rule calm_trans [OF calm_settle])
  moreover have "lock_free BcacheLock s" "cpu_ok s" using sys_okD [OF assms(1)] by auto
  ultimately show ?thesis using t(1) by (simp add: upd_buf_run release_enter)
qed

text \<open>bget with its searches done on the list of buffers.\<close>

definition bget_choice :: "nat list \<Rightarrow> nat \<Rightarrow> 'z bcache_scheme \<Rightarrow> (nat, 'z bcache_scheme) outcome" where
  "bget_choice L n s =
      (case find (\<lambda>b. holds (bufs s) b n) L of
         Some b \<Rightarrow> sq (upd_buf b (\<lambda>r. r\<lparr>brefcnt := brefcnt r + 1\<rparr>))
           (sq (release BcacheLock) (sq (acquiresleep (BufSleepLock b)) (ret b))) (enter BcacheLock s)
       | None \<Rightarrow> (case find (\<lambda>b. brefcnt (bufs s b) = 0) (rev L) of
           Some b \<Rightarrow> sq (upd_buf b (\<lambda>r. r\<lparr>bdev := ROOTDEV, bblockno := of_nat n, bvalid := False, brefcnt := 1\<rparr>))
             (sq (release BcacheLock) (sq (acquiresleep (BufSleepLock b)) (ret b))) (enter BcacheLock s)
         | None \<Rightarrow> Panic ''bget: no buffers''))"

lemma bget_search:
  assumes "cache H P v s" "n < 2 ^ 32"
  obtains L where "ring (bufs s) L" "set L = {..<NBUF}"
    "bget ROOTDEV (of_nat n) s = bget_choice L n s"
proof -
  obtain L where L: "ring (bufs s) L" "set L = {..<NBUF}" using assms(1) by (auto simp: cache_def)
  have d: "distinct L" "NBUF \<notin> set L" using L(1) by (auto simp: ring_def)
  then have len: "length L = NBUF" using L(2) distinct_card [of L] by simp
  have p: "path (\<lambda>b. bnext (bufs s b)) NBUF L NBUF" "path (\<lambda>b. bprev (bufs s b)) NBUF (rev L) NBUF"
    using L(1) by (auto simp: ring_def)
  have ok: "cpu_ok s" "lock_free BcacheLock s" using sys_okD [OF cacheD(1) [OF assms(1)]] by auto
  have q: "find (\<lambda>b. bdev (bufs s b) = ROOTDEV \<and> bblockno (bufs s b) = of_nat n) L = find (\<lambda>b. holds (bufs s) b n) L"
    using L(2) assms(2) by (intro find_cong) (auto simp: holds_def block_word)
  have "bget ROOTDEV (of_nat n) s = bget_choice L n s"
    using find_cached_run [of "enter BcacheLock s" NBUF L NBUF ROOTDEV "of_nat n"]
      find_unused_run [of "enter BcacheLock s" NBUF "rev L" NBUF] p d len ok
    by (simp add: bget_def bget_choice_def acquire_run q split: option.split)
  with L show ?thesis by (rule that)
qed

lemma bget_run:
  assumes c: "cache H P v s" and n: "H n = None" "n < 2 ^ 32" and room: "n \<in> P \<or> card (P \<union> dom H) < NBUF"
  obtains b r t where "bget ROOTDEV (of_nat n) s = Ok b t" "calm (got s b r) t" "b < NBUF"
    "holds (bufs s) b n \<or> brefcnt (bufs s b) = 0 \<and> (\<forall>c. \<not> holds (bufs s) c n)"
    "bdev r = ROOTDEV" "unat (bblockno r) = n" "unat (brefcnt r) = 1 + of_bool (n \<in> P)"
    "bnext r = bnext (bufs s b)" "bprev r = bprev (bufs s b)" "bvalid r \<longrightarrow> bdata r = v n" "\<not> bvalid r \<longrightarrow> v n = disk s n"
proof -
  note ok = cacheD(1) [OF c] and u = cacheD(2) [OF c]
  obtain L where L: "set L = {..<NBUF}" and g: "bget ROOTDEV (of_nat n) s = bget_choice L n s"
    using bget_search [OF c n(2)] .
  show ?thesis
  proof (cases "\<exists>b. holds (bufs s) b n")
    case True
    then obtain b where b: "holds (bufs s) b n" by blast
    then have bl: "b < NBUF" by (simp add: holds_def)
    have f: "find (\<lambda>b. holds (bufs s) b n) L = Some b"
      using b bl L cacheD(6) [OF c] by (intro find_unique) auto
    have nr: "b \<notin> ran H" using held_buf [OF c n(1) b] .
    have P: "pinned P (bufs s) b \<longleftrightarrow> n \<in> P" by (rule pinned_block [OF b])
    have sl: "slocked (sleeplks s (BufSleepLock b)) = 0" using uses_okD(2) [OF u bl] nr by blast
    have rc: "unat (brefcnt (bufs s b)) = of_bool (n \<in> P)" using uses_okD(1) [OF u bl] nr P by simp
    let ?r = "(bufs s b)\<lparr>brefcnt := brefcnt (bufs s b) + 1\<rparr>"
    obtain t where t: "bget ROOTDEV (of_nat n) s = Ok b t" "calm (got s b ?r) t"
      using bget_tail [OF ok sl, of "\<lambda>r. r\<lparr>brefcnt := brefcnt r + 1\<rparr>"] g f by (auto simp: bget_choice_def)
    have "unat (brefcnt (bufs s b) + 1) = 1 + of_bool (n \<in> P)" using rc by (simp add: unat_plus_if' split: if_splits)
    moreover have "\<not> bvalid (bufs s b) \<Longrightarrow> v n = disk s n"
      using cacheD(3,4,5,6,8) [OF c] b n(1) by blast
    ultimately show ?thesis using b bl cacheD(7) [OF c b] by (intro that [OF t]) (simp_all add: holds_def)
  next
    case False
    then have f: "find (\<lambda>b. holds (bufs s) b n) L = None" by (simp add: find_None_iff)
    have np: "n \<notin> P" using False cacheD(5) [OF c] by blast
    then have "\<exists>b<NBUF. brefcnt (bufs s b) = 0" using used_blocks(2) [OF c] room by force
    then obtain b where b: "find (\<lambda>b. brefcnt (bufs s b) = 0) (rev L) = Some b" "b < NBUF" "brefcnt (bufs s b) = 0"
      using find_ex [of "rev L" "\<lambda>b. brefcnt (bufs s b) = 0"] L by auto
    have "b \<notin> ran H" using uses_okD(1) [OF u b(2)] b(3) by auto
    then have sl: "slocked (sleeplks s (BufSleepLock b)) = 0" using uses_okD(2) [OF u b(2)] by blast
    let ?r = "(bufs s b)\<lparr>bdev := ROOTDEV, bblockno := of_nat n, bvalid := False, brefcnt := 1\<rparr>"
    obtain t where t: "bget ROOTDEV (of_nat n) s = Ok b t" "calm (got s b ?r) t"
      using bget_tail [OF ok sl, of "\<lambda>r. r\<lparr>bdev := ROOTDEV, bblockno := of_nat n, bvalid := False, brefcnt := 1\<rparr>"] g f b(1) by (auto simp: bget_choice_def)
    have "v n = disk s n" using cacheD(8) [OF c, of n] np n(1) by blast
    then show ?thesis using b False np block_word [OF n(2), of "of_nat n"] by (intro that [OF t]) simp_all
  qed
qed

lemma swap_updates [simp]:
  "s\<lparr>sleeplks := a, bufs := f\<rparr> = s\<lparr>bufs := f, sleeplks := a\<rparr>"
  "s\<lparr>disk_writes := w, bufs := f\<rparr> = s\<lparr>bufs := f, disk_writes := w\<rparr>"
  "s\<lparr>disk_writes := w, sleeplks := a\<rparr> = s\<lparr>sleeplks := a, disk_writes := w\<rparr>"
  by (cases s; simp)+

lemma disk_unfold: "disk (s\<lparr>bufs := f\<rparr>) = disk s" "disk (s\<lparr>sleeplks := g\<rparr>) = disk s"
    "disk (s\<lparr>disk_writes := disk_writes s @ [(n, d)]\<rparr>) = (disk s)(n := d)"
  by (simp_all add: disk_def after_writes_def)

lemma only_cache_trans:
  assumes "only_cache s t" "only_cache t u"
  shows "only_cache s u"
proof -
  let ?f = "\<lambda>s :: 'a bcache_scheme. s\<lparr>bufs := bufs u, sleeplks := sleeplks u, disk_writes := disk_writes u\<rparr>"
  have "calm (?f (s\<lparr>bufs := bufs t, sleeplks := sleeplks t, disk_writes := disk_writes t\<rparr>)) (?f t)"
    using assms(1) unfolding only_cache_def by (intro calm_upd_bcache calm_upd_sleeplks)
  then have "calm (?f s) (?f t)" by simp
  moreover have "calm (?f t) u" using assms(2) by (simp add: only_cache_def)
  ultimately show ?thesis unfolding only_cache_def by (rule calm_trans)
qed

lemma only_cache_upd:
  "only_cache s (s\<lparr>bufs := f\<rparr>)" "only_cache s (s\<lparr>sleeplks := g\<rparr>)" "only_cache s (s\<lparr>disk_writes := w\<rparr>)"
  "only_cache s (s\<lparr>bufs := f, sleeplks := g\<rparr>)"
  by (simp_all add: only_cache_def)

lemma bread_law:
  assumes c: "cache H P v s" and n: "H n = None" "n < 2 ^ 32" "n \<in> P \<or> card (P \<union> dom H) < NBUF"
  obtains b t where "bread ROOTDEV (of_nat n) s = Ok b t" "cache (H(n \<mapsto> b)) P v t" "only_cache s t"
    "disk_writes t = disk_writes s"
proof -
  obtain b r t where g: "bget ROOTDEV (of_nat n) s = Ok b t" "calm (got s b r) t" "b < NBUF"
    "holds (bufs s) b n \<or> brefcnt (bufs s b) = 0 \<and> (\<forall>c. \<not> holds (bufs s) c n)"
    "bdev r = ROOTDEV" "unat (bblockno r) = n" "unat (brefcnt r) = 1 + of_bool (n \<in> P)"
    "bnext r = bnext (bufs s b)" "bprev r = bprev (bufs s b)" "bvalid r \<longrightarrow> bdata r = v n" "\<not> bvalid r \<longrightarrow> v n = disk s n"
    by (rule bget_run [OF c n])
  define r' where "r' = r\<lparr>bdata := v n, bvalid := True\<rparr>"
  define t' where "t' = t\<lparr>bufs := (bufs t)(b := r')\<rparr>"
  have bt: "bufs t = (bufs s)(b := r)" "disk t = disk s" using calm_bcache [OF g(2)] by (simp_all add: got_def disk_unfold)
  have r: "bvalid r \<Longrightarrow> r' = r" using g(10) by (cases r) (simp add: r'_def)
  have "calm ((got s b r)\<lparr>bufs := (bufs t)(b := r')\<rparr>) t'" unfolding t'_def by (rule calm_upd_bcache [OF g(2)])
  then have ct: "calm (got s b r') t'" using bt by (simp add: got_def)
  have "bread ROOTDEV (of_nat n) s = Ok b t'"
  proof (cases "bvalid r")
    case True
    then have "t' = t" using bt r by (simp add: t'_def fun_upd_idem)
    with True g(1) bt show ?thesis by (simp add: bread_def)
  next
    case False
    with g(1,6,11) bt show ?thesis by (simp add: bread_def disk_rw_def upd_buf_run t'_def r'_def)
  qed
  moreover have "cache (H(n \<mapsto> b)) P v t'"
    using calm_bcache [OF ct] calm_sleeplks [OF ct] calm_sys_ok [OF ct] calm_curpid [OF ct] g(5-9) cacheD(1) [OF c]
    by (intro cache_take [OF c n(1) g(3,4), where r = r' and l = "(sleeplks s (BufSleepLock b))\<lparr>slocked := 1, spid := curpid s\<rparr>"])
      (simp_all add: got_def r'_def disk_unfold)
  moreover have "only_cache s t'" "disk_writes t' = disk_writes s"
    using only_cache_trans [OF only_cache_upd(4) only_cache_calm [OF ct [unfolded got_def]]] calm_bcache [OF ct]
    by (simp_all add: got_def)
  ultimately show ?thesis by (rule that)
qed

lemma set_data_law:
  assumes c: "cache H P v s" and n: "H n = Some b"
  shows "cache H P (v(n := d)) (s\<lparr>bufs := (bufs s)(b := (bufs s b)\<lparr>bdata := d\<rparr>)\<rparr>)"
proof -
  let ?f = "(bufs s)(b := (bufs s b)\<lparr>bdata := d\<rparr>)"
  have h: "holds ?f x m = holds (bufs s) x m" for x m by (simp add: holds_def)
  have "ring ?f L = ring (bufs s) L" for L by (rule ring_cong) simp_all
  moreover have "uses_ok H P (s\<lparr>bufs := ?f\<rparr>)" using cacheD(2) [OF c] by (simp add: uses_ok_def use_ok_def pinned_def h)
  moreover have "blocks_ok H P (v(n := d)) (s\<lparr>bufs := ?f\<rparr>)"
    unfolding blocks_ok_def
  proof (intro conjI allI impI ballI)
    fix x m assume a: "holds (bufs (s\<lparr>bufs := ?f\<rparr>)) x m" "bvalid (bufs (s\<lparr>bufs := ?f\<rparr>) x)"
    then have hx: "holds (bufs s) x m" by (simp add: h)
    note hb = cacheD(3) [OF c n]
    show "bdata (bufs (s\<lparr>bufs := ?f\<rparr>) x) = (v(n := d)) m"
    proof (cases "x = b")
      case True
      then have "m = n" using hx hb holds_unique by blast
      with True show ?thesis by simp
    next
      case False
      then have "m \<noteq> n" using hx hb cacheD(6) [OF c] by blast
      with False show ?thesis using a(2) cacheD(7) [OF c hx] by simp
    qed
  next
    fix m x y assume "holds (bufs (s\<lparr>bufs := ?f\<rparr>)) x m" "holds (bufs (s\<lparr>bufs := ?f\<rparr>)) y m"
    then show "x = y" using cacheD(6) [OF c] by (simp add: h)
  next
    fix m assume "(v(n := d)) m \<noteq> disk (s\<lparr>bufs := ?f\<rparr>) m"
    then show "m \<in> P \<union> dom H" using cacheD(8) [OF c, of m] n by (auto simp: disk_unfold split: if_splits)
  next
    fix m assume "m \<in> P"
    then obtain x where "holds (bufs s) x m" "bvalid (bufs s x)" using cacheD(5) [OF c] by blast
    then show "\<exists>x. holds (bufs (s\<lparr>bufs := ?f\<rparr>)) x m \<and> bvalid (bufs (s\<lparr>bufs := ?f\<rparr>) x)"
      by (intro exI [of _ x]) (auto simp: h)
  next
    fix m x assume "H m = Some x"
    then show "holds (bufs (s\<lparr>bufs := ?f\<rparr>)) x m" "bvalid (bufs (s\<lparr>bufs := ?f\<rparr>) x)"
      using cacheD(3,4) [OF c] by (auto simp: h)
  qed
  ultimately show ?thesis using c by (simp add: cache_def)
qed

lemma bwrite_law:
  assumes c: "cache H P v s" and n: "H n = Some b"
  obtains t where "bwrite b s = Ok () t" "cache H P v t" "only_cache s t" "disk_writes t = disk_writes s @ [(n, v n)]"
proof -
  have b: "holds (bufs s) b n" "bvalid (bufs s b)" "b < NBUF" "b \<in> ran H"
    using cacheD(3,4) [OF c n] n by (auto simp: holds_def ran_def)
  define t where "t = (settle s)\<lparr>disk_writes := disk_writes s @ [(n, v n)]\<rparr>"
  have "bwrite b s = Ok () t"
    using uses_okD(2,3) [OF cacheD(2) [OF c] b(3)] b cacheD(7) [OF c b(1,2)]
    by (simp add: bwrite_def holdingsleep_run [OF cacheD(1) [OF c]] disk_rw_def t_def holds_def)
  moreover have ct: "calm (s\<lparr>disk_writes := disk_writes s @ [(n, v n)]\<rparr>) t" by (simp add: t_def)
  have "cache H P v (s\<lparr>disk_writes := disk_writes s @ [(n, v n)]\<rparr>)"
    using c n by (auto simp: cache_def uses_ok_def use_ok_def blocks_ok_def disk_unfold)
  then have "cache H P v t" by (rule calm_cache [OF ct])
  moreover have "only_cache s t" "disk_writes t = disk_writes s @ [(n, v n)]"
    using only_cache_trans [OF only_cache_upd(3) only_cache_calm [OF ct]] calm_bcache [OF ct] by simp_all
  ultimately show ?thesis by (rule that)
qed

text \<open>Operations that change who uses the buffers and leave their blocks alone.\<close>

lemma holds_cong:
  assumes "\<And>x. bdev (g x) = bdev (f x)" "\<And>x. bblockno (g x) = bblockno (f x)"
  shows "holds g = holds f"
  using assms by (simp add: holds_def fun_eq_iff)

lemma cache_reuse:
  assumes c: "cache H P v s" and same: "\<And>x. bdev (bufs t x) = bdev (bufs s x)" "\<And>x. bblockno (bufs t x) = bblockno (bufs s x)"
      "\<And>x. bvalid (bufs t x) = bvalid (bufs s x)" "\<And>x. bdata (bufs t x) = bdata (bufs s x)"
    and t: "\<exists>L. ring (bufs t) L \<and> set L = {..<NBUF}" "sys_ok t" "uses_ok H' P' t" "disk t = disk s"
    and sub: "H' \<subseteq>\<^sub>m H" "P' \<subseteq> P \<union> dom H" "\<And>n. v n \<noteq> disk s n \<Longrightarrow> n \<in> P' \<union> dom H'"
  shows "cache H' P' v t"
proof -
  note h = holds_cong [OF same(1,2)]
  have "blocks_ok H' P' v t"
    unfolding blocks_ok_def h
  proof (intro conjI allI impI ballI)
    fix n b assume "H' n = Some b"
    then have "H n = Some b" using sub(1) by (force simp: map_le_def)
    then show "holds (bufs s) b n" "bvalid (bufs t b)" using cacheD(3,4) [OF c] same by auto
  next
    fix n assume "n \<in> P'"
    then have "\<exists>b. holds (bufs s) b n \<and> bvalid (bufs s b)" using sub(2) cacheD(3,4,5) [OF c] by blast
    then show "\<exists>b. holds (bufs s) b n \<and> bvalid (bufs t b)" using same(3) by simp
  next
    fix n assume "v n \<noteq> disk t n"
    then show "n \<in> P' \<union> dom H'" using sub(3) t(4) by simp
  qed (use cacheD(6,7) [OF c] same in auto)
  with t show ?thesis by (simp add: cache_def)
qed

lemma bpin_law:
  assumes c: "cache H P v s" and n: "H n = Some b" "n \<notin> P"
  obtains t where "bpin b s = Ok () t" "cache H (insert n P) v t" "only_cache s t" "disk_writes t = disk_writes s"
proof -
  have b: "holds (bufs s) b n" "b < NBUF" "b \<in> ran H" using cacheD(3) [OF c n(1)] n by (auto simp: holds_def ran_def)
  let ?f = "(bufs s)(b := (bufs s b)\<lparr>brefcnt := brefcnt (bufs s b) + 1\<rparr>)"
  define t where "t = settle (s\<lparr>bufs := ?f\<rparr>)"
  have h: "holds ?f = holds (bufs s)" by (rule holds_cong) simp_all
  have Pb: "\<not> pinned P (bufs s) b" using pinned_block [OF b(1)] n(2) by simp
  have rc: "unat (brefcnt (bufs s b) + 1) = 2"
    using uses_okD(1) [OF cacheD(2) [OF c] b(2)] b(3) Pb by (simp add: unat_plus_if' split: if_splits)
  have "uses_ok H (insert n P) t"
  proof (rule uses_okI [OF cacheD(2) [OF c], of t b])
    show "use_ok (b \<in> ran H) (pinned (insert n P) (bufs t) b) t b"
      using uses_okD [OF cacheD(2) [OF c] b(2)] b rc by (simp add: use_ok_def t_def h pinned_def)
  qed (use b(1) cacheD(6) [OF c] in \<open>auto simp: t_def pinned_def h\<close>)
  moreover have "ring ?f L = ring (bufs s) L" for L by (rule ring_cong) simp_all
  then have "\<exists>L. ring (bufs t) L \<and> set L = {..<NBUF}" using c by (auto simp: cache_def t_def)
  ultimately have "cache H (insert n P) v t"
    using n cacheD(1,8) [OF c] by (intro cache_reuse [OF c]) (auto simp: t_def disk_unfold)
  moreover have "bpin b s = Ok () t"
    using sys_okD [OF cacheD(1) [OF c]] by (simp add: bpin_def acquire_run upd_buf_run release_enter t_def)
  moreover have "only_cache s t"
    unfolding t_def by (rule only_cache_trans [OF only_cache_upd(1) only_cache_calm [OF calm_settle]])
  ultimately show ?thesis by (intro that [of t]) (simp_all add: t_def)
qed

lemma bunpin_law:
  assumes c: "cache H P v s" and n: "H n = Some b" "n \<in> P"
  obtains t where "bunpin b s = Ok () t" "cache H (P - {n}) v t" "only_cache s t" "disk_writes t = disk_writes s"
proof -
  have b: "holds (bufs s) b n" "b < NBUF" "b \<in> ran H" using cacheD(3) [OF c n(1)] n by (auto simp: holds_def ran_def)
  let ?f = "(bufs s)(b := (bufs s b)\<lparr>brefcnt := brefcnt (bufs s b) - 1\<rparr>)"
  define t where "t = settle (s\<lparr>bufs := ?f\<rparr>)"
  have h: "holds ?f = holds (bufs s)" by (rule holds_cong) simp_all
  have Pb: "pinned P (bufs s) b" using pinned_block [OF b(1)] n(2) by simp
  have "unat (brefcnt (bufs s b)) = 2" using uses_okD(1) [OF cacheD(2) [OF c] b(2)] b(3) Pb by simp
  then have rc: "unat (brefcnt (bufs s b) - 1) = 1" by (simp add: unat_sub_if' split: if_splits)
  have np: "\<not> pinned (P - {n}) ?f b" using pinned_block [of ?f b n] b(1) by (simp add: h)
  have "uses_ok H (P - {n}) t"
  proof (rule uses_okI [OF cacheD(2) [OF c], of t b])
    show "use_ok (b \<in> ran H) (pinned (P - {n}) (bufs t) b) t b"
      using uses_okD(2,3) [OF cacheD(2) [OF c] b(2)] b rc np by (simp add: use_ok_def t_def)
  qed (use b(1) cacheD(6) [OF c] in \<open>auto simp: t_def pinned_def h\<close>)
  moreover have "ring ?f L = ring (bufs s) L" for L by (rule ring_cong) simp_all
  then have "\<exists>L. ring (bufs t) L \<and> set L = {..<NBUF}" using c by (auto simp: cache_def t_def)
  ultimately have "cache H (P - {n}) v t"
    using n cacheD(1,8) [OF c] by (intro cache_reuse [OF c]) (auto simp: t_def disk_unfold)
  moreover have "bunpin b s = Ok () t"
    using sys_okD [OF cacheD(1) [OF c]] by (simp add: bunpin_def acquire_run upd_buf_run release_enter t_def)
  moreover have "only_cache s t"
    unfolding t_def by (rule only_cache_trans [OF only_cache_upd(1) only_cache_calm [OF calm_settle]])
  ultimately show ?thesis by (intro that [of t]) (simp_all add: t_def)
qed

lemma ran_remove:
  assumes "H n = Some b" "\<And>m. H m = Some b \<Longrightarrow> m = n"
  shows "ran (H(n := None)) = ran H - {b}"
proof (intro set_eqI iffI)
  fix x assume "x \<in> ran (H(n := None))"
  then obtain m where m: "m \<noteq> n" "H m = Some x" by (auto simp: ran_def split: if_splits)
  then have "x \<noteq> b" using assms(2) by blast
  with m show "x \<in> ran H - {b}" by (auto intro: ranI)
next
  fix x assume "x \<in> ran H - {b}"
  then obtain m where m: "H m = Some x" "x \<noteq> b" by (auto simp: ran_def)
  then have "(H(n := None)) m = Some x" using assms(1) by auto
  then show "x \<in> ran (H(n := None))" by (rule ranI)
qed

text \<open>The end of brelse, with the lock of the cache taken.\<close>

lemma brelse_tail:
  assumes ok: "sys_ok s" and r: "ring (bufs s) L" "set L = {..<NBUF}" and b: "b < NBUF"
    and g: "g = (bufs s)(b := (bufs s b)\<lparr>brefcnt := brefcnt (bufs s b) - 1\<rparr>)"
  obtains nx pv L' where "ring (relink g nx pv) L'" "set L' = {..<NBUF}"
    "brefcnt (bufs s b) - 1 = 0 \<longrightarrow> nx NBUF = b"
    "sq (acquire BcacheLock) (sq (upd_buf b (\<lambda>r. r\<lparr>brefcnt := brefcnt r - 1\<rparr>))
       (bind (gets (\<lambda>s. brefcnt (bufs s b))) (\<lambda>n.
        sq (if n = 0 then sq (unlink b) (link_front b) else ret ()) (release BcacheLock)))) s =
     Ok () (settle (s\<lparr>bufs := relink g nx pv\<rparr>))"
proof -
  note lk = sys_okD [OF ok]
  have rg: "ring g L" unfolding g using r(1) by (subst ring_cong [of _ "bufs s"]) simp_all
  show ?thesis
  proof (cases "brefcnt (bufs s b) - 1 = 0")
    case True
    obtain A B where L: "L = A @ b # B" using b r(2) split_list [of b L] by auto
    let ?s = "enter BcacheLock (s\<lparr>bufs := g\<rparr>)"
    have "ring (bufs ?s) (A @ b # B)" using rg L by simp
    then obtain nx pv where f: "sq (unlink b) (link_front b) ?s = Ok () (?s\<lparr>bufs := relink (bufs ?s) nx pv\<rparr>)"
      "ring (relink (bufs ?s) nx pv) (b # A @ B)" by (rule to_front)
    show ?thesis
    proof (rule that)
      show "ring (relink g nx pv) (b # A @ B)" using f(2) by simp
      show "set (b # A @ B) = {..<NBUF}" using L r(2) by auto
      show "brefcnt (bufs s b) - 1 = 0 \<longrightarrow> nx NBUF = b" using f(2) by (simp add: ring_def)
      show "sq (acquire BcacheLock) (sq (upd_buf b (\<lambda>r. r\<lparr>brefcnt := brefcnt r - 1\<rparr>))
         (bind (gets (\<lambda>s. brefcnt (bufs s b))) (\<lambda>n.
          sq (if n = 0 then sq (unlink b) (link_front b) else ret ()) (release BcacheLock)))) s =
        Ok () (settle (s\<lparr>bufs := relink g nx pv\<rparr>))"
        using True lk f(1) by (simp add: acquire_run upd_buf_run release_enter g)
    qed
  next
    case False
    have e: "relink g (\<lambda>x. bnext (g x)) (\<lambda>x. bprev (g x)) = g" by (simp add: relink_def fun_eq_iff)
    show ?thesis
    proof (rule that)
      show "ring (relink g (\<lambda>x. bnext (g x)) (\<lambda>x. bprev (g x))) L" using rg by (simp only: e)
      show "set L = {..<NBUF}" by fact
      show "brefcnt (bufs s b) - 1 = 0 \<longrightarrow> bnext (g NBUF) = b" using False by simp
      show "sq (acquire BcacheLock) (sq (upd_buf b (\<lambda>r. r\<lparr>brefcnt := brefcnt r - 1\<rparr>))
         (bind (gets (\<lambda>s. brefcnt (bufs s b))) (\<lambda>n.
          sq (if n = 0 then sq (unlink b) (link_front b) else ret ()) (release BcacheLock)))) s =
        Ok () (settle (s\<lparr>bufs := relink g (\<lambda>x. bnext (g x)) (\<lambda>x. bprev (g x))\<rparr>))"
        unfolding e using False lk by (simp add: acquire_run upd_buf_run release_enter g)
    qed
  qed
qed

lemma brelse_law:
  assumes c: "cache H P v s" and n: "H n = Some b" "n \<in> P \<or> v n = disk s n"
  obtains t where "brelse b s = Ok () t" "cache (H(n := None)) P v t" "only_cache s t" "disk_writes t = disk_writes s"
    "n \<notin> P \<longrightarrow> bnext (bufs t NBUF) = b"
proof -
  have b: "holds (bufs s) b n" "b < NBUF" "b \<in> ran H" using cacheD(3) [OF c n(1)] n by (auto simp: holds_def ran_def)
  note u = uses_okD [OF cacheD(2) [OF c] b(2)]
  let ?l = "(sleeplks s)(BufSleepLock b := (sleeplks s (BufSleepLock b))\<lparr>slocked := 0, spid := 0\<rparr>)"
  have ok: "sys_ok (settle s)" using cacheD(1) [OF c] by simp
  obtain t1 where t1: "releasesleep (BufSleepLock b) (settle s) = Ok () t1"
    "calm (settle (s\<lparr>sleeplks := ?l\<rparr>)) t1" using releasesleep_run [OF ok, of "BufSleepLock b"] by auto
  note c1 = calm_trans [OF calm_settle t1(2)]
  have bt: "bufs t1 = bufs s" "sleeplks t1 = ?l" "disk_writes t1 = disk_writes s" "disk t1 = disk s" "curpid t1 = curpid s"
    using calm_bcache [OF c1] calm_sleeplks [OF c1] calm_curpid [OF c1] by (simp_all add: disk_unfold)
  have ok1: "sys_ok t1" using calm_sys_ok [OF c1] cacheD(1) [OF c] by simp
  obtain L where L: "ring (bufs t1) L" "set L = {..<NBUF}" using c bt by (auto simp: cache_def)
  define g where "g = (bufs t1)(b := (bufs t1 b)\<lparr>brefcnt := brefcnt (bufs t1 b) - 1\<rparr>)"
  obtain nx pv L' where f: "ring (relink g nx pv) L'" "set L' = {..<NBUF}" "brefcnt (bufs t1 b) - 1 = 0 \<longrightarrow> nx NBUF = b"
    "sq (acquire BcacheLock) (sq (upd_buf b (\<lambda>r. r\<lparr>brefcnt := brefcnt r - 1\<rparr>))
       (bind (gets (\<lambda>s. brefcnt (bufs s b))) (\<lambda>n.
        sq (if n = 0 then sq (unlink b) (link_front b) else ret ()) (release BcacheLock)))) t1 =
     Ok () (settle (t1\<lparr>bufs := relink g nx pv\<rparr>))"
    by (rule brelse_tail [OF ok1 L b(2) g_def])
  define t where "t = settle (t1\<lparr>bufs := relink g nx pv\<rparr>)"
  have h: "holds (relink g nx pv) = holds (bufs s)" by (rule holds_cong) (simp_all add: g_def bt)
  have rc: "unat (brefcnt (bufs s b) - 1) = of_bool (pinned P (bufs s) b)"
    using u(1) b(3) by (simp add: unat_sub_if' split: if_splits)
  have ran: "ran (H(n := None)) = ran H - {b}" using cache_inj [OF c _ n(1)] n(1) by (intro ran_remove)
  have pin: "pinned P (relink g nx pv) = pinned P (bufs s)" by (simp add: pinned_def h fun_eq_iff)
  have gr: "brefcnt (g x) = (if x = b then brefcnt (bufs s b) - 1 else brefcnt (bufs s x))" for x by (simp add: g_def bt)
  have "uses_ok (H(n := None)) P t"
  proof (rule uses_okI [OF cacheD(2) [OF c], of t b])
    show "use_ok (b \<in> ran (H(n := None))) (pinned P (bufs t) b) t b"
      using rc unfolding ran by (simp add: use_ok_def t_def pin bt gr)
  qed (simp_all add: t_def pin gr bt ran)
  then have "cache (H(n := None)) P v t"
    using f(1,2) ok1 n cacheD(8) [OF c]
    by (intro cache_reuse [OF c]) (auto simp: t_def disk_unfold g_def bt map_le_def)
  moreover have "brelse b s = Ok () t"
    using t1(1) f(4) u(2,3) b(3)
    by (simp add: brelse_def holdingsleep_run [OF cacheD(1) [OF c]] t_def)
  moreover have "only_cache s t"
    unfolding t_def
    by (rule only_cache_trans [OF only_cache_upd(2) only_cache_trans [OF only_cache_calm [OF c1]
          only_cache_trans [OF only_cache_upd(1) only_cache_calm [OF calm_settle]]]])
  moreover have "n \<notin> P \<longrightarrow> bnext (bufs t NBUF) = b"
    using f(3) rc pinned_block [OF b(1), of P] unat_eq_0 [of "brefcnt (bufs s b) - 1"] by (auto simp: t_def bt)
  ultimately show ?thesis by (intro that [of t]) (simp_all add: t_def bt)
qed

end
