(* ===== verification/Blockcache.thy ===== *)
theory Blockcache
  imports Cache
begin

text \<open>
  The contract of the buffer cache as a locale, its interpretation on the routines of
  \<^verbatim>\<open>kernel/bio.c\<close>, and the properties of the cache. Clients copy blocks between the
  log and their home locations; inside the locale these copies are treated once, from the
  laws alone.
\<close>

section \<open>The contract\<close>

lemma held_none:
  "[x \<mapsto> a](x := None) = Map.empty" "[x \<mapsto> a, y \<mapsto> b](y := None) = [x \<mapsto> a](y := None)"
  "x \<noteq> y \<Longrightarrow> [x \<mapsto> a](y := None) = [x \<mapsto> a]" "x \<noteq> y \<Longrightarrow> [x \<mapsto> a, y \<mapsto> b](x := None) = [y \<mapsto> b]"
  by auto

text \<open>
  \<open>rel H P v s\<close>: in \<open>s\<close> the blocks \<open>dom H\<close> are held in the buffers \<open>H n\<close>, the
  blocks \<open>P\<close> are pinned, and the contents seen are \<open>v\<close>. \<open>same s t\<close> says that nothing
  outside the cache differs. There are \<open>slots\<close> buffers.
\<close>

locale block_cache =
  fixes rel :: "(nat \<rightharpoonup> nat) \<Rightarrow> nat set \<Rightarrow> blocks \<Rightarrow> 's \<Rightarrow> bool"
    and same :: "'s \<Rightarrow> 's \<Rightarrow> bool"
    and writes :: "'s \<Rightarrow> (nat \<times> u8 list) list"
    and dsk :: "'s \<Rightarrow> blocks"
    and rd :: "nat \<Rightarrow> ('s, nat) routine"
    and contents :: "nat \<Rightarrow> 's \<Rightarrow> u8 list"
    and fill :: "nat \<Rightarrow> u8 list \<Rightarrow> ('s, unit) routine"
    and wr rl unpin :: "nat \<Rightarrow> ('s, unit) routine"
    and slots :: nat
  assumes same_trans: "same s t \<Longrightarrow> same t u \<Longrightarrow> same s u"
    and rd_ok: "rel H P v s \<Longrightarrow> H n = None \<Longrightarrow> n < 2 ^ 32 \<Longrightarrow> n \<in> P \<or> card (P \<union> dom H) < slots \<Longrightarrow>
      \<exists>b t. rd n s = Ok b t \<and> rel (H(n \<mapsto> b)) P v t \<and> same s t \<and> writes t = writes s \<and> dsk t = dsk s"
    and look: "rel H P v s \<Longrightarrow> H n = Some b \<Longrightarrow> contents b s = v n"
    and modified: "rel H P v s \<Longrightarrow> H n = Some b \<Longrightarrow>
      \<exists>t. fill b d s = Ok () t \<and> rel H P (v(n := d)) t \<and> same s t \<and> writes t = writes s \<and> dsk t = dsk s"
    and wr_ok: "rel H P v s \<Longrightarrow> H n = Some b \<Longrightarrow>
      \<exists>t. wr b s = Ok () t \<and> rel H P v t \<and> same s t \<and> writes t = writes s @ [(n, v n)] \<and> dsk t = (dsk s)(n := v n)"
    and rl_ok: "rel H P v s \<Longrightarrow> H n = Some b \<Longrightarrow> n \<in> P \<or> v n = dsk s n \<Longrightarrow>
      \<exists>t. rl b s = Ok () t \<and> rel (H(n := None)) P v t \<and> same s t \<and> writes t = writes s \<and> dsk t = dsk s"
    and unpinned: "rel H P v s \<Longrightarrow> H n = Some b \<Longrightarrow> n \<in> P \<Longrightarrow>
      \<exists>t. unpin b s = Ok () t \<and> rel H (P - {n}) v t \<and> same s t \<and> writes t = writes s \<and> dsk t = dsk s"
    and clean: "rel H P v s \<Longrightarrow> n \<notin> P \<Longrightarrow> H n = None \<Longrightarrow> v n = dsk s n"
begin

text \<open>Two buffers, the second copied to the first, as in write_log.\<close>

lemma copy_first:
  assumes "rel Map.empty P v s" "x \<noteq> y" "x < 2 ^ 32" "y < 2 ^ 32" "x \<notin> P" "y \<in> P" "card P < slots"
  shows "\<exists>t. bind (rd x) (\<lambda>bx. bind (rd y) (\<lambda>by. sq (bind (gets (contents by)) (fill bx))
      (sq (wr bx) (sq (rl by) (rl bx))))) s = Ok () t \<and>
    rel Map.empty P (v(x := v y)) t \<and> same s t \<and> writes t = writes s @ [(x, v y)] \<and> dsk t = (dsk s)(x := v y)"
proof -
  obtain bx t1 where 1: "rd x s = Ok bx t1" "rel [x \<mapsto> bx] P v t1" "same s t1" "writes t1 = writes s" "dsk t1 = dsk s"
    using rd_ok [OF assms(1), of x] assms by auto
  obtain by' t2 where 2: "rd y t1 = Ok by' t2" "rel [x \<mapsto> bx, y \<mapsto> by'] P v t2" "same t1 t2" "writes t2 = writes t1" "dsk t2 = dsk t1"
    using rd_ok [OF 1(2), of y] assms by auto
  have c: "contents by' t2 = v y" using look [OF 2(2), of y by'] by simp
  obtain t3 where 3: "fill bx (v y) t2 = Ok () t3" "rel [x \<mapsto> bx, y \<mapsto> by'] P (v(x := v y)) t3" "same t2 t3"
    "writes t3 = writes t2" "dsk t3 = dsk t2" using modified [OF 2(2), of x bx "v y"] assms(2) by auto
  obtain t4 where 4: "wr bx t3 = Ok () t4" "rel [x \<mapsto> bx, y \<mapsto> by'] P (v(x := v y)) t4" "same t3 t4"
    "writes t4 = writes t3 @ [(x, v y)]" "dsk t4 = (dsk t3)(x := v y)" using wr_ok [OF 3(2), of x bx] assms(2) by auto
  obtain t5 where 5: "rl by' t4 = Ok () t5" "rel [x \<mapsto> bx] P (v(x := v y)) t5" "same t4 t5"
    "writes t5 = writes t4" "dsk t5 = dsk t4" using rl_ok [OF 4(2), of y by'] assms(2,6) by (auto simp: held_none)
  obtain t6 where 6: "rl bx t5 = Ok () t6" "rel Map.empty P (v(x := v y)) t6" "same t5 t6"
    "writes t6 = writes t5" "dsk t6 = dsk t5" using rl_ok [OF 5(2), of x bx] 4(5) 5(5) by (auto simp: held_none)
  have "same s t6" using 1(3) 2(3) 3(3) 4(3) 5(3) 6(3) same_trans by meson
  then show ?thesis using 1 2 3 4 5 6 c by simp
qed

text \<open>The first copied to the second, as in install_trans; \<open>pin\<close> tells whether the home block is pinned.\<close>

lemma copy_second:
  assumes "rel Map.empty P v s" "x \<noteq> y" "x < 2 ^ 32" "y < 2 ^ 32" "x \<notin> P" "pin \<longleftrightarrow> y \<in> P"
    "card P + of_bool (\<not> pin) < slots"
  shows "\<exists>t. bind (rd x) (\<lambda>bx. bind (rd y) (\<lambda>by. sq (bind (gets (contents bx)) (fill by))
      (sq (wr by) (sq (if pin then unpin by else ret ()) (sq (rl bx) (rl by)))))) s = Ok () t \<and>
    rel Map.empty (P - {y}) (v(y := v x)) t \<and> same s t \<and> writes t = writes s @ [(y, v x)] \<and> dsk t = (dsk s)(y := v x)"
proof -
  have vx: "v x = dsk s x" using clean [OF assms(1,5)] by simp
  obtain bx t1 where 1: "rd x s = Ok bx t1" "rel [x \<mapsto> bx] P v t1" "same s t1" "writes t1 = writes s" "dsk t1 = dsk s"
    using rd_ok [OF assms(1), of x] assms by auto
  have "y \<in> P \<or> card (P \<union> dom [x \<mapsto> bx]) < slots"
    using assms(6,7) card_insert_le_m1 by (cases "finite P") (auto simp: card_insert_if split: if_splits)
  then obtain by' t2 where 2: "rd y t1 = Ok by' t2" "rel [x \<mapsto> bx, y \<mapsto> by'] P v t2" "same t1 t2" "writes t2 = writes t1" "dsk t2 = dsk t1"
    using rd_ok [OF 1(2), of y] assms by auto
  have c: "contents bx t2 = v x" using look [OF 2(2), of x bx] assms(2) by simp
  obtain t3 where 3: "fill by' (v x) t2 = Ok () t3" "rel [x \<mapsto> bx, y \<mapsto> by'] P (v(y := v x)) t3" "same t2 t3"
    "writes t3 = writes t2" "dsk t3 = dsk t2" using modified [OF 2(2), of y by' "v x"] by auto
  obtain t4 where 4: "wr by' t3 = Ok () t4" "rel [x \<mapsto> bx, y \<mapsto> by'] P (v(y := v x)) t4" "same t3 t4"
    "writes t4 = writes t3 @ [(y, v x)]" "dsk t4 = (dsk t3)(y := v x)" using wr_ok [OF 3(2), of y by'] by auto
  obtain t4' where 7: "(if pin then unpin by' else ret ()) t4 = Ok () t4'" "rel [x \<mapsto> bx, y \<mapsto> by'] (P - {y}) (v(y := v x)) t4'"
    "same t3 t4'" "writes t4' = writes t4" "dsk t4' = dsk t4"
    using unpinned [OF 4(2), of y by'] assms(6) 4(2,3) same_trans by (cases pin) auto
  obtain t5 where 5: "rl bx t4' = Ok () t5" "rel [y \<mapsto> by'] (P - {y}) (v(y := v x)) t5" "same t4' t5"
    "writes t5 = writes t4'" "dsk t5 = dsk t4'"
    using rl_ok [OF 7(2), of x bx] assms(2) vx 1(5) 2(5) 3(5) 4(5) 7(5) by (auto simp: held_none)
  obtain t6 where 6: "rl by' t5 = Ok () t6" "rel Map.empty (P - {y}) (v(y := v x)) t6" "same t5 t6"
    "writes t6 = writes t5" "dsk t6 = dsk t5" using rl_ok [OF 5(2), of y by'] 4(5) 7(5) 5(5) by (auto simp: held_none)
  have "same s t6" using 1(3) 2(3) 3(3) 7(3) 5(3) 6(3) same_trans by meson
  then show ?thesis using 1 2 3 4 7 5 6 c by simp
qed

text \<open>One block changed in place and written, as in write_head.\<close>

lemma rewrite:
  assumes "rel Map.empty P v s" "x < 2 ^ 32" "x \<in> P \<or> card P < slots"
  shows "\<exists>t. bind (rd x) (\<lambda>bx. sq (bind (gets (contents bx)) (\<lambda>d. fill bx (f d))) (sq (wr bx) (rl bx))) s = Ok () t \<and>
    rel Map.empty P (v(x := f (v x))) t \<and> same s t \<and> writes t = writes s @ [(x, f (v x))] \<and> dsk t = (dsk s)(x := f (v x))"
proof -
  obtain bx t1 where 1: "rd x s = Ok bx t1" "rel [x \<mapsto> bx] P v t1" "same s t1" "writes t1 = writes s" "dsk t1 = dsk s"
    using rd_ok [OF assms(1), of x] assms by auto
  have c: "contents bx t1 = v x" using look [OF 1(2), of x bx] by simp
  obtain t2 where 2: "fill bx (f (v x)) t1 = Ok () t2" "rel [x \<mapsto> bx] P (v(x := f (v x))) t2" "same t1 t2"
    "writes t2 = writes t1" "dsk t2 = dsk t1" using modified [OF 1(2), of x bx "f (v x)"] by auto
  obtain t3 where 3: "wr bx t2 = Ok () t3" "rel [x \<mapsto> bx] P (v(x := f (v x))) t3" "same t2 t3"
    "writes t3 = writes t2 @ [(x, f (v x))]" "dsk t3 = (dsk t2)(x := f (v x))" using wr_ok [OF 2(2), of x bx] by auto
  obtain t4 where 4: "rl bx t3 = Ok () t4" "rel Map.empty P (v(x := f (v x))) t4" "same t3 t4"
    "writes t4 = writes t3" "dsk t4 = dsk t3" using rl_ok [OF 3(2), of x bx] 3(5) by (auto simp: held_none)
  have "same s t4" using 1(3) 2(3) 3(3) 4(3) same_trans by meson
  then show ?thesis using 1 2 3 4 c by simp
qed

end

section \<open>The cache of the kernel keeps the contract\<close>

lemma only_cache_disk: "only_cache s t \<Longrightarrow> disk_init t = disk_init s"
  unfolding only_cache_def by (drule calm_bcache(2)) simp

lemma same_writes: "only_cache s t \<Longrightarrow> disk_writes t = disk_writes s \<Longrightarrow> disk t = disk s"
  by (simp add: disk_def only_cache_disk)

definition put_data :: "nat \<Rightarrow> u8 list \<Rightarrow> ('z bcache_scheme, unit) routine" where
  "put_data b d = upd_buf b (\<lambda>r. r\<lparr>bdata := d\<rparr>)"

interpretation bc: block_cache cache only_cache disk_writes disk "\<lambda>n. bread ROOTDEV (of_nat n)"
  "\<lambda>b s. bdata (bufs s b)" put_data bwrite brelse bunpin NBUF
proof
  show "only_cache s t \<Longrightarrow> only_cache t u \<Longrightarrow> only_cache s u" for s t u :: "'a bcache_scheme" by (rule only_cache_trans)
next
  fix H P v and s :: "'a bcache_scheme" and n
  assume "cache H P v s" "H n = None" "n < 2 ^ 32" "n \<in> P \<or> card (P \<union> dom H) < NBUF"
  then show "\<exists>b t. bread ROOTDEV (of_nat n) s = Ok b t \<and> cache (H(n \<mapsto> b)) P v t \<and> only_cache s t \<and>
      disk_writes t = disk_writes s \<and> disk t = disk s" by (metis bread_law same_writes)
next
  fix H P v and s :: "'a bcache_scheme" and n b
  assume c: "cache H P v s" and n: "H n = Some b"
  then show "bdata (bufs s b) = v n" using cacheD(3,4,7) by metis
  show "\<exists>t. put_data b d s = Ok () t \<and> cache H P (v(n := d)) t \<and> only_cache s t \<and>
      disk_writes t = disk_writes s \<and> disk t = disk s" for d
    using set_data_law [OF c n] only_cache_upd(1) [of s] by (simp add: put_data_def upd_buf_run disk_unfold)
  obtain t where t: "bwrite b s = Ok () t" "cache H P v t" "only_cache s t" "disk_writes t = disk_writes s @ [(n, v n)]"
    using bwrite_law [OF c n] .
  then have "disk t = (disk s)(n := v n)" by (simp add: disk_def only_cache_disk after_writes_def)
  with t show "\<exists>t. bwrite b s = Ok () t \<and> cache H P v t \<and> only_cache s t \<and>
      disk_writes t = disk_writes s @ [(n, v n)] \<and> disk t = (disk s)(n := v n)" by blast
  show "\<exists>t. brelse b s = Ok () t \<and> cache (H(n := None)) P v t \<and> only_cache s t \<and>
      disk_writes t = disk_writes s \<and> disk t = disk s" if "n \<in> P \<or> v n = disk s n"
    using brelse_law [OF c n that] same_writes by (metis (no_types, lifting))
  show "\<exists>t. bunpin b s = Ok () t \<and> cache H (P - {n}) v t \<and> only_cache s t \<and>
      disk_writes t = disk_writes s \<and> disk t = disk s" if "n \<in> P"
    using bunpin_law [OF c n that] same_writes by metis
next
  fix H P v and s :: "'a bcache_scheme" and n
  assume "cache H P v s" "n \<notin> P" "H n = None"
  then show "v n = disk s n" using cacheD(8) by blast
qed

section \<open>Initialisation\<close>

lemma initsleeplock_run [run_simps]:
  "initsleeplock lk n s = Ok () (s\<lparr>locks := (locks s)(lk := (locks s lk)\<lparr>name := ''sleep lock'', locked := 0, holder := None\<rparr>),
     sleeplks := (sleeplks s)(lk := (sleeplks s lk)\<lparr>sname := n, slocked := 0, spid := 0\<rparr>)\<rparr>)"
  by (simp add: initsleeplock_def initlock_def upd_lock_def upd_sleeplk_def)

text \<open>The state after the first \<open>k\<close> turns of the loop of binit.\<close>

definition init_inv :: "'z bcache_scheme \<Rightarrow> nat \<Rightarrow> 'z bcache_scheme \<Rightarrow> bool" where
  "init_inv s k t \<longleftrightarrow> ring (bufs t) (rev [0..<k]) \<and> (\<forall>j<k. slocked (sleeplks t (BufSleepLock j)) = 0) \<and>
     (\<forall>x. bdev (bufs t x) = bdev (bufs s x) \<and> brefcnt (bufs t x) = brefcnt (bufs s x)) \<and>
     disk t = disk s \<and> (sys_ok s \<longrightarrow> sys_ok t)"

lemma sys_ok_locks:
  "sys_ok s \<Longrightarrow> locked l = 0 \<Longrightarrow> holder l = None \<Longrightarrow> sys_ok (s\<lparr>locks := (locks s)(lk := l)\<rparr>)"
  by (auto simp: sys_ok_def cpu_ok_def mycpu_def intr_get_def lock_free_def)

lemma init_step:
  assumes i: "init_inv s k t" and k: "k < NBUF"
  shows "\<exists>u. binit_one k t = Ok () u \<and> init_inv s (Suc k) u"
proof -
  let ?n = "\<lambda>b. bnext (bufs t b)" and ?p = "\<lambda>b. bprev (bufs t b)"
  have r: "ring (bufs t) (rev [0..<k])" using i by (simp add: init_inv_def)
  then have pn: "path ?n NBUF (rev [0..<k]) NBUF" "path ?p NBUF (rev (rev [0..<k])) NBUF" "distinct (NBUF # rev [0..<k])"
    by (simp_all add: ring_def)
  have "?n NBUF \<in> set (rev [0..<k] @ [NBUF])" using path_head [OF pn(1)] hd_in_set [of "rev [0..<k] @ [NBUF]"] by simp
  then have f: "?n NBUF \<noteq> k" using k by auto
  let ?g = "relink (bufs t) (?n(k := ?n NBUF, NBUF := k)) (?p(k := NBUF, ?n NBUF := k))"
  have "ring ?g (k # rev [0..<k])" using k by (intro ring_push [OF pn(3,1,2)]) auto
  moreover have "binit_one k t =
      Ok () (t\<lparr>locks := (locks t)(BufSleepLock k := (locks t (BufSleepLock k))\<lparr>name := ''sleep lock'', locked := 0, holder := None\<rparr>),
        bufs := ?g, sleeplks := (sleeplks t)(BufSleepLock k := (sleeplks t (BufSleepLock k))\<lparr>sname := ''buffer'', slocked := 0, spid := 0\<rparr>)\<rparr>)"
    using k f by (auto simp: binit_one_def upd_buf_run initsleeplock_run relink_def fun_eq_iff intro!: bcache.equality)
  ultimately show ?thesis
    using i by (auto simp: init_inv_def disk_def sys_ok_locks less_Suc_eq)
qed

lemma binit_law:
  assumes "\<And>b. b < NBUF \<Longrightarrow> brefcnt (bufs s b) = 0 \<and> bdev (bufs s b) \<noteq> ROOTDEV" "sys_ok s"
  shows "\<exists>t. binit s = Ok () t \<and> cache Map.empty {} (disk s) t"
proof -
  let ?s = "s\<lparr>locks := (locks s)(BcacheLock := (locks s BcacheLock)\<lparr>name := ''bcache'', locked := 0, holder := None\<rparr>),
    bufs := (bufs s)(NBUF := (bufs s NBUF)\<lparr>bprev := NBUF, bnext := NBUF\<rparr>)\<rparr>"
  have "init_inv s 0 ?s" using assms(2) by (auto simp: init_inv_def ring_def disk_def sys_ok_locks)
  then have "\<exists>t. for_each [0..<NBUF] binit_one ?s = Ok () t \<and> init_inv s NBUF t"
    by (rule for_each_upt) (rule init_step, simp_all)
  then obtain t where t: "binit s = Ok () t" "init_inv s NBUF t"
    by (auto simp: binit_def initlock_def upd_lock_def upd_buf_run)
  have d: "bdev (bufs t b) = bdev (bufs s b)" "brefcnt (bufs t b) = brefcnt (bufs s b)" for b using t(2) by (simp_all add: init_inv_def)
  have h: "\<not> holds (bufs t) b n" for b n using assms(1) [of b] by (auto simp: holds_def d)
  have "uses_ok Map.empty {} t" using assms(1) t(2) by (auto simp: uses_ok_def use_ok_def pinned_def d init_inv_def)
  moreover have "blocks_ok Map.empty {} (disk s) t" using t(2) by (simp add: blocks_ok_def h init_inv_def)
  moreover have "\<exists>L. ring (bufs t) L \<and> set L = {..<NBUF}"
    using t(2) by (intro exI [of _ "rev [0..<NBUF]"]) (auto simp: init_inv_def)
  ultimately show ?thesis using t assms(2) by (auto simp: cache_def init_inv_def)
qed

text \<open>A machine that runs its first process, with all buffers unused.\<close>

definition ptable0 :: ptable where
  "ptable0 = kmem.extend (machine.extend (machine0\<lparr>cpus := \<lambda>_. \<lparr>proc = Some 0, noff = 0, intena = False\<rparr>\<rparr>)
     \<lparr>freelist = 0, pgref = (\<lambda>_. 0), kernel_end = KERNBASE\<rparr>)
     \<lparr>procs = (\<lambda>_. user_proc 0), nextpid = 2, initproc = Some 0, ticks = 0, trampoline = KERNBASE, forkret_addr = KERNBASE\<rparr>"

definition buf0 :: buf where
  "buf0 = \<lparr>bvalid = False, bdisk = False, bdev = 0, bblockno = 0, brefcnt = 0, bprev = 0, bnext = 0, bdata = []\<rparr>"

definition bcache0 :: "blocks \<Rightarrow> bcache" where
  "bcache0 d = sleepers.extend (ptable.extend ptable0 \<lparr>sleeplks = (\<lambda>_. \<lparr>slocked = 0, sname = [], spid = 0\<rparr>)\<rparr>)
     \<lparr>bufs = (\<lambda>_. buf0), disk_init = d, disk_writes = []\<rparr>"

lemma bcache0_simps [simp]:
  "bufs (bcache0 d) = (\<lambda>_. buf0)" "disk (bcache0 d) = d" "sys_ok (bcache0 d)"
  by (simp_all add: bcache0_def sleepers.defs ptable.defs kmem.defs machine.defs ptable0_def machine0_def disk_def
      after_writes_def sys_ok_def cpu_ok_def mycpu_def lock_free_def)

lemma some_cache:
  obtains s :: bcache where "cache Map.empty {} d s"
proof -
  obtain t where "binit (bcache0 d) = Ok () t" "cache Map.empty {} d t"
    using binit_law [of "bcache0 d"] by (auto simp: buf0_def ROOTDEV_def)
  then show thesis using that by blast
qed

text \<open>As many blocks in use as there are buffers: no buffer is left.\<close>

lemma all_used:
  assumes c: "cache H P v s" and card: "card (P \<union> dom H) = NBUF" and b: "b < NBUF"
  shows "brefcnt (bufs s b) \<noteq> 0" "\<exists>m\<in>P \<union> dom H. holds (bufs s) b m"
proof -
  define g where "g m = (SOME b. holds (bufs s) b m)" for m
  have g: "holds (bufs s) (g m) m" if "m \<in> P \<union> dom H" for m
    unfolding g_def using cacheD(3,5) [OF c] that by (intro someI_ex [of "\<lambda>b. holds (bufs s) b m"]) blast
  have "inj_on g (P \<union> dom H)" using g holds_unique by (metis inj_onI)
  then have "card (g ` (P \<union> dom H)) = NBUF" using card by (simp add: card_image)
  moreover have "g ` (P \<union> dom H) \<subseteq> {..<NBUF}" using g by (auto simp: holds_def)
  ultimately have "g ` (P \<union> dom H) = {..<NBUF}" by (intro card_subset_eq) simp_all
  then have "b \<in> g ` (P \<union> dom H)" using b by simp
  then obtain m where m: "m \<in> P \<union> dom H" "b = g m" by blast
  then show "\<exists>m\<in>P \<union> dom H. holds (bufs s) b m" using g by blast
  have "pinned P (bufs s) b \<or> b \<in> ran H"
  proof (cases "m \<in> P")
    case True
    with m g [OF m(1)] show ?thesis by (auto simp: pinned_def)
  next
    case False
    then obtain x where x: "H m = Some x" using m(1) by auto
    then have "x = b" using m(2) g [OF m(1)] cacheD(3,6) [OF c] by blast
    with x show ?thesis by (auto intro: ranI)
  qed
  then show "brefcnt (bufs s b) \<noteq> 0" using uses_okD(1) [OF cacheD(2) [OF c] b] by auto
qed

section \<open>Properties\<close>



text \<open>
  C29. bread gives a locked buffer with the current contents of the block, from the cache or
  from the disk. It neither writes the disk nor changes what is seen of any block, and the
  cache stays well-formed, whatever other blocks are held or pinned.
\<close>

theorem bread_returns_block:
  assumes "cache H P v s" "n \<notin> dom H" "n < 2 ^ 32" "n \<in> P \<or> card (P \<union> dom H) < NBUF"
  shows "\<exists>b t. bread ROOTDEV (of_nat n) s = Ok b t \<and> bdata (bufs t b) = v n \<and>
    slocked (sleeplks t (BufSleepLock b)) \<noteq> 0 \<and> cache (H(n \<mapsto> b)) P v t \<and> disk t = disk s \<and> only_cache s t"
proof -
  obtain b t where t: "bread ROOTDEV (of_nat n) s = Ok b t" "cache (H(n \<mapsto> b)) P v t" "only_cache s t" "disk t = disk s"
    using bc.rd_ok [OF assms(1) _ assms(3,4)] assms(2) by blast
  have "bdata (bufs t b) = v n" using bc.look [OF t(2), of n b] by simp
  moreover have "b < NBUF" using cacheD(3) [OF t(2), of n b] by (simp add: holds_def)
  then have "slocked (sleeplks t (BufSleepLock b)) \<noteq> 0" using uses_okD(2) [OF cacheD(2) [OF t(2)]] by (auto intro: ranI)
  ultimately show ?thesis using t by blast
qed

theorem bread_returns_block_witness:
  "\<exists>(s :: bcache) b t. cache Map.empty {} (\<lambda>_. [7]) s \<and> bread ROOTDEV 3 s = Ok b t \<and> bdata (bufs t b) = [7] \<and>
    cache [3 \<mapsto> b] {} (\<lambda>_. [7]) t"
proof -
  obtain s :: bcache where s: "cache Map.empty {} (\<lambda>_. [7]) s" by (rule some_cache)
  then show ?thesis using bread_returns_block [OF s, of 3] by (auto simp: NBUF_eq)
qed

text \<open>
  C30. brelse puts the buffer back: the block is no longer held, it is seen as before, and the
  buffer is unlocked and, when nobody uses it any more, the most recently used one. The hypothesis
  says that the block is pinned or its buffer agrees with the disk, which is what keeps the
  cache coherent when the buffer is recycled.
\<close>

theorem brelse_gives_back:
  assumes "cache H P v s" "H n = Some b" "n \<in> P \<or> v n = disk s n"
  shows "\<exists>t. brelse b s = Ok () t \<and> cache (H(n := None)) P v t \<and> slocked (sleeplks t (BufSleepLock b)) = 0 \<and>
    (n \<notin> P \<longrightarrow> bnext (bufs t NBUF) = b)"
proof -
  obtain t where t: "brelse b s = Ok () t" "cache (H(n := None)) P v t" "n \<notin> P \<longrightarrow> bnext (bufs t NBUF) = b"
    by (rule brelse_law [OF assms]) blast
  have "b < NBUF" using cacheD(3) [OF assms(1,2)] by (simp add: holds_def)
  moreover have "ran (H(n := None)) = ran H - {b}" using cache_inj [OF assms(1) _ assms(2)] assms(2) by (intro ran_remove)
  ultimately have "slocked (sleeplks t (BufSleepLock b)) = 0" using uses_okD(2) [OF cacheD(2) [OF t(2)]] by auto
  with t show ?thesis by blast
qed

theorem brelse_gives_back_witness:
  "\<exists>(s :: bcache) b t. cache [3 \<mapsto> b] {} (\<lambda>_. [7]) s \<and> brelse b s = Ok () t \<and> cache Map.empty {} (\<lambda>_. [7]) t \<and>
    bnext (bufs t NBUF) = b"
proof -
  obtain s :: bcache where s: "cache Map.empty {} (\<lambda>_. [7]) s" by (rule some_cache)
  obtain b and t :: bcache where t: "cache [3 \<mapsto> b] {} (\<lambda>_. [7]) t" "disk t = disk s"
    using bc.rd_ok [OF s, of 3] by (auto simp: NBUF_eq)
  have "disk s 3 = [7]" using bc.clean [OF s, of 3] by simp
  then show ?thesis using brelse_gives_back [OF t(1), of 3 b] t by (auto simp: held_none)
qed

text \<open>
  C32. When every buffer is held or pinned, bread of a block that is not cached panics: the
  NBUF buffers bound the blocks that an operation and the log together may keep.
\<close>

theorem bread_no_buffers:
  assumes "cache H P v s" "n < 2 ^ 32" "n \<notin> P \<union> dom H" "card (P \<union> dom H) = NBUF"
  shows "bread ROOTDEV (of_nat n) s = Panic ''bget: no buffers''"
proof -
  note u = all_used [OF assms(1,4)]
  have nh: "\<not> holds (bufs s) b n" for b
  proof
    assume h: "holds (bufs s) b n"
    then obtain m where "m \<in> P \<union> dom H" "holds (bufs s) b m" using u(2) [of b] by (auto simp: holds_def)
    with h assms(3) show False using holds_unique by blast
  qed
  obtain L where L: "set L = {..<NBUF}" "bget ROOTDEV (of_nat n) s = bget_choice L n s"
    using bget_search [OF assms(1,2)] .
  have "find (\<lambda>b. holds (bufs s) b n) L = None" using nh by (simp add: find_None_iff)
  moreover have "find (\<lambda>b. brefcnt (bufs s b) = 0) (rev L) = None" using u(1) L(1) by (auto simp: find_None_iff)
  ultimately have "bget ROOTDEV (of_nat n) s = Panic ''bget: no buffers''" using L(2) by (simp add: bget_choice_def)
  then show ?thesis by (simp add: bread_def)
qed

theorem bread_no_buffers_witness:
  "\<exists>s :: bcache. bread ROOTDEV 40 s = Panic ''bget: no buffers''"
proof -
  have "\<exists>(s :: bcache) H. cache H {} (\<lambda>_. [7]) s \<and> dom H = {..<k}" if "k \<le> NBUF" for k
    using that
  proof (induction k)
    case 0
    obtain s :: bcache where "cache Map.empty {} (\<lambda>_. [7]) s" by (rule some_cache)
    then show ?case by (metis dom_empty lessThan_0)
  next
    case (Suc k)
    then obtain s :: bcache and H where s: "cache H {} (\<lambda>_. [7]) s" "dom H = {..<k}" by auto
    then have "H k = None" by auto
    then obtain b and t :: bcache where "cache (H(k \<mapsto> b)) {} (\<lambda>_. [7]) t"
      using bc.rd_ok [OF s(1), of k] s(2) Suc.prems by (auto simp: NBUF_eq)
    moreover have "dom (H(k \<mapsto> b)) = {..<Suc k}" using s(2) by auto
    ultimately show ?case by blast
  qed
  then obtain s :: bcache and H where s: "cache H {} (\<lambda>_. [7]) s" "dom H = {..<NBUF}" by blast
  then show ?thesis using bread_no_buffers [OF s(1), of 40] by (auto simp: NBUF_eq)
qed

end
