(* ===== verification/Recovery.thy ===== *)
theory Recovery
  imports Encode Blockcache
begin

text \<open>
  Commit and recovery of the log of \<^verbatim>\<open>kernel/log.c\<close>. The routines are run on the contract
  of the buffer cache; what they write to the disk, block by block and in order, is then a pure
  sequence, and a crash is a prefix of it. \<open>bs\<close> is the list of the block numbers of a
  transaction, \<open>start\<close> the block of the log header.
\<close>

section \<open>Fields outside the cache\<close>

lemma only_cache_log:
  assumes "only_cache s t"
  shows "log_start t = log_start s" "log_size t = log_size s" "log_outstanding t = log_outstanding s"
    "log_committing t = log_committing s" "log_dev t = log_dev s" "log_lh t = log_lh s"
  using calm_logsys [OF assms [unfolded only_cache_def]] by simp_all

lemma cache_logsys [simp]:
  "cache H P v (s\<lparr>log_lh := h\<rparr>) = cache H P v s" "cache H P v (s\<lparr>log_outstanding := n\<rparr>) = cache H P v s"
  "cache H P v (s\<lparr>log_committing := c\<rparr>) = cache H P v s" "cache H P v (s\<lparr>log_start := i\<rparr>) = cache H P v s"
  "cache H P v (s\<lparr>log_size := j\<rparr>) = cache H P v s" "cache H P v (s\<lparr>log_dev := d\<rparr>) = cache H P v s"
  by (simp_all add: cache_def uses_ok_def use_ok_def blocks_ok_def disk_def sys_ok_def cpu_ok_def mycpu_def intr_get_def
      lock_free_def curpid_def)

lemma cache_settle [simp]: "cache H P v (settle s) = cache H P v s"
  by (simp add: cache_def uses_ok_def use_ok_def blocks_ok_def disk_def)

definition log_at :: "nat \<Rightarrow> 'z logsys_scheme \<Rightarrow> bool" where
  "log_at start s \<longleftrightarrow> log_dev s = ROOTDEV \<and> log_start s = int start"

definition lists_blocks :: "logheader \<Rightarrow> nat list \<Rightarrow> bool" where
  "lists_blocks h bs \<longleftrightarrow> lh_n h = int (length bs) \<and> (\<forall>i<length bs. unat (lh_block h i) = bs ! i)"

text \<open>The blocks of a transaction and the blocks of the log that hold it do not overlap.\<close>

definition apart :: "nat \<Rightarrow> nat list \<Rightarrow> bool" where
  "apart start bs \<longleftrightarrow> set bs \<inter> {start..start + length bs} = {} \<and> start + length bs < 2 ^ 31"

lemma apartD:
  assumes "apart start bs"
  shows "n \<in> set bs \<Longrightarrow> n < start \<or> start + length bs < n" "k < length bs \<Longrightarrow> start + 1 + k \<notin> set bs"
    "start \<notin> set bs" "k < length bs \<Longrightarrow> start + 1 + k < 2 ^ 32" "start < 2 ^ 32"
  using assms by (fastforce simp: apart_def disjoint_iff)+

lemma log_block_word: "(of_int (int start + int i + 1) :: u32) = of_nat (start + 1 + i)"
  by (simp add: algebra_simps)

lemma listed_word:
  assumes "lists_blocks h bs" "i < length bs"
  shows "lh_block h i = of_nat (bs ! i)" "bs ! i < 2 ^ 32"
proof -
  have e: "bs ! i = unat (lh_block h i)" using assms by (simp add: lists_blocks_def)
  show "lh_block h i = of_nat (bs ! i)" unfolding e by simp
  show "bs ! i < 2 ^ 32" unfolding e using unsigned_less [of "lh_block h i"] by simp
qed

lemma gets_self: "bind (gets (\<lambda>s. s)) f t = f t t"
  by simp

lemma copy_data_put: "copy_data x y = bind (gets (\<lambda>s. bdata (bufs s y))) (put_data x)"
  by (simp add: copy_data_def put_data_def [abs_def])

lemma upd_data_put:
  "upd_buf b (\<lambda>r. r\<lparr>bdata := f (bdata r)\<rparr>) = bind (gets (\<lambda>s. bdata (bufs s b))) (\<lambda>d. put_data b (f d))"
  by (rule ext) (simp add: put_data_def upd_buf_run)

section \<open>Copying the transaction to the log\<close>

text \<open>What is seen when the first \<open>k\<close> blocks have been copied.\<close>

definition logged :: "nat \<Rightarrow> nat list \<Rightarrow> blocks \<Rightarrow> nat \<Rightarrow> blocks" where
  "logged start bs v k = (\<lambda>n. if start < n \<and> n \<le> start + k then v (bs ! (n - start - 1)) else v n)"

lemma logged_Suc:
  "(logged start bs v k)(start + 1 + k := v (bs ! k)) = logged start bs v (Suc k)"
  by (auto simp: logged_def fun_eq_iff)

lemma logged_0: "logged start bs v 0 = v"
  by (auto simp: logged_def fun_eq_iff)

lemma logged_other: "n < start + 1 \<or> start + k < n \<Longrightarrow> logged start bs v k n = v n"
  by (auto simp: logged_def)

definition log_writes :: "nat \<Rightarrow> nat list \<Rightarrow> blocks \<Rightarrow> nat \<Rightarrow> (nat \<times> u8 list) list" where
  "log_writes start bs v k = map (\<lambda>i. (start + 1 + i, v (bs ! i))) [0..<k]"

lemma write_log_run:
  assumes c: "cache Map.empty (set bs) v s" and l: "log_at start s" "lists_blocks (log_lh s) bs" "apart start bs"
    and d: "distinct bs" "length bs < NBUF"
  shows "\<exists>t. write_log s = Ok () t \<and> cache Map.empty (set bs) (logged start bs v (length bs)) t \<and> only_cache s t \<and>
    disk_writes t = disk_writes s @ log_writes start bs v (length bs)"
proof -
  let ?I = "\<lambda>k t. cache Map.empty (set bs) (logged start bs v k) t \<and> only_cache s t \<and>
    disk_writes t = disk_writes s @ log_writes start bs v k"
  let ?f = "\<lambda>tail. bind (gets (\<lambda>s. s)) (\<lambda>s.
       bind (bread (log_dev s) (of_int (log_start s + int tail + 1))) (\<lambda>to.
       bind (bread (log_dev s) (lh_block (log_lh s) tail)) (\<lambda>from.
       sq (copy_data to from) (sq (bwrite to) (sq (brelse from) (brelse to))))))"
  have "?I 0 s" using c by (simp add: logged_0 log_writes_def only_cache_calm)
  then have "\<exists>t. for_each [0..<length bs] ?f s = Ok () t \<and> ?I (length bs) t"
  proof (rule for_each_upt [where I = ?I])
    fix k t assume k: "k < length bs" and I: "?I k t"
    have lt: "log_dev t = ROOTDEV" "log_start t = int start" "log_lh t = log_lh s"
      using only_cache_log [of s t] I l(1) by (simp_all add: log_at_def)
    have b: "bs ! k \<in> set bs" "bs ! k < start \<or> start + length bs < bs ! k"
      using k apartD(1) [OF l(3)] nth_mem by auto
    have x: "start + 1 + k \<notin> set bs" "start + 1 + k \<noteq> bs ! k" "start + 1 + k < 2 ^ 32" 
      using k apartD(2,4) [OF l(3) k] b by auto
    have v: "logged start bs v k (bs ! k) = v (bs ! k)" using b(2) k by (intro logged_other) auto
    obtain u where u: "bind (bread ROOTDEV (of_nat (start + 1 + k))) (\<lambda>to. bind (bread ROOTDEV (of_nat (bs ! k))) (\<lambda>from.
        sq (bind (gets (\<lambda>s. bdata (bufs s from))) (put_data to)) (sq (bwrite to) (sq (brelse from) (brelse to))))) t = Ok () u"
      "cache Map.empty (set bs) (logged start bs v (Suc k)) u" "only_cache t u"
      "disk_writes u = disk_writes t @ [(start + 1 + k, v (bs ! k))]"
      using bc.copy_first [of "set bs" "logged start bs v k" t "start + 1 + k" "bs ! k"] I x b(1)
        listed_word(2) [OF l(2) k] distinct_card [OF d(1)] d(2) unfolding v logged_Suc by auto
    have "?I (Suc k) u" using u I only_cache_trans by (auto simp: log_writes_def)
    moreover have "?f k t = Ok () u"
      unfolding gets_self lt log_block_word listed_word(1) [OF l(2) k] copy_data_put by (rule u(1))
    ultimately show "\<exists>u. ?f k t = Ok () u \<and> ?I (Suc k) u" by blast
  qed simp
  then show ?thesis using l(2) by (simp add: write_log_def lists_blocks_def)
qed

section \<open>Installing the transaction\<close>

text \<open>What is seen when the first \<open>k\<close> blocks of the log have been copied to their places.\<close>

primrec installed :: "nat \<Rightarrow> nat list \<Rightarrow> blocks \<Rightarrow> nat \<Rightarrow> blocks" where
  "installed start bs v 0 = v"
| "installed start bs v (Suc k) = (installed start bs v k)(bs ! k := installed start bs v k (start + 1 + k))"

lemma installed_other: "n \<notin> set bs \<Longrightarrow> k \<le> length bs \<Longrightarrow> installed start bs v k n = v n"
  by (induction k) (auto simp: set_conv_nth)

lemma installed_log: "apart start bs \<Longrightarrow> k \<le> length bs \<Longrightarrow> i < length bs \<Longrightarrow> installed start bs v k (start + 1 + i) = v (start + 1 + i)"
  using apartD(2) by (intro installed_other)

lemma installed_home:
  assumes "apart start bs" "distinct bs" "k \<le> length bs" "i < k"
  shows "installed start bs v k (bs ! i) = v (start + 1 + i)"
  using assms(3,4)
proof (induction k)
  case (Suc k)
  show ?case
  proof (cases "i = k")
    case True then show ?thesis using installed_log [OF assms(1), of k k v] Suc.prems by simp
  next
    case False
    then have "bs ! i \<noteq> bs ! k" using assms(2) Suc.prems by (simp add: nth_eq_iff_index_eq)
    then show ?thesis using Suc False by simp
  qed
qed simp

lemma installed_same:
  assumes "apart start bs" "k \<le> length bs" "\<And>i. i < length bs \<Longrightarrow> v (start + 1 + i) = v (bs ! i)"
  shows "installed start bs v k = v"
  using assms(2) by (induction k) (use assms(3) in auto)

definition home_writes :: "nat \<Rightarrow> nat list \<Rightarrow> blocks \<Rightarrow> nat \<Rightarrow> (nat \<times> u8 list) list" where
  "home_writes start bs v k = map (\<lambda>i. (bs ! i, v (start + 1 + i))) [0..<k]"

lemma drop_pinned:
  assumes "distinct bs" "k < length bs"
  shows "bs ! k \<in> set (drop k bs)" "set (drop k bs) - {bs ! k} = set (drop (Suc k) bs)"
proof -
  have e: "drop k bs = bs ! k # drop (Suc k) bs" using assms(2) by (rule Cons_nth_drop_Suc [symmetric])
  have "distinct (bs ! k # drop (Suc k) bs)" using distinct_drop [OF assms(1), of k] unfolding e .
  then show "set (drop k bs) - {bs ! k} = set (drop (Suc k) bs)" unfolding e by auto
  show "bs ! k \<in> set (drop k bs)" unfolding e by simp
qed

lemma install_trans_run:
  assumes c: "cache Map.empty (if r then {} else set bs) v s"
    and l: "log_at start s" "lists_blocks (log_lh s) bs" "apart start bs"
    and d: "distinct bs" "length bs < NBUF"
  shows "\<exists>t. install_trans r s = Ok () t \<and> cache Map.empty {} (installed start bs v (length bs)) t \<and> only_cache s t \<and>
    disk_writes t = disk_writes s @ home_writes start bs v (length bs)"
proof -
  define P where "P k = (if r then {} else set (drop k bs))" for k
  let ?I = "\<lambda>k t. cache Map.empty (P k) (installed start bs v k) t \<and> only_cache s t \<and>
    disk_writes t = disk_writes s @ home_writes start bs v k"
  let ?f = "\<lambda>tail. bind (gets (\<lambda>s. s)) (\<lambda>s.
       bind (bread (log_dev s) (of_int (log_start s + int tail + 1))) (\<lambda>lbuf.
       bind (bread (log_dev s) (lh_block (log_lh s) tail)) (\<lambda>dbuf.
       sq (copy_data dbuf lbuf) (sq (bwrite dbuf) (sq (if \<not> r then bunpin dbuf else ret ())
       (sq (brelse lbuf) (brelse dbuf)))))))"
  have "?I 0 s" using c by (cases r) (simp_all add: home_writes_def only_cache_calm P_def)
  then have "\<exists>t. for_each [0..<length bs] ?f s = Ok () t \<and> ?I (length bs) t"
  proof (rule for_each_upt [where I = ?I])
    fix k t assume k: "k < length bs" and I: "?I k t"
    have lt: "log_dev t = ROOTDEV" "log_start t = int start" "log_lh t = log_lh s"
      using only_cache_log [of s t] I l(1) by (simp_all add: log_at_def)
    have x: "start + 1 + k \<notin> P k" "start + 1 + k \<noteq> bs ! k" "start + 1 + k < 2 ^ 32"
      using k apartD(2,4) [OF l(3) k] nth_mem [OF k] set_drop_subset [of k bs] unfolding P_def by auto
    have p: "\<not> r \<longleftrightarrow> bs ! k \<in> P k" "P k - {bs ! k} = P (Suc k)"
      using drop_pinned [OF d(1) k] by (simp_all add: P_def)
    have "card (P k) \<le> length bs - k" using card_length [of "drop k bs"] by (simp add: P_def)
    then have n: "card (P k) + of_bool (\<not> \<not> r) < NBUF" using d(2) by (auto simp: P_def NBUF_def MAXOPBLOCKS_def)
    note v = installed_log [OF l(3) less_imp_le [OF k] k, of v]
    obtain u where u: "bind (bread ROOTDEV (of_nat (start + 1 + k))) (\<lambda>lbuf. bind (bread ROOTDEV (of_nat (bs ! k))) (\<lambda>dbuf.
        sq (bind (gets (\<lambda>s. bdata (bufs s lbuf))) (put_data dbuf)) (sq (bwrite dbuf) (sq (if \<not> r then bunpin dbuf else ret ())
        (sq (brelse lbuf) (brelse dbuf)))))) t = Ok () u"
      "cache Map.empty (P (Suc k)) (installed start bs v (Suc k)) u" "only_cache t u"
      "disk_writes u = disk_writes t @ [(bs ! k, v (start + 1 + k))]"
      using bc.copy_second [OF conjunct1 [OF I] x(2,3) listed_word(2) [OF l(2) k] x(1) p(1) n]
      unfolding v p(2) installed.simps(2) by auto
    have "?I (Suc k) u" using u I only_cache_trans by (auto simp: home_writes_def)
    moreover have "?f k t = Ok () u"
      unfolding gets_self lt log_block_word listed_word(1) [OF l(2) k] copy_data_put by (rule u(1))
    ultimately show "\<exists>u. ?f k t = Ok () u \<and> ?I (Suc k) u" by blast
  qed simp
  moreover have "P (length bs) = {}" by (simp add: P_def cong: if_cong)
  ultimately show ?thesis using l(2) by (simp add: install_trans_def lists_blocks_def)
qed

section \<open>The header\<close>

lemma write_head_run:
  assumes "cache Map.empty P v s" "log_at start s" "start < 2 ^ 32" "card P < NBUF"
  shows "\<exists>t. write_head s = Ok () t \<and> cache Map.empty P (v(start := put_head (log_lh s) (v start))) t \<and> only_cache s t \<and>
    disk_writes t = disk_writes s @ [(start, put_head (log_lh s) (v start))]"
proof -
  have "write_head s = bind (bread ROOTDEV (of_nat start)) (\<lambda>b.
      sq (bind (gets (\<lambda>s. bdata (bufs s b))) (\<lambda>d. put_data b (put_head (log_lh s) d))) (sq (bwrite b) (brelse b))) s"
    using assms(2) by (simp add: write_head_def gets_self log_at_def upd_data_put)
  then show ?thesis using bc.rewrite [OF assms(1,3), of "put_head (log_lh s)"] assms(4) by auto
qed

text \<open>The header that read_head takes from a block.\<close>

definition head_of :: "logheader \<Rightarrow> u8 list \<Rightarrow> logheader" where
  "head_of h d = h\<lparr>lh_n := head_n d, lh_block := (\<lambda>i. if i < nat (head_n d) then head_block d i else lh_block h i)\<rparr>"

text \<open>Nothing differs outside the cache and the header in memory.\<close>

definition only_log :: "'z logsys_scheme \<Rightarrow> 'z logsys_scheme \<Rightarrow> bool" where
  "only_log s t \<longleftrightarrow> only_cache (s\<lparr>log_lh := log_lh t\<rparr>) t"

lemma swap_lh:
  "s\<lparr>bufs := a, sleeplks := b, disk_writes := w, log_lh := h\<rparr> = s\<lparr>log_lh := h, bufs := a, sleeplks := b, disk_writes := w\<rparr>"
  by (rule logsys.equality) simp_all

lemma only_cache_upd_lh: "only_cache s t \<Longrightarrow> only_cache (s\<lparr>log_lh := h\<rparr>) (t\<lparr>log_lh := h\<rparr>)"
  unfolding only_cache_def by (drule calm_upd_logsys(1) [where h = h]) (simp add: swap_lh)

lemma only_log_trans:
  assumes "only_log s t" "only_log t u"
  shows "only_log s u"
  using only_cache_trans [OF only_cache_upd_lh [OF assms(1) [unfolded only_log_def], of "log_lh u"]
      assms(2) [unfolded only_log_def]] by (simp add: only_log_def)

lemma only_cache_only_log: "only_cache s t \<Longrightarrow> only_log s t"
  using only_cache_upd_lh [of s t "log_lh t"] by (simp add: only_log_def)

lemma only_log_upd: "only_log s (s\<lparr>log_lh := h\<rparr>)"
  by (simp add: only_log_def only_cache_calm)

lemma only_log_step: "only_cache s t \<Longrightarrow> only_log t u \<Longrightarrow> only_log s u"
  by (rule only_log_trans [OF only_cache_only_log])

lemma only_log_set: "only_cache (s\<lparr>log_lh := h\<rparr>) t \<Longrightarrow> only_log s t"
  by (rule only_log_trans [OF only_log_upd only_cache_only_log])

lemma only_log_at: "only_log s t \<Longrightarrow> log_at start t = log_at start s"
  using only_cache_log [of "s\<lparr>log_lh := log_lh t\<rparr>" t] by (simp add: only_log_def log_at_def)

lemma only_log_disk: "only_log s t \<Longrightarrow> disk_init t = disk_init s"
  using only_cache_disk [of "s\<lparr>log_lh := log_lh t\<rparr>" t] by (simp add: only_log_def)

lemma upd_lh_run [run_simps]: "upd_lh f s = Ok () (s\<lparr>log_lh := f (log_lh s)\<rparr>)"
  by (simp add: upd_lh_def)

lemma fill_blocks:
  "for_each [0..<n] (\<lambda>i. upd_lh (\<lambda>h. h\<lparr>lh_block := (lh_block h)(i := f i)\<rparr>)) s =
   Ok () (s\<lparr>log_lh := (log_lh s)\<lparr>lh_block := \<lambda>i. if i < n then f i else lh_block (log_lh s) i\<rparr>\<rparr>)"
proof -
  let ?s = "\<lambda>n. s\<lparr>log_lh := (log_lh s)\<lparr>lh_block := \<lambda>i. if i < n then f i else lh_block (log_lh s) i\<rparr>\<rparr>"
  have "\<exists>t. for_each [0..<n] (\<lambda>i. upd_lh (\<lambda>h. h\<lparr>lh_block := (lh_block h)(i := f i)\<rparr>)) s = Ok () t \<and> t = ?s n"
    by (rule for_each_upt) (auto simp: upd_lh_def less_Suc_eq fun_eq_iff intro!: logsys.equality logheader.equality)
  then show ?thesis by simp
qed

lemma read_head_run:
  assumes "cache Map.empty {} v s" "log_at start s" "start < 2 ^ 32"
  shows "\<exists>t. read_head s = Ok () t \<and> cache Map.empty {} v t \<and> log_lh t = head_of (log_lh s) (v start) \<and> only_log s t \<and>
    disk_writes t = disk_writes s"
proof -
  obtain b t where 1: "bread ROOTDEV (of_nat start) s = Ok b t" "cache [start \<mapsto> b] {} v t" "only_cache s t" "disk_writes t = disk_writes s"
    "disk t = disk s"
    using bc.rd_ok [OF assms(1), of start] assms(3) by (auto simp: NBUF_def MAXOPBLOCKS_def)
  have d: "bdata (bufs t b) = v start" using bc.look [OF 1(2), of start b] by simp
  define t' where "t' = t\<lparr>log_lh := head_of (log_lh s) (v start)\<rparr>"
  have 2: "cache [start \<mapsto> b] {} v t'" "disk t' = disk s" using 1 by (simp_all add: t'_def disk_def)
  have "v start = disk t' start" using bc.clean [OF assms(1)] 2 by simp
  then obtain u where 3: "brelse b t' = Ok () u" "cache Map.empty {} v u" "only_cache t' u" "disk_writes u = disk_writes t'"
    using bc.rl_ok [OF 2(1), of start b] by auto
  have "only_log s u"
    using 3(3) unfolding t'_def by (rule only_log_step [OF 1(3) only_log_set])
  moreover have "read_head s = Ok () u"
    using 1(1) d 3(1) assms(2) only_cache_log(6) [OF 1(3)]
    by (simp add: read_head_def gets_self log_at_def upd_lh_run fill_blocks t'_def head_of_def cong: if_cong)
  ultimately show ?thesis using 3 only_cache_log(6) [OF 3(3)] 1(4) by (simp add: t'_def)
qed

section \<open>Commit\<close>

definition no_blocks :: "logheader \<Rightarrow> logheader" where
  "no_blocks h = h\<lparr>lh_n := 0\<rparr>"

text \<open>The blocks that commit writes, in order.\<close>

definition commit_writes :: "nat \<Rightarrow> nat list \<Rightarrow> blocks \<Rightarrow> logheader \<Rightarrow> (nat \<times> u8 list) list" where
  "commit_writes start bs v h =
     log_writes start bs v (length bs) @ [(start, put_head h (v start))] @
     map (\<lambda>i. (bs ! i, v (bs ! i))) [0..<length bs] @ [(start, put_head (no_blocks h) (put_head h (v start)))]"

definition committed :: "nat \<Rightarrow> nat list \<Rightarrow> blocks \<Rightarrow> logheader \<Rightarrow> blocks" where
  "committed start bs v h = (logged start bs v (length bs))(start := put_head (no_blocks h) (put_head h (v start)))"

lemma commit_run:
  assumes c: "cache Map.empty (set bs) v s" and l: "log_at start s" "lists_blocks (log_lh s) bs" "apart start bs"
    and d: "distinct bs" "length bs < NBUF" "bs \<noteq> []"
  shows "\<exists>t. commit s = Ok () t \<and> cache Map.empty {} (committed start bs v (log_lh s)) t \<and>
    only_log s t \<and> log_lh t = no_blocks (log_lh s) \<and> disk_writes t = disk_writes s @ commit_writes start bs v (log_lh s)"
proof -
  let ?h = "log_lh s" and ?v1 = "logged start bs v (length bs)"
  let ?v2 = "?v1(start := put_head ?h (v start))"
  have s: "start < 2 ^ 32" "start \<notin> set bs" "?v1 start = v start" using apartD [OF l(3)] by (simp_all add: logged_def)
  have n: "card (set bs) < NBUF" using distinct_card [OF d(1)] d(2) by simp
  have v: "?v2 (start + 1 + i) = v (bs ! i)" "?v2 (bs ! i) = v (bs ! i)" if "i < length bs" for i
    using that apartD(1) [OF l(3) nth_mem [OF that]] s(2) nth_mem [OF that] by (auto simp: logged_def)
  obtain t1 where 1: "write_log s = Ok () t1" "cache Map.empty (set bs) ?v1 t1" "only_cache s t1"
    "disk_writes t1 = disk_writes s @ log_writes start bs v (length bs)" using write_log_run [OF c l d(1,2)] by blast
  have l1: "log_lh t1 = ?h" "log_at start t1" using only_cache_log [OF 1(3)] l(1) by (simp_all add: log_at_def)
  obtain t2 where 2: "write_head t1 = Ok () t2" "cache Map.empty (set bs) ?v2 t2" "only_cache t1 t2"
    "disk_writes t2 = disk_writes t1 @ [(start, put_head ?h (v start))]"
    using write_head_run [OF 1(2) l1(2) s(1) n] unfolding l1(1) s(3) by blast
  have l2: "log_lh t2 = ?h" "log_at start t2" using only_cache_log [OF 2(3)] l1 by (simp_all add: log_at_def)
  obtain t3 where 3: "install_trans False t2 = Ok () t3" "cache Map.empty {} (installed start bs ?v2 (length bs)) t3" "only_cache t2 t3"
    "disk_writes t3 = disk_writes t2 @ home_writes start bs ?v2 (length bs)"
    using install_trans_run [of False bs ?v2 t2 start] 2(2) l2 l d by auto
  have v3: "installed start bs ?v2 (length bs) = ?v2" using v by (intro installed_same [OF l(3)]) simp_all
  have w3: "home_writes start bs ?v2 (length bs) = map (\<lambda>i. (bs ! i, v (bs ! i))) [0..<length bs]"
    unfolding home_writes_def using v by (intro map_cong) simp_all
  let ?t3 = "t3\<lparr>log_lh := no_blocks ?h\<rparr>"
  have l3: "log_lh t3 = ?h" "log_at start ?t3" using only_cache_log [OF 3(3)] l2 by (simp_all add: log_at_def)
  have c3: "cache Map.empty {} ?v2 ?t3" using 3(2) v3 by simp
  obtain t4 where 4: "write_head ?t3 = Ok () t4" "cache Map.empty {} (committed start bs v ?h) t4" "only_cache ?t3 t4"
    "disk_writes t4 = disk_writes t3 @ [(start, put_head (no_blocks ?h) (put_head ?h (v start)))]"
    using write_head_run [OF c3 l3(2) s(1)] by (auto simp: committed_def NBUF_def MAXOPBLOCKS_def)
  have "only_log s t4"
    by (rule only_log_step [OF 1(3) only_log_step [OF 2(3) only_log_step [OF 3(3) only_log_set [OF 4(3)]]]])
  moreover have "commit s = Ok () t4"
    using 1(1) 2(1) 3(1) 4(1) l(2) l3(1) d(3) by (simp add: commit_def upd_lh_run lists_blocks_def no_blocks_def)
  ultimately show ?thesis
    using 1(4) 2(4) 3(4) 4 w3 only_cache_log(6) [OF 4(3)] by (simp add: commit_writes_def)
qed

section \<open>Recovery\<close>

text \<open>The blocks that a header block lists, and the disk that recovery makes.\<close>

definition listed :: "nat \<Rightarrow> blocks \<Rightarrow> nat list" where
  "listed start d = map (\<lambda>i. unat (head_block (d start) i)) [0..<nat (head_n (d start))]"

definition log_sound :: "nat \<Rightarrow> blocks \<Rightarrow> bool" where
  "log_sound start d \<longleftrightarrow> 0 \<le> head_n (d start) \<and> apart start (listed start d) \<and> distinct (listed start d) \<and>
     length (listed start d) < NBUF"

definition recovered :: "nat \<Rightarrow> blocks \<Rightarrow> blocks" where
  "recovered start d = (installed start (listed start d) d (length (listed start d)))(start := put32 (d start) 0 0)"

definition recovery_writes :: "nat \<Rightarrow> blocks \<Rightarrow> (nat \<times> u8 list) list" where
  "recovery_writes start d = home_writes start (listed start d) d (length (listed start d)) @ [(start, put32 (d start) 0 0)]"

lemma put_no_blocks: "put_head (no_blocks h) d = put32 d 0 0"
  by (simp add: put_head_def no_blocks_def)

lemma recover_run:
  assumes c: "cache Map.empty {} d s" and l: "log_at start s" "log_sound start d"
  shows "\<exists>t. recover_from_log s = Ok () t \<and> cache Map.empty {} (recovered start d) t \<and> only_log s t \<and>
    disk_writes t = disk_writes s @ recovery_writes start d"
proof -
  let ?bs = "listed start d" and ?h = "head_of (log_lh s) (d start)"
  have a: "apart start ?bs" "distinct ?bs" "length ?bs < NBUF" "0 \<le> head_n (d start)" using l(2) by (simp_all add: log_sound_def)
  note b = apartD [OF a(1)]
  obtain t1 where 1: "read_head s = Ok () t1" "cache Map.empty {} d t1" "log_lh t1 = ?h" "only_log s t1" "disk_writes t1 = disk_writes s"
    using read_head_run [OF c l(1) b(5)] by blast
  have l1: "log_at start t1" using only_log_at [OF 1(4)] l(1) by blast
  have lb: "lists_blocks (log_lh t1) ?bs" using 1(3) a(4) by (simp add: lists_blocks_def head_of_def listed_def)
  obtain t2 where 2: "install_trans True t1 = Ok () t2" "cache Map.empty {} (installed start ?bs d (length ?bs)) t2" "only_cache t1 t2"
    "disk_writes t2 = disk_writes t1 @ home_writes start ?bs d (length ?bs)"
    using install_trans_run [of True ?bs d t1 start] 1(2) l1 lb a by auto
  let ?t2 = "t2\<lparr>log_lh := no_blocks ?h\<rparr>"
  have l2: "log_lh t2 = ?h" "log_at start ?t2" using only_cache_log [OF 2(3)] l1 1(3) by (simp_all add: log_at_def)
  have v: "installed start ?bs d (length ?bs) start = d start" using b(3) by (simp add: installed_other)
  have "cache Map.empty {} (installed start ?bs d (length ?bs)) ?t2" using 2(2) by simp
  then obtain t3 where 3: "write_head ?t2 = Ok () t3" "cache Map.empty {} (recovered start d) t3" "only_cache ?t2 t3"
    "disk_writes t3 = disk_writes t2 @ [(start, put32 (d start) 0 0)]"
    using write_head_run [OF _ l2(2) b(5)] by (fastforce simp: recovered_def put_no_blocks v NBUF_def MAXOPBLOCKS_def)
  have "only_log s t3"
    by (rule only_log_trans [OF 1(4) only_log_step [OF 2(3) only_log_set [OF 3(3)]]])
  moreover have "recover_from_log s = Ok () t3"
    using 1(1) 2(1) 3(1) l2(1) by (simp add: recover_from_log_def upd_lh_run no_blocks_def)
  ultimately show ?thesis using 1(5) 2(4) 3 by (simp add: recovery_writes_def)
qed

end
