(* ===== verification/Logwrite.thy ===== *)
theory Logwrite
  imports Recovery
begin

text \<open>
  \<^verbatim>\<open>log_write\<close> of \<^verbatim>\<open>kernel/log.c\<close> on the contract of the buffer cache: the block is
  pinned and its number goes to the header in memory, once. Then concrete logs for the
  instances of the properties.
\<close>

section \<open>Sequences of block writes\<close>

lemma after_writes_append: "after_writes (xs @ ys) d = after_writes ys (after_writes xs d)"
  by (simp add: after_writes_def)

lemma after_writes_Cons: "after_writes ((n, b) # ws) d = after_writes ws (d(n := b))"
  by (simp add: after_writes_def)

lemma after_writes_Nil [simp]: "after_writes [] d = d"
  by (simp add: after_writes_def)

lemma after_writes_other: "n \<notin> fst ` set ws \<Longrightarrow> after_writes ws d n = d n"
  by (induction ws arbitrary: d) (auto simp: after_writes_Cons)

lemma after_writes_map:
  assumes "inj_on f {..<k}" "j < k"
  shows "after_writes (map (\<lambda>i. (f i, g i)) [0..<k]) d (f j) = g j"
  using assms
proof (induction k)
  case (Suc k)
  show ?case
  proof (cases "j = k")
    case False
    with Suc have "inj_on f {..<k}" "f j \<noteq> f k" by (auto simp: inj_on_def lessThan_Suc)
    with Suc False show ?thesis by (simp add: after_writes_append after_writes_Cons)
  qed (simp add: after_writes_append after_writes_Cons)
qed simp

lemma disk_after: "only_log s t \<Longrightarrow> disk_writes t = disk_writes s @ ws \<Longrightarrow> disk t = after_writes ws (disk s)"
  by (simp add: disk_def only_log_disk after_writes_append)

section \<open>Logging a block\<close>

text \<open>The list of blocks with \<open>n\<close>, which stays where it is when it is already there.\<close>

definition absorb :: "nat list \<Rightarrow> nat \<Rightarrow> nat list" where
  "absorb bs n = (if n \<in> set bs then bs else bs @ [n])"

lemma log_index_first:
  "log_index h b i k \<le> i + k" "log_index h b i k < i + k \<Longrightarrow> lh_block h (log_index h b i k) = b"
  "log_index h b i k = i + k \<Longrightarrow> i \<le> j \<Longrightarrow> j < i + k \<Longrightarrow> lh_block h j \<noteq> b"
proof (induction k arbitrary: i)
  case (Suc k)
  { case 1 show ?case using Suc(1) [of "Suc i"] by simp }
  { case 2 then show ?case using Suc(2) [of "Suc i"] by (auto split: if_splits) }
  { case 3 then show ?case using Suc(3) [of "Suc i"] by (cases "i = j") (auto split: if_splits) }
qed auto

lemma log_index_absorb:
  assumes "lists_blocks h bs" "unat b = n"
  defines "i \<equiv> log_index h b 0 (length bs)"
  shows "i = length bs \<longleftrightarrow> n \<notin> set bs" "i < length bs \<Longrightarrow> lh_block h i = b"
proof -
  have e: "lh_block h j = b \<longleftrightarrow> bs ! j = n" if "j < length bs" for j
    using assms(1,2) that by (auto simp: lists_blocks_def unsigned_word_eqI)
  show "i < length bs \<Longrightarrow> lh_block h i = b" using log_index_first(2) [of h b 0 "length bs"] by (simp add: i_def)
  then show "i = length bs \<longleftrightarrow> n \<notin> set bs"
    using log_index_first(1,3) [of h b 0 "length bs"] e by (auto simp: i_def in_set_conv_nth le_less)
qed

lemma lists_absorb:
  assumes "lists_blocks h bs" "unat b = n"
  defines "i \<equiv> log_index h b 0 (length bs)"
  shows "lists_blocks (h\<lparr>lh_block := (lh_block h)(i := b), lh_n := lh_n h + of_bool (i = length bs)\<rparr>) (absorb bs n)"
proof (cases "n \<in> set bs")
  case True
  then have i: "i < length bs" "lh_block h i = b"
    using log_index_absorb [OF assms(1,2)] log_index_first(1) [of h b 0 "length bs"] by (auto simp: i_def le_less)
  then have "(lh_block h)(i := b) = lh_block h" by auto
  with i assms(1) True show ?thesis by (simp add: lists_blocks_def absorb_def)
next
  case False
  then have "i = length bs" using log_index_absorb(1) [OF assms(1,2)] by (simp add: i_def)
  with assms(1,2) False show ?thesis by (auto simp: lists_blocks_def absorb_def nth_append less_Suc_eq)
qed

lemma bpin_nested:
  assumes "sys_ok s" "lk \<noteq> BcacheLock"
  shows "bpin b (enter lk s) = Ok () (enter lk (s\<lparr>bufs := (bufs s)(b := (bufs s b)\<lparr>brefcnt := brefcnt (bufs s b) + 1\<rparr>)\<rparr>))"
  using sys_okD [OF assms(1)] assms(2) by (simp add: bpin_def acquire_run upd_buf_run release_enter)

lemma log_write_law:
  assumes c: "cache H (set bs) v s" "H n = Some b" and l: "lists_blocks (log_lh s) bs" "1 \<le> log_outstanding s"
    and f: "length bs < LOGSIZE" "int (length bs) < log_size s - 1"
  shows "\<exists>t. log_write b s = Ok () t \<and> cache H (insert n (set bs)) v t \<and> only_log s t \<and>
    lists_blocks (log_lh t) (absorb bs n) \<and> disk_writes t = disk_writes s"
proof -
  let ?h = "log_lh s" and ?b = "bblockno (bufs s b)"
  let ?i = "log_index ?h ?b 0 (length bs)"
  have u: "unat ?b = n" using cacheD(3) [OF c] by (auto simp: holds_def)
  note ok = sys_okD [OF cacheD(1) [OF c(1)]] and i = log_index_absorb [OF l(1) u]
  define h where "h = ?h\<lparr>lh_block := (lh_block ?h)(?i := ?b), lh_n := lh_n ?h + of_bool (?i = length bs)\<rparr>"
  have h: "lists_blocks h (absorb bs n)" unfolding h_def by (rule lists_absorb [OF l(1) u])
  have n: "lh_n ?h = int (length bs)" using l(1) by (simp add: lists_blocks_def)
  show ?thesis
  proof (cases "n \<in> set bs")
    case True
    then have "h = ?h\<lparr>lh_block := (lh_block ?h)(?i := ?b)\<rparr>" using i(1) by (intro logheader.equality) (simp_all add: h_def)
    then have "log_write b s = Ok () (settle (s\<lparr>log_lh := h\<rparr>))"
      using ok i(1) l(2) f n True by (simp add: log_write_def acquire_run gets_self upd_lh_run release_enter Let_def)
    moreover have "cache H (set bs) v (settle (s\<lparr>log_lh := h\<rparr>))" using c(1) by simp
    moreover have "only_log s (settle (s\<lparr>log_lh := h\<rparr>))" by (rule only_log_set [OF only_cache_calm [OF calm_settle]])
    ultimately show ?thesis using h True by (simp add: insert_absorb)
  next
    case False
    let ?s = "s\<lparr>bufs := (bufs s)(b := (bufs s b)\<lparr>brefcnt := brefcnt (bufs s b) + 1\<rparr>)\<rparr>"
    obtain t where t: "bpin b s = Ok () t" "cache H (insert n (set bs)) v t" "only_cache s t" "disk_writes t = disk_writes s"
      using bpin_law [OF c False] .
    have "t = settle ?s" using t(1) ok by (simp add: bpin_def acquire_run upd_buf_run release_enter)
    then have c': "cache H (insert n (set bs)) v (settle (?s\<lparr>log_lh := h\<rparr>))" "only_cache s (settle ?s)"
      using t(2,3) by simp_all
    have "log_write b s = Ok () (settle (?s\<lparr>log_lh := h\<rparr>))"
      using ok i(1) False l(2) f n cacheD(1) [OF c(1)]
      by (simp add: log_write_def acquire_run gets_self upd_lh_run release_enter h_def Let_def bpin_nested)
    moreover have "only_log s (settle (?s\<lparr>log_lh := h\<rparr>))"
      using only_log_step [OF c'(2) only_log_upd [of "settle ?s" h]] by simp
    ultimately show ?thesis using c' h by simp
  qed
qed

section \<open>Concrete logs\<close>

text \<open>A kernel with an empty log at block 2, on a disk whose blocks are all zero, with one operation running.\<close>

definition logsys0 :: "blocks \<Rightarrow> logsys" where
  "logsys0 d = bcache.extend (bcache0 d)
     \<lparr>log_start = 0, log_size = 0, log_outstanding = 0, log_committing = False, log_dev = 0,
      log_lh = \<lparr>lh_n = 0, lh_block = \<lambda>_. 0\<rparr>\<rparr>"

lemma some_log:
  obtains s :: logsys where "cache Map.empty {} d s" "log_at 2 s" "lists_blocks (log_lh s) []" "log_outstanding s = 1"
    "log_size s = 30" "disk s = d"
proof -
  have s: "bufs (logsys0 d) = (\<lambda>_. buf0)" "disk (logsys0 d) = d" "sys_ok (logsys0 d)"
    by (simp_all add: logsys0_def bcache.defs bcache0_def sleepers.defs ptable.defs kmem.defs machine.defs ptable0_def machine0_def disk_def
      after_writes_def sys_ok_def cpu_ok_def mycpu_def lock_free_def)
  obtain t where t: "binit (logsys0 d) = Ok () t" "cache Map.empty {} d t"
    using binit_law [of "logsys0 d"] s by (auto simp: buf0_def ROOTDEV_def)
  let ?s = "t\<lparr>log_start := 2, log_size := 30, log_outstanding := 1, log_dev := ROOTDEV, log_lh := \<lparr>lh_n = 0, lh_block = \<lambda>_. 0\<rparr>\<rparr>"
  have c: "cache Map.empty {} d ?s" using t(2) by simp
  show thesis using c bc.clean [OF c] by (intro that [of ?s]) (auto simp: log_at_def lists_blocks_def)
qed

text \<open>A transaction that has set block 50 to \<open>x\<close>, run by the routines of the kernel.\<close>

lemma some_transaction:
  assumes "d 2 = replicate BSIZE 0"
  obtains s :: logsys where "cache Map.empty {50} (d(50 := x)) s" "log_at 2 s" "lists_blocks (log_lh s) [50]" "disk s = d"
proof -
  obtain s :: logsys where s: "cache Map.empty {} d s" "log_at 2 s" "lists_blocks (log_lh s) []" "log_outstanding s = 1"
    "log_size s = 30" "disk s = d" by (rule some_log)
  obtain b and t1 :: logsys where 1: "cache [50 \<mapsto> b] {} d t1" "only_cache s t1" "disk t1 = disk s"
    using bc.rd_ok [OF s(1), of 50] by (auto simp: NBUF_eq)
  obtain t2 :: logsys where 2: "cache [50 \<mapsto> b] {} (d(50 := x)) t2" "only_cache t1 t2" "disk t2 = disk t1"
    using bc.modified [OF 1(1), of 50 b x] by auto
  have 12: "only_cache s t2" by (rule only_cache_trans [OF 1(2) 2(2)])
  have l: "lists_blocks (log_lh t2) []" "log_outstanding t2 = 1" "log_size t2 = 30" using only_cache_log [OF 12] s by simp_all
  obtain t3 where 3: "cache [50 \<mapsto> b] {50} (d(50 := x)) t3" "only_log t2 t3" "lists_blocks (log_lh t3) [50]" "disk_writes t3 = disk_writes t2"
    using log_write_law [of "[50 \<mapsto> b]" "[]" "d(50 := x)" t2 50 b] 2(1) l by (auto simp: absorb_def LOGSIZE_def MAXOPBLOCKS_def)
  obtain t4 where 4: "cache Map.empty {50} (d(50 := x)) t4" "only_cache t3 t4" "disk t4 = disk t3"
    using bc.rl_ok [OF 3(1), of 50 b] by auto
  have "disk t4 = d" using disk_after [OF 3(2), of "[]"] 3(4) 4(3) 2(3) 1(3) s(6) by simp
  moreover have "log_at 2 t4" using only_log_at [OF only_log_step [OF 12 3(2)]] only_log_at [OF only_cache_only_log [OF 4(2)]] s(2) by blast
  ultimately show thesis using 4(1) 3(3) only_cache_log(6) [OF 4(2)] by (intro that [of t4]) simp_all
qed

end
