(* ===== verification/Crash.thy ===== *)
theory Crash
  imports Logwrite
begin

text \<open>
  Crashes: commit and recovery write the disk block by block, and a crash leaves a prefix of
  these writes. Recovery from each prefix is computed on the pure sequences of writes, and the
  properties then follow from the runs of \<^verbatim>\<open>commit\<close> and \<^verbatim>\<open>recover_from_log\<close>.
\<close>

section \<open>Crashes\<close>

text \<open>A disk with an empty header needs no recovery, and one with a complete log has it installed.\<close>

lemma recover_empty:
  assumes "head_n (d start) = 0" "start < 2 ^ 31"
  shows "log_sound start d" "n \<noteq> start \<Longrightarrow> recovered start d n = d n"
  using assms by (simp_all add: log_sound_def recovered_def listed_def apart_def NBUF_def MAXOPBLOCKS_def)

lemma recovered_head: "length (d start) = BSIZE \<Longrightarrow> head_n (recovered start d start) = 0"
  by (simp add: recovered_def head_n_def BSIZE_def)

lemma recover_full:
  assumes "listed start d = bs" "0 \<le> head_n (d start)" "apart start bs" "distinct bs" "length bs < NBUF"
    "\<And>i. i < length bs \<Longrightarrow> d (start + 1 + i) = v (bs ! i)" "\<And>n. n \<notin> {start..start + length bs} \<Longrightarrow> n \<notin> set bs \<Longrightarrow> d n = v n"
  shows "log_sound start d" "n \<notin> {start..start + length bs} \<Longrightarrow> recovered start d n = v n"
proof -
  show "log_sound start d" using assms(1-5) by (simp add: log_sound_def)
  show "recovered start d n = v n" if out: "n \<notin> {start..start + length bs}"
  proof (cases "n \<in> set bs")
    case True
    then obtain i where i: "i < length bs" "n = bs ! i" by (auto simp: in_set_conv_nth)
    then show ?thesis using assms(1,6) out installed_home [OF assms(3,4), of "length bs" i] by (auto simp: recovered_def)
  next
    case False
    then show ?thesis using assms(1,7) out by (auto simp: recovered_def installed_other)
  qed
qed

text \<open>
  The disk \<open>d\<close> before a commit, whose log is empty, and the contents \<open>v\<close> that the
  cache shows: they differ in the blocks \<open>bs\<close> of the transaction.
\<close>

definition before_commit :: "nat \<Rightarrow> nat list \<Rightarrow> logheader \<Rightarrow> blocks \<Rightarrow> blocks \<Rightarrow> bool" where
  "before_commit start bs h d v \<longleftrightarrow> lists_blocks h bs \<and> apart start bs \<and> distinct bs \<and> length bs < NBUF \<and>
     head_n (d start) = 0 \<and> length (d start) = BSIZE \<and> (\<forall>n. n \<notin> set bs \<longrightarrow> v n = d n)"

lemma crash_before_header:
  assumes "before_commit start bs h d v" "k \<le> length bs"
  defines "d' \<equiv> after_writes (take k (commit_writes start bs v h)) d"
  shows "log_sound start d'" "d' start = d start" "n \<notin> {start..start + length bs} \<Longrightarrow> recovered start d' n = d n"
proof -
  have w: "take k (commit_writes start bs v h) = log_writes start bs v k"
    using assms(2) by (simp add: commit_writes_def log_writes_def take_map)
  have f: "fst ` set (log_writes start bs v k) \<subseteq> {start + 1..<start + 1 + k}" by (auto simp: log_writes_def)
  have s: "d' start = d start" unfolding d'_def w using f by (intro after_writes_other) auto
  moreover have "head_n (d start) = 0" "start < 2 ^ 31" using assms(1) by (simp_all add: before_commit_def apart_def)
  ultimately have r: "log_sound start d'" "n \<noteq> start \<Longrightarrow> recovered start d' n = d' n" using recover_empty [of d' start] by simp_all
  show "log_sound start d'" "d' start = d start" by fact+
  assume n: "n \<notin> {start..start + length bs}"
  then have "d' n = d n" unfolding d'_def w using f assms(2) by (intro after_writes_other) fastforce
  with n r(2) show "recovered start d' n = d n" by auto
qed

text \<open>The disk once the header is written, after \<open>j\<close> of the blocks have been installed.\<close>

definition installing :: "nat \<Rightarrow> nat list \<Rightarrow> blocks \<Rightarrow> logheader \<Rightarrow> nat \<Rightarrow> blocks \<Rightarrow> blocks" where
  "installing start bs v h j d = after_writes (log_writes start bs v (length bs) @ [(start, put_head h (v start))] @
     map (\<lambda>i. (bs ! i, v (bs ! i))) [0..<j]) d"

lemma installing_blocks:
  assumes "before_commit start bs h d v" "j \<le> length bs"
  shows "installing start bs v h j d start = put_head h (d start)"
    "i < length bs \<Longrightarrow> installing start bs v h j d (start + 1 + i) = v (bs ! i)"
    "n \<notin> {start..start + length bs} \<Longrightarrow> n \<notin> set bs \<Longrightarrow> installing start bs v h j d n = d n"
    "i < j \<Longrightarrow> installing start bs v h j d (bs ! i) = v (bs ! i)"
proof -
  let ?L = "log_writes start bs v (length bs)" and ?H = "map (\<lambda>i. (bs ! i, v (bs ! i))) [0..<j]"
  have a: "apart start bs" "distinct bs" "v start = d start" using assms(1) apartD(3) by (auto simp: before_commit_def)
  have L: "fst ` set ?L \<subseteq> {start + 1..<start + 1 + length bs}" by (auto simp: log_writes_def)
  have H: "fst ` set ?H \<subseteq> set bs" using assms(2) by auto
  have e: "installing start bs v h j d = after_writes ?H ((after_writes ?L d)(start := put_head h (d start)))"
    by (simp add: installing_def after_writes_append after_writes_Cons a(3))
  show "installing start bs v h j d start = put_head h (d start)"
    unfolding e using H apartD(3) [OF a(1)] by (subst after_writes_other) auto
  show "installing start bs v h j d n = d n" if n: "n \<notin> {start..start + length bs}" "n \<notin> set bs"
  proof -
    have "n \<notin> fst ` set ?H" "n \<notin> fst ` set ?L" "n \<noteq> start" using H L n by fastforce+
    then show ?thesis unfolding e by (simp add: after_writes_other)
  qed
  show "installing start bs v h j d (bs ! i) = v (bs ! i)" if "i < j"
    unfolding e using a(2) assms(2) that by (intro after_writes_map inj_onI) (auto simp: nth_eq_iff_index_eq)
  show "installing start bs v h j d (start + 1 + i) = v (bs ! i)" if i: "i < length bs"
  proof -
    have "start + 1 + i \<notin> fst ` set ?H" using H apartD(2) [OF a(1) i] by auto
    then have "installing start bs v h j d (start + 1 + i) = after_writes ?L d (start + 1 + i)"
      unfolding e by (simp add: after_writes_other)
    also have "\<dots> = v (bs ! i)" unfolding log_writes_def using i by (intro after_writes_map inj_onI) auto
    finally show ?thesis .
  qed
qed

lemma lists_unique: "lists_blocks h bs \<Longrightarrow> map (\<lambda>i. unat (lh_block h i)) [0..<nat (lh_n h)] = bs"
  by (auto simp: lists_blocks_def intro: nth_equalityI)

lemma installing_listed:
  assumes b: "before_commit start bs h d v" and j: "j \<le> length bs"
  shows "listed start (installing start bs v h j d) = bs" "0 \<le> head_n (installing start bs v h j d start)"
proof -
  have h: "lists_blocks h bs" "length (d start) = BSIZE" "0 \<le> lh_n h" "lh_n h \<le> int LOGSIZE"
    using b by (auto simp: before_commit_def lists_blocks_def NBUF_def LOGSIZE_def)
  note p = put_head_fields [OF h(3,4,2)]
  show "0 \<le> head_n (installing start bs v h j d start)" using p(2) h(3) installing_blocks(1) [OF b j] by simp
  have "listed start (installing start bs v h j d) = map (\<lambda>i. unat (lh_block h i)) [0..<nat (lh_n h)]"
    using p(2,3) installing_blocks(1) [OF b j] by (simp add: listed_def)
  then show "listed start (installing start bs v h j d) = bs" using lists_unique [OF h(1)] by simp
qed

lemma crash_after_header:
  assumes b: "before_commit start bs h d v" and k: "length bs < k"
  defines "d' \<equiv> after_writes (take k (commit_writes start bs v h)) d"
  shows "log_sound start d'" "length (d' start) = BSIZE" "n \<notin> {start..start + length bs} \<Longrightarrow> recovered start d' n = v n"
proof -
  have a: "apart start bs" "distinct bs" "length bs < NBUF" "length (d start) = BSIZE" "\<And>n. n \<notin> set bs \<Longrightarrow> d n = v n"
    using b by (auto simp: before_commit_def)
  have h: "0 \<le> lh_n h" "lh_n h \<le> int LOGSIZE"
    using b by (auto simp: before_commit_def lists_blocks_def NBUF_def LOGSIZE_def)
  obtain j where k': "k = length bs + Suc j" using k less_iff_Suc_add [of "length bs" k] by auto
  have p: "length (put_head h (d start)) = BSIZE" using put_head_fields(1) [OF h a(4)] .
  have "log_sound start d' \<and> length (d' start) = BSIZE \<and> (n \<notin> {start..start + length bs} \<longrightarrow> recovered start d' n = v n)"
  proof (cases "j \<le> length bs")
    case True
    have e: "d' = installing start bs v h j d"
      using True by (simp add: d'_def k' commit_writes_def installing_def log_writes_def take_map)
    note i = installing_blocks [OF b True, folded e]
    note f = recover_full [OF installing_listed [OF b True, folded e] a(1-3) i(2) trans [OF i(3) a(5)]]
    show ?thesis using f p i(1) by simp
  next
    case False
    have e: "d' = (installing start bs v h (length bs) d)(start := put32 (put_head h (d start)) 0 0)"
      using False a(5) [OF apartD(3) [OF a(1)]]
      by (simp add: d'_def k' commit_writes_def installing_def log_writes_def after_writes_append after_writes_Cons put_no_blocks)
    have "head_n (d' start) = 0" using p by (simp add: e head_n_def BSIZE_def)
    note r = recover_empty [of d' start, OF this]
    have "start < 2 ^ 31" using a(1) by (simp add: apart_def)
    moreover have "d' n = v n" if "n \<notin> {start..start + length bs}"
    proof (cases "n \<in> set bs")
      case True
      then show ?thesis using installing_blocks(4) [OF b order.refl] that by (auto simp: e in_set_conv_nth)
    next
      case False
      then show ?thesis using installing_blocks(3) [OF b order.refl that] that a(5) by (auto simp: e)
    qed
    ultimately show ?thesis using r p by (auto simp: e)
  qed
  then show "log_sound start d'" "length (d' start) = BSIZE" "n \<notin> {start..start + length bs} \<Longrightarrow> recovered start d' n = v n" by blast+
qed

text \<open>A crash during recovery: what has been installed is installed again from the same log.\<close>

lemma crash_in_recovery:
  fixes k :: nat
  assumes s: "log_sound start d" and l: "length (d start) = BSIZE"
  defines "d' \<equiv> after_writes (take k (recovery_writes start d)) d"
  shows "log_sound start d'" "n \<notin> {start..start + length (listed start d)} \<Longrightarrow> recovered start d' n = recovered start d n"
proof -
  let ?bs = "listed start d" and ?v = "recovered start d"
  have a: "apart start ?bs" "distinct ?bs" "length ?bs < NBUF" "0 \<le> head_n (d start)" using s by (simp_all add: log_sound_def)
  have home: "?v (?bs ! i) = d (start + 1 + i)" if "i < length ?bs" for i
  proof -
    have "?bs ! i \<noteq> start" using apartD(3) [OF a(1)] nth_mem [OF that] by metis
    then show ?thesis using installed_home [OF a(1,2), of "length ?bs" i d] that by (simp add: recovered_def)
  qed
  have other: "?v n = d n" if "n \<notin> set ?bs" "n \<noteq> start" for n using that by (simp add: recovered_def installed_other)
  define H where "H j = map (\<lambda>i. (?bs ! i, d (start + 1 + i))) [0..<j]" for j
  have fH: "fst ` set (H j) \<subseteq> set ?bs" if "j \<le> length ?bs" for j using that by (auto simp: H_def)
  have "log_sound start d' \<and> (n \<notin> {start..start + length ?bs} \<longrightarrow> recovered start d' n = ?v n)"
  proof (cases "k \<le> length ?bs")
    case True
    then have e: "d' = after_writes (H k) d" by (simp add: d'_def recovery_writes_def home_writes_def take_map H_def)
    have same: "d' m = d m" if "m \<notin> set ?bs" for m unfolding e using fH [OF True] that by (intro after_writes_other) auto
    then have ds: "d' start = d start" using apartD(3) [OF a(1)] by simp
    then have "listed start d' = ?bs" "0 \<le> head_n (d' start)" using a(4) by (simp_all add: listed_def)
    note r = recover_full [OF this a(1-3), of ?v]
    have "d' (start + 1 + i) = ?v (?bs ! i)" if "i < length ?bs" for i using same [OF apartD(2) [OF a(1) that]] home [OF that] by simp
    moreover have "d' m = ?v m" if "m \<notin> {start..start + length ?bs}" "m \<notin> set ?bs" for m using same other that by auto
    ultimately show ?thesis using r by blast
  next
    case False
    then have e: "d' = (after_writes (H (length ?bs)) d)(start := put32 (d start) 0 0)"
      by (simp add: d'_def recovery_writes_def home_writes_def H_def after_writes_append after_writes_Cons)
    have h: "head_n (d' start) = 0" using l by (simp add: e head_n_def BSIZE_def)
    have "start < 2 ^ 31" using a(1) by (simp add: apart_def)
    note r = recover_empty [of d' start, OF h this]
    have "d' m = ?v m" if "m \<noteq> start" for m
    proof (cases "m \<in> set ?bs")
      case True
      then obtain i where i: "i < length ?bs" "m = ?bs ! i" by (auto simp: in_set_conv_nth)
      have "after_writes (H (length ?bs)) d (?bs ! i) = d (start + 1 + i)"
        unfolding H_def using i(1) a(2) by (intro after_writes_map inj_onI) (auto simp: nth_eq_iff_index_eq)
      then show ?thesis using i home that by (simp add: e)
    next
      case False
      then have "after_writes (H (length ?bs)) d m = d m" using fH by (intro after_writes_other) auto
      then show ?thesis using other [OF False that] that by (simp add: e)
    qed
    then show ?thesis using r by auto
  qed
  then show "log_sound start d'" "n \<notin> {start..start + length ?bs} \<Longrightarrow> recovered start d' n = ?v n" by blast+
qed

section \<open>Properties\<close>

text \<open>
  C4. Crash atomicity: a commit writes the blocks of the transaction to the disk, and whenever the
  machine stops in between, after any number of the block writes, recovery at the next start gives a disk on
  which outside the log either nothing of the transaction is seen or all of it. The transaction counts from the write of
  the header on, and after recovery the log is empty.
\<close>

theorem commit_crash_atomic:
  assumes "cache Map.empty (set bs) v s" "log_at start s" "lists_blocks (log_lh s) bs" "apart start bs"
    "distinct bs" "bs \<noteq> []" "length bs < NBUF" "head_n (disk s start) = 0" "length (disk s start) = BSIZE"
  shows "\<exists>t ws. commit s = Ok () t \<and> disk_writes t = disk_writes s @ ws \<and>
    (\<forall>n. n \<notin> {start..start + length bs} \<longrightarrow> disk t n = v n) \<and>
    (\<forall>k r. cache Map.empty {} (disk r) r \<and> log_at start r \<and> disk r = after_writes (take k ws) (disk s) \<longrightarrow>
      (\<exists>u. recover_from_log r = Ok () u \<and> head_n (disk u start) = 0 \<and>
        (\<forall>n. n \<notin> {start..start + length bs} \<longrightarrow> disk u n = (if k \<le> length bs then disk s n else v n))))"
proof -
  let ?ws = "commit_writes start bs v (log_lh s)"
  obtain t where t: "commit s = Ok () t" "cache Map.empty {} (committed start bs v (log_lh s)) t"
    "disk_writes t = disk_writes s @ ?ws" using commit_run [OF assms(1-5,7,6)] by blast
  have b: "before_commit start bs (log_lh s) (disk s) v"
    using assms bc.clean [OF assms(1)] by (auto simp: before_commit_def)
  have "disk t n = v n" if "n \<notin> {start..start + length bs}" for n
    using bc.clean [OF t(2), of n] that by (auto simp: committed_def logged_other)
  moreover have "\<exists>u. recover_from_log r = Ok () u \<and> head_n (disk u start) = 0 \<and>
        (\<forall>n. n \<notin> {start..start + length bs} \<longrightarrow> disk u n = (if k \<le> length bs then disk s n else v n))"
    if r: "cache Map.empty {} (disk r) r" "log_at start r" "disk r = after_writes (take k ?ws) (disk s)" for k r
  proof -
    have d: "log_sound start (disk r)" "length (disk r start) = BSIZE"
      "\<And>n. n \<notin> {start..start + length bs} \<Longrightarrow> recovered start (disk r) n = (if k \<le> length bs then disk s n else v n)"
      using crash_before_header [OF b, of k] crash_after_header [OF b, of k] assms(9) unfolding r(3) by (cases "k \<le> length bs"; simp)+
    obtain u where u: "recover_from_log r = Ok () u" "cache Map.empty {} (recovered start (disk r)) u"
      using recover_run [OF r(1,2) d(1)] by blast
    have "disk u = recovered start (disk r)" using bc.clean [OF u(2)] by auto
    then show ?thesis using u(1) d recovered_head [of "disk r" start] by auto
  qed
  ultimately show ?thesis using t by blast
qed

theorem commit_crash_atomic_witness:
  "\<exists>(s :: logsys) t ws (r :: logsys) u (r' :: logsys) u'. disk s = (\<lambda>_. replicate BSIZE 0) \<and> commit s = Ok () t \<and> disk t 50 = [7] \<and>
     disk_writes t = disk_writes s @ ws \<and>
     disk r = after_writes (take 1 ws) (disk s) \<and> recover_from_log r = Ok () u \<and> disk u 50 = replicate BSIZE 0 \<and>
     disk r' = after_writes (take 2 ws) (disk s) \<and> recover_from_log r' = Ok () u' \<and> disk u' 50 = [7]"
proof -
  let ?d = "\<lambda>_. replicate BSIZE 0"
  obtain s :: logsys where s: "cache Map.empty {50} (?d(50 := [7])) s" "log_at 2 s" "lists_blocks (log_lh s) [50]" "disk s = ?d"
    by (rule some_transaction) simp
  have h: "head_n (replicate BSIZE 0) = 0" by (simp add: BSIZE_def head_n_def get32_def byte_at_def)
  have h1: "set [50 :: nat] = {50}" "apart 2 [50]" "distinct [50 :: nat]" "[50 :: nat] \<noteq> []" "length [50 :: nat] < NBUF" "head_n (disk s 2) = 0"
    "length (disk s 2) = BSIZE" using s(4) h by (simp_all add: apart_def NBUF_eq)
  obtain t :: logsys and ws where t: "commit s = Ok () t" "disk_writes t = disk_writes s @ ws"
      "\<forall>n. n \<notin> {2..2 + length [50 :: nat]} \<longrightarrow> disk t n = (?d(50 := [7])) n"
    and w: "\<forall>k (r :: logsys). cache Map.empty {} (disk r) r \<and> log_at 2 r \<and> disk r = after_writes (take k ws) (disk s) \<longrightarrow>
      (\<exists>u. recover_from_log r = Ok () u \<and> head_n (disk u 2) = 0 \<and> (\<forall>n. n \<notin> {2..2 + length [50 :: nat]} \<longrightarrow>
        disk u n = (if k \<le> length [50 :: nat] then disk s n else (?d(50 := [7])) n)))"
    using commit_crash_atomic [OF s(1) [folded h1(1)] s(2,3) h1(2-7)] by blast
  have w: "\<exists>u. recover_from_log r = Ok () u \<and> disk u 50 = (if k \<le> 1 then disk s 50 else [7])"
    if "cache Map.empty {} (disk r) r" "log_at 2 r" "disk r = after_writes (take k ws) (disk s)" for k and r :: logsys
    using spec [OF spec [OF w, of k], of r] that by auto
  have t50: "disk t 50 = [7]" using t(3) by simp
  obtain r :: logsys where r: "cache Map.empty {} (after_writes (take 1 ws) (disk s)) r" "log_at 2 r" "disk r = after_writes (take 1 ws) (disk s)"
    by (rule some_log)
  obtain r' :: logsys where r': "cache Map.empty {} (after_writes (take 2 ws) (disk s)) r'" "log_at 2 r'" "disk r' = after_writes (take 2 ws) (disk s)"
    by (rule some_log)
  obtain u u' where "recover_from_log r = Ok () u" "disk u 50 = disk s 50" "recover_from_log r' = Ok () u'" "disk u' 50 = [7]"
    using w [of r 1] w [of r' 2] r r' by auto
  then show ?thesis using s(4) t(1,2) t50 r(3) r'(3) by metis
qed

text \<open>
  C5. Recovery may itself be interrupted: after a crash at any point of it, the next recovery
  gives the disk, outside the log, that the interrupted one would have given.
\<close>

theorem recovery_crash_safe:
  assumes "cache Map.empty {} d s" "log_at start s" "log_sound start d" "length (d start) = BSIZE"
  shows "\<exists>t ws. recover_from_log s = Ok () t \<and> disk_writes t = disk_writes s @ ws \<and> disk t = recovered start d \<and>
    (\<forall>k r. cache Map.empty {} (disk r) r \<and> log_at start r \<and> disk r = after_writes (take k ws) d \<longrightarrow>
      (\<exists>u. recover_from_log r = Ok () u \<and> (\<forall>n. n \<notin> {start..start + length (listed start d)} \<longrightarrow> disk u n = disk t n)))"
proof -
  let ?ws = "recovery_writes start d"
  obtain t where t: "recover_from_log s = Ok () t" "cache Map.empty {} (recovered start d) t" "disk_writes t = disk_writes s @ ?ws"
    using recover_run [OF assms(1-3)] by blast
  have dt: "disk t = recovered start d" using bc.clean [OF t(2)] by auto
  have "\<exists>u. recover_from_log r = Ok () u \<and> (\<forall>n. n \<notin> {start..start + length (listed start d)} \<longrightarrow> disk u n = disk t n)"
    if r: "cache Map.empty {} (disk r) r" "log_at start r" "disk r = after_writes (take k ?ws) d" for k r
  proof -
    note c = crash_in_recovery [OF assms(3,4), where k = k, folded r(3)]
    obtain u where u: "recover_from_log r = Ok () u" "cache Map.empty {} (recovered start (disk r)) u"
      using recover_run [OF r(1,2) c(1)] by blast
    have "disk u = recovered start (disk r)" using bc.clean [OF u(2)] by auto
    then show ?thesis using u(1) c(2) dt by simp
  qed
  then show ?thesis using t dt by blast
qed

text \<open>A disk whose log at block 2 holds a new version of block 50.\<close>

definition crashed_disk :: blocks where
  "crashed_disk = (\<lambda>_. replicate BSIZE 0)(2 := put_head \<lparr>lh_n = 1, lh_block = \<lambda>_. 50\<rparr> (replicate BSIZE 0), 3 := replicate BSIZE 7)"

lemma crashed_listed: "length (crashed_disk 2) = BSIZE" "listed 2 crashed_disk = [50]" "log_sound 2 crashed_disk"
proof -
  let ?h = "\<lparr>lh_n = 1, lh_block = \<lambda>_. 50\<rparr>"
  note p = put_head_fields [of ?h "replicate BSIZE 0"]
  show "length (crashed_disk 2) = BSIZE" using p(1) by (simp add: crashed_disk_def LOGSIZE_def MAXOPBLOCKS_def)
  show l: "listed 2 crashed_disk = [50]" using p(2,3) by (simp add: listed_def crashed_disk_def LOGSIZE_def MAXOPBLOCKS_def)
  show "log_sound 2 crashed_disk" using p(2) l by (simp add: log_sound_def apart_def NBUF_eq crashed_disk_def LOGSIZE_def MAXOPBLOCKS_def)
qed

theorem recovery_crash_safe_witness:
  "\<exists>(s :: logsys) t ws (r :: logsys) u. disk s = crashed_disk \<and> recover_from_log s = Ok () t \<and> disk t 50 = replicate BSIZE 7 \<and>
     disk_writes t = disk_writes s @ ws \<and> disk r = after_writes (take 1 ws) crashed_disk \<and> recover_from_log r = Ok () u \<and>
     disk u 50 = replicate BSIZE 7"
proof -
  obtain s :: logsys where s: "cache Map.empty {} crashed_disk s" "log_at 2 s" "disk s = crashed_disk" by (rule some_log)
  obtain t :: logsys and ws where t: "recover_from_log s = Ok () t" "disk_writes t = disk_writes s @ ws" "disk t = recovered 2 crashed_disk"
    and w: "\<forall>k (r :: logsys). cache Map.empty {} (disk r) r \<and> log_at 2 r \<and> disk r = after_writes (take k ws) crashed_disk \<longrightarrow>
      (\<exists>u. recover_from_log r = Ok () u \<and> (\<forall>n. n \<notin> {2..2 + length (listed 2 crashed_disk)} \<longrightarrow> disk u n = disk t n))"
    using recovery_crash_safe [OF s(1,2) crashed_listed(3,1)] by blast
  obtain r :: logsys where r: "cache Map.empty {} (after_writes (take 1 ws) crashed_disk) r" "log_at 2 r" "disk r = after_writes (take 1 ws) crashed_disk"
    by (rule some_log)
  have "disk t 50 = replicate BSIZE 7" using t(3) crashed_listed(2) by (simp add: recovered_def) (simp add: crashed_disk_def)
  moreover obtain u where "recover_from_log r = Ok () u" "disk u 50 = disk t 50"
    using spec [OF spec [OF w, of 1], of r] r crashed_listed(2) by auto
  ultimately show ?thesis using s(3) t(1,2) r(3) by metis
qed

end
