(* ===== verification/Logspace.thy ===== *)
theory Logspace
  imports Logwrite
begin

text \<open>
  The space of the log, \<^verbatim>\<open>begin_op\<close>, \<^verbatim>\<open>log_write\<close> and \<^verbatim>\<open>end_op\<close> of
  \<^verbatim>\<open>kernel/log.c\<close> together: operations of several processes begin, write blocks and end
  in any order. \<open>q\<close> bounds the blocks that one operation writes.
\<close>

section \<open>Runs\<close>

text \<open>The pattern of \<^verbatim>\<open>kernel/fs.c\<close> for changing a block inside an operation.\<close>

definition block_write :: "nat \<Rightarrow> u8 list \<Rightarrow> ('z logsys_scheme, unit) routine" where
  "block_write n d = bind (bread ROOTDEV (of_nat n)) (\<lambda>b. sq (put_data b d) (sq (log_write b) (brelse b)))"

text \<open>
  The log between two calls: \<open>bs\<close> are the blocks logged so far, outside the log itself, the header on
  the disk is empty and nobody commits.
\<close>

definition log_ok :: "nat \<Rightarrow> nat list \<Rightarrow> blocks \<Rightarrow> 'z logsys_scheme \<Rightarrow> bool" where
  "log_ok start bs v s \<longleftrightarrow> cache Map.empty (set bs) v s \<and> log_at start s \<and> lists_blocks (log_lh s) bs \<and> distinct bs \<and>
     \<not> log_committing s \<and> set bs \<inter> {start..start + LOGSIZE} = {} \<and> start + LOGSIZE < 2 ^ 31 \<and>
     head_n (disk s start) = 0 \<and> length (disk s start) = BSIZE"

lemma only_log_fields:
  assumes "only_log s t"
  shows "log_outstanding t = log_outstanding s" "log_size t = log_size s" "log_committing t = log_committing s"
  using only_cache_log [OF assms [unfolded only_log_def]] by simp_all

lemma block_write_run:
  assumes l: "log_ok start bs v s" "1 \<le> log_outstanding s" "length bs < LOGSIZE" "int (length bs) < log_size s - 1"
    and n: "n \<notin> {start..start + LOGSIZE}" "n < 2 ^ 32"
  shows "\<exists>t. block_write n d s = Ok () t \<and> log_ok start (absorb bs n) (v(n := d)) t \<and>
    log_outstanding t = log_outstanding s \<and> log_size t = log_size s"
proof -
  have c: "cache Map.empty (set bs) v s" "log_at start s" "lists_blocks (log_lh s) bs" using l(1) by (simp_all add: log_ok_def)
  have "card (set bs) < NBUF" using l(3) card_length [of bs] by (simp add: NBUF_def LOGSIZE_def)
  then obtain b t1 where 1: "bread ROOTDEV (of_nat n) s = Ok b t1" "cache [n \<mapsto> b] (set bs) v t1" "only_cache s t1" "disk t1 = disk s"
    using bc.rd_ok [OF c(1), of n] n(2) by auto
  obtain t2 where 2: "put_data b d t1 = Ok () t2" "cache [n \<mapsto> b] (set bs) (v(n := d)) t2" "only_cache t1 t2" "disk t2 = disk t1"
    using bc.modified [OF 1(2), of n b d] by auto
  note f = only_cache_log [OF only_cache_trans [OF 1(3) 2(3)]]
  obtain t3 where 3: "log_write b t2 = Ok () t3" "cache [n \<mapsto> b] (insert n (set bs)) (v(n := d)) t3" "only_log t2 t3"
    "lists_blocks (log_lh t3) (absorb bs n)" "disk_writes t3 = disk_writes t2"
    using log_write_law [OF 2(2), of n b] c(3) l(2-4) f by auto
  obtain t4 where 4: "brelse b t3 = Ok () t4" "cache Map.empty (insert n (set bs)) (v(n := d)) t4" "only_cache t3 t4" "disk t4 = disk t3"
    using bc.rl_ok [OF 3(2), of n b] by auto
  have o: "only_log s t4" by (rule only_log_step [OF 1(3) only_log_step [OF 2(3) only_log_trans [OF 3(3) only_cache_only_log [OF 4(3)]]]])
  have "disk t4 = disk s" using disk_after [OF 3(3), of "[]"] 3(5) 1(4) 2(4) 4(4) by simp
  moreover have "set (absorb bs n) = insert n (set bs)" by (auto simp: absorb_def)
  moreover have "distinct (absorb bs n)" using l(1) by (simp add: absorb_def log_ok_def)
  ultimately have "log_ok start (absorb bs n) (v(n := d)) t4"
    using l(1) n(1) 3(4) 4(2) only_cache_log(6) [OF 4(3)] only_log_at [OF o] only_log_fields [OF o] by (simp add: log_ok_def)
  moreover have "block_write n d s = Ok () t4" using 1(1) 2(1) 3(1) 4(1) by (simp add: block_write_def)
  ultimately show ?thesis using only_log_fields [OF o] by blast
qed

lemma begin_op_run:
  assumes "log_ok start bs v s"
  shows "begin_op s = Ok () t \<longleftrightarrow>
    int (length bs) + (log_outstanding s + 1) * int MAXOPBLOCKS \<le> int LOGSIZE \<and>
    t = settle (s\<lparr>log_outstanding := log_outstanding s + 1\<rparr>)"
proof -
  have c: "cache Map.empty (set bs) v s" "lh_n (log_lh s) = int (length bs)" "\<not> log_committing s"
    using assms by (simp_all add: log_ok_def lists_blocks_def)
  show ?thesis using sys_okD [OF cacheD(1) [OF c(1)]] c(2,3)
    by (auto simp: begin_op_def acquire_run gets_self release_enter sleep_def bind_eq_Ok sq_eq_Ok)
qed

lemma log_ok_calm:
  assumes "calm s t" "log_ok start bs v s"
  shows "log_ok start bs v t"
  using assms(2) calm_cache [OF assms(1)] calm_logsys [OF assms(1)] calm_bcache [OF assms(1)]
  by (simp add: log_ok_def log_at_def)

lemma log_ok_upd [simp]:
  "log_ok start bs v (s\<lparr>log_outstanding := n\<rparr>) = log_ok start bs v s"
  by (simp add: log_ok_def log_at_def disk_def)

lemma log_ok_apart: "log_ok start bs v s \<Longrightarrow> length bs \<le> LOGSIZE \<Longrightarrow> apart start bs"
  by (fastforce simp: log_ok_def apart_def)

lemma commit_any:
  assumes c: "cache Map.empty (set bs) v s" "log_at start s" "lists_blocks (log_lh s) bs" "apart start bs" "distinct bs" "length bs < NBUF"
    and d: "head_n (disk s start) = 0" "length (disk s start) = BSIZE"
  shows "\<exists>t v'. commit s = Ok () t \<and> cache Map.empty {} v' t \<and> only_log s t \<and> lists_blocks (log_lh t) [] \<and>
    head_n (v' start) = 0 \<and> length (v' start) = BSIZE \<and> (\<forall>n. n \<notin> {start..start + length bs} \<longrightarrow> v' n = v n)"
proof (cases "bs = []")
  case True
  then have "commit s = Ok () s" using c(3) by (simp add: commit_def lists_blocks_def)
  moreover have "v start = disk s start" using bc.clean [OF c(1)] apartD(3) [OF c(4)] by auto
  moreover have "only_log s s" by (rule only_cache_only_log [OF only_cache_calm [OF calm_refl]])
  ultimately show ?thesis using c d True by (intro exI [of _ s] exI [of _ v]) simp
next
  case False
  obtain t where t: "commit s = Ok () t" "cache Map.empty {} (committed start bs v (log_lh s)) t" "only_log s t" "log_lh t = no_blocks (log_lh s)"
    using commit_run [OF c False] by blast
  have h: "0 \<le> lh_n (log_lh s)" "lh_n (log_lh s) \<le> int LOGSIZE" using c(3,6) by (simp_all add: lists_blocks_def NBUF_def LOGSIZE_def)
  have vs: "v start = disk s start" using bc.clean [OF c(1)] apartD(3) [OF c(4)] by auto
  have "length (put_head (log_lh s) (v start)) = BSIZE" using put_head_fields(1) [OF h] d(2) vs by simp
  then have "head_n (committed start bs v (log_lh s) start) = 0" "length (committed start bs v (log_lh s) start) = BSIZE"
    by (simp_all add: committed_def put_no_blocks head_n_def BSIZE_def)
  moreover have "\<forall>n. n \<notin> {start..start + length bs} \<longrightarrow> committed start bs v (log_lh s) n = v n"
    by (auto simp: committed_def logged_other)
  ultimately show ?thesis using t by (auto simp: lists_blocks_def no_blocks_def)
qed

lemma end_op_more:
  assumes l: "log_ok start bs v s" and o: "1 < log_outstanding s"
  shows "\<exists>t. end_op s = Ok () t \<and> log_ok start bs v t \<and> log_outstanding t = log_outstanding s - 1 \<and> log_size t = log_size s"
proof -
  let ?s = "s\<lparr>log_outstanding := log_outstanding s - 1\<rparr>"
  have ok: "sys_ok s" "\<not> log_committing s" using l cacheD(1) by (auto simp: log_ok_def)
  obtain t where t: "sq (wakeup LogChan) (release LogLock) (enter LogLock ?s) = Ok () t" "calm ?s t"
    using wake_release [of ?s LogLock LogChan] ok(1) by auto
  have "end_op s = Ok () t" using t(1) ok(2) o sys_okD [OF ok(1)] by (auto simp: end_op_def acquire_run sq_eq_Ok ret_bind)
  then show ?thesis using log_ok_calm [OF t(2)] calm_logsys [OF t(2)] l by auto
qed

lemma end_op_last:
  assumes l: "log_ok start bs v s" and o: "log_outstanding s = 1" and n: "length bs < NBUF"
  shows "\<exists>t v'. end_op s = Ok () t \<and> log_ok start [] v' t \<and> log_outstanding t = 0 \<and> log_size t = log_size s \<and>
    (\<forall>n. n \<notin> {start..start + LOGSIZE} \<longrightarrow> disk t n = v n)"
proof -
  let ?s = "settle (s\<lparr>log_outstanding := 0, log_committing := True\<rparr>)"
  have N: "length bs \<le> LOGSIZE" using n by (simp add: NBUF_def LOGSIZE_def)
  have ok: "sys_ok s" "\<not> log_committing s" using l cacheD(1) by (auto simp: log_ok_def)
  obtain t v' where t: "commit ?s = Ok () t" "cache Map.empty {} v' t" "only_log ?s t" "lists_blocks (log_lh t) []"
      "head_n (v' start) = 0" "length (v' start) = BSIZE" "\<forall>n. n \<notin> {start..start + length bs} \<longrightarrow> v' n = v n"
    using commit_any [of bs v ?s start] l n log_ok_apart [OF l N] by (auto simp: log_ok_def log_at_def disk_def)
  have f: "log_at start t" "log_outstanding t = 0" "log_size t = log_size s"
    using only_log_at [OF t(3), of start] only_log_fields [OF t(3)] l by (auto simp: log_ok_def log_at_def)
  let ?t = "t\<lparr>log_committing := False\<rparr>"
  have d: "disk t = v'" using bc.clean [OF t(2)] by auto
  have lt: "log_ok start [] v' ?t" using t f(1) l d by (auto simp: log_ok_def log_at_def disk_def)
  have ok': "sys_ok t" using cacheD(1) [OF t(2)] .
  obtain u where u: "sq (wakeup LogChan) (release LogLock) (enter LogLock ?t) = Ok () u" "calm ?t u"
    using wake_release [of ?t LogLock LogChan] ok' by auto
  have "end_op s = Ok () u"
    using u(1) ok(2) o t(1) sys_okD [OF ok(1)] sys_okD [OF ok'] by (auto simp: end_op_def acquire_run release_enter sq_eq_Ok ret_bind)
  moreover have "disk u = disk t" using calm_bcache [OF u(2)] by (simp add: disk_def)
  ultimately show ?thesis using log_ok_calm [OF u(2) lt] calm_logsys [OF u(2)] f d t(7) N by auto
qed

section \<open>Interleaved operations\<close>

text \<open>
  The steps of the system: the state of the kernel with, for each operation that has begun, the number of
  blocks it may still write.
\<close>

inductive log_step :: "nat \<Rightarrow> nat \<Rightarrow> 'z logsys_scheme \<times> nat list \<Rightarrow> 'z logsys_scheme \<times> nat list \<Rightarrow> bool" for q start where
  log_begin: "begin_op s = Ok () t \<Longrightarrow> log_step q start (s, rs) (t, q # rs)"
| log_wr: "i < length rs \<Longrightarrow> 0 < rs ! i \<Longrightarrow> n \<notin> {start..start + LOGSIZE} \<Longrightarrow> n < 2 ^ 32 \<Longrightarrow>
    block_write n d s = Ok () t \<Longrightarrow> log_step q start (s, rs) (t, rs[i := rs ! i - 1])"
| log_end: "i < length rs \<Longrightarrow> end_op s = Ok () t \<Longrightarrow> log_step q start (s, rs) (t, take i rs @ drop (Suc i) rs)"

text \<open>The invariant: the blocks logged and the blocks still allowed fit the log.\<close>

definition log_space :: "nat \<Rightarrow> nat \<Rightarrow> 'z logsys_scheme \<Rightarrow> nat list \<Rightarrow> bool" where
  "log_space q start s rs \<longleftrightarrow> (\<exists>bs v. log_ok start bs v s \<and> length bs + sum_list rs < LOGSIZE) \<and>
     log_outstanding s = int (length rs) \<and> int LOGSIZE \<le> log_size s \<and> (\<forall>r\<in>set rs. r \<le> q)"

lemma sum_list_bound: "(\<forall>r\<in>set rs. r \<le> q) \<Longrightarrow> sum_list rs \<le> length rs * (q :: nat)"
  by (induction rs) auto

lemma length_absorb: "length (absorb bs n) \<le> Suc (length bs)"
  by (simp add: absorb_def)

lemma space_begin:
  assumes l: "log_space q start s rs" "q < MAXOPBLOCKS" and r: "begin_op s = Ok () t"
  shows "log_space q start t (q # rs)"
proof -
  obtain bs v where b: "log_ok start bs v s" and o: "log_outstanding s = int (length rs)" "int LOGSIZE \<le> log_size s" "\<forall>r\<in>set rs. r \<le> q"
    using l(1) by (auto simp: log_space_def)
  have t: "int (length bs) + (log_outstanding s + 1) * int MAXOPBLOCKS \<le> int LOGSIZE" "t = settle (s\<lparr>log_outstanding := log_outstanding s + 1\<rparr>)"
    using r begin_op_run [OF b] by auto
  have "length bs + (length rs + 1) * MAXOPBLOCKS \<le> LOGSIZE" using t(1) o(1) by (simp add: algebra_simps flip: of_nat_mult of_nat_add)
  moreover have "sum_list (q # rs) < (length rs + 1) * MAXOPBLOCKS"
  proof -
    have "sum_list (q # rs) \<le> (length rs + 1) * q" using sum_list_bound [OF o(3)] by simp
    also have "\<dots> < (length rs + 1) * MAXOPBLOCKS" using l(2) by (intro mult_strict_left_mono) simp_all
    finally show ?thesis .
  qed
  ultimately have "length bs + sum_list (q # rs) < LOGSIZE" by simp
  moreover have "log_ok start bs v t" unfolding t(2) by (rule log_ok_calm [OF calm_settle]) (simp add: b)
  ultimately show ?thesis using o unfolding log_space_def by (intro conjI exI [of _ bs] exI [of _ v]) (simp_all add: t(2))
qed

lemma space_write:
  assumes l: "log_space q start s rs" and i: "i < length rs" "0 < rs ! i" and n: "n \<notin> {start..start + LOGSIZE}" "n < 2 ^ 32"
  shows "\<exists>t. block_write n d s = Ok () t \<and> log_space q start t (rs[i := rs ! i - 1])"
proof -
  obtain bs v where b: "log_ok start bs v s" "length bs + sum_list rs < LOGSIZE"
    and o: "log_outstanding s = int (length rs)" "int LOGSIZE \<le> log_size s" "\<forall>r\<in>set rs. r \<le> q"
    using l by (auto simp: log_space_def)
  have m: "rs ! i \<le> sum_list rs" using i(1) by (simp add: member_le_sum_list)
  obtain t where t: "block_write n d s = Ok () t" "log_ok start (absorb bs n) (v(n := d)) t" "log_outstanding t = log_outstanding s"
    "log_size t = log_size s"
    using block_write_run [OF b(1) _ _ _ n, of d] o(1,2) b(2) i m by auto
  have "length (absorb bs n) + sum_list (rs[i := rs ! i - 1]) < LOGSIZE"
    using length_absorb [of bs n] b(2) i m by (simp add: sum_list_update)
  moreover have "\<forall>r\<in>set (rs[i := rs ! i - 1]). r \<le> q"
    using o(3) i(1) set_update_subset_insert [of rs i "rs ! i - 1"] nth_mem [OF i(1)] by fastforce
  ultimately show ?thesis using t o unfolding log_space_def by auto
qed

lemma space_end:
  assumes l: "log_space q start s rs" and i: "i < length rs"
  shows "\<exists>t. end_op s = Ok () t \<and> log_space q start t (take i rs @ drop (Suc i) rs)"
proof -
  let ?rs = "take i rs @ drop (Suc i) rs"
  obtain bs v where b: "log_ok start bs v s" "length bs + sum_list rs < LOGSIZE"
    and o: "log_outstanding s = int (length rs)" "int LOGSIZE \<le> log_size s" "\<forall>r\<in>set rs. r \<le> q"
    using l by (auto simp: log_space_def)
  have "sum_list rs = sum_list (take i rs @ rs ! i # drop (Suc i) rs)" using id_take_nth_drop [OF i] by simp
  then have s: "sum_list ?rs \<le> sum_list rs" by simp
  have k: "length ?rs = length rs - 1" "\<forall>r\<in>set ?rs. r \<le> q"
    using i o(3) set_take_subset [of i rs] set_drop_subset [of "Suc i" rs] by auto
  show ?thesis
  proof (cases "length rs = 1")
    case True
    obtain t v' where t: "end_op s = Ok () t" "log_ok start [] v' t" "log_outstanding t = 0" "log_size t = log_size s"
      using end_op_last [OF b(1)] o(1) True b(2) by (auto simp: NBUF_def LOGSIZE_def)
    have "\<exists>bs v. log_ok start bs v t \<and> length bs + sum_list ?rs < LOGSIZE"
      using t(2) s b(2) by (intro exI [of _ "[]"] exI [of _ v']) simp
    then show ?thesis using t k o True by (auto simp: log_space_def)
  next
    case False
    then obtain t where t: "end_op s = Ok () t" "log_ok start bs v t" "log_outstanding t = log_outstanding s - 1" "log_size t = log_size s"
      using end_op_more [OF b(1)] o(1) i by auto
    have "\<exists>bs v. log_ok start bs v t \<and> length bs + sum_list ?rs < LOGSIZE" using t(2) s b(2) by (intro exI [of _ bs] exI [of _ v]) simp
    then show ?thesis using t k o i by (auto simp: log_space_def of_nat_diff)
  qed
qed

lemma space_step:
  assumes s: "log_step q start x y" and l: "log_space q start (fst x) (snd x)" and q: "q < MAXOPBLOCKS"
  shows "log_space q start (fst y) (snd y)"
  using s l
proof cases
  case (log_begin s t rs)
  then show ?thesis using space_begin [OF _ q] l by simp
next
  case (log_wr i rs n d s t)
  then show ?thesis using space_write [of q start s rs i n d] l by auto
next
  case (log_end i rs s t)
  then show ?thesis using space_end [of q start s rs i] l by auto
qed

lemma space_reach:
  assumes "(log_step q start)\<^sup>*\<^sup>* x y" "log_space q start (fst x) (snd x)" "q < MAXOPBLOCKS"
  shows "log_space q start (fst y) (snd y)"
  using assms(1) by (induction rule: rtranclp_induct) (use assms(2,3) space_step in blast)+

section \<open>A full log\<close>

lemma log_write_full:
  assumes "sys_ok s" "lh_n (log_lh s) \<ge> log_size s - 1"
  shows "log_write b s = Panic ''too big a transaction''"
  using sys_okD [OF assms(1)] assms(2) by (simp add: log_write_def acquire_run gets_self)

lemma block_write_full:
  assumes l: "log_ok start bs v s" "int (length bs) = log_size s - 1" "length bs < NBUF" and n: "n < 2 ^ 32"
  shows "block_write n d s = Panic ''too big a transaction''"
proof -
  have c: "cache Map.empty (set bs) v s" "lh_n (log_lh s) = int (length bs)" using l(1) by (simp_all add: log_ok_def lists_blocks_def)
  have "card (set bs) < NBUF" using l(3) card_length [of bs] by simp
  then obtain b t1 where 1: "bread ROOTDEV (of_nat n) s = Ok b t1" "cache [n \<mapsto> b] (set bs) v t1" "only_cache s t1"
    using bc.rd_ok [OF c(1), of n] n by auto
  obtain t2 where 2: "put_data b d t1 = Ok () t2" "cache [n \<mapsto> b] (set bs) (v(n := d)) t2" "only_cache t1 t2"
    using bc.modified [OF 1(2), of n b d] by auto
  note f = only_cache_log [OF only_cache_trans [OF 1(3) 2(3)]]
  have "log_write b t2 = Panic ''too big a transaction''"
    using c(2) l(2) f by (intro log_write_full cacheD(1) [OF 2(2)]) simp
  then show ?thesis using 1(1) 2(1) by (simp add: block_write_def)
qed

text \<open>Operations that use all their blocks fill the log, one write after the other.\<close>

lemma log_fill:
  assumes "log_ok start [] v s" "log_outstanding s = int (length rs)" "rs \<noteq> []" "log_size s = int LOGSIZE" "start + 2 * LOGSIZE < 2 ^ 31"
    "k \<le> sum_list rs" "k < LOGSIZE"
  shows "\<exists>t rs' bs v'. (log_step q start)\<^sup>*\<^sup>* (s, rs) (t, rs') \<and> log_ok start bs v' t \<and> length rs' = length rs \<and>
    sum_list rs' = sum_list rs - k \<and> bs = [start + LOGSIZE + 1..<start + LOGSIZE + 1 + k] \<and>
    log_outstanding t = log_outstanding s \<and> log_size t = log_size s"
  using assms(6,7)
proof (induction k)
  case 0
  have "[start + LOGSIZE + 1..<start + LOGSIZE + 1 + 0] = []" by simp
  then show ?case using assms(1) by (metis diff_zero rtranclp.rtrancl_refl)
next
  case (Suc k)
  then obtain t rs' bs v' where t: "(log_step q start)\<^sup>*\<^sup>* (s, rs) (t, rs')" "log_ok start bs v' t" "length rs' = length rs"
    "sum_list rs' = sum_list rs - k" "bs = [start + LOGSIZE + 1..<start + LOGSIZE + 1 + k]" "log_outstanding t = log_outstanding s" "log_size t = log_size s"
    by auto
  have "sum_list rs' \<noteq> 0" using t(4) Suc.prems by simp
  then obtain i where i: "i < length rs'" "0 < rs' ! i" by (auto simp: in_set_conv_nth)
  let ?n = "start + LOGSIZE + 1 + k"
  have n: "?n \<notin> {start..start + LOGSIZE}" "?n < 2 ^ 32" using Suc.prems assms(5) by auto
  have sp: "length bs < LOGSIZE" "int (length bs) < log_size t - 1" using t(5,7) assms(4) Suc.prems by auto
  have g: "1 \<le> log_outstanding t" using t(6) assms(2,3) by (cases rs) simp_all
  obtain u where u: "block_write ?n [] t = Ok () u" "log_ok start (absorb bs ?n) (v'(?n := [])) u" "log_outstanding u = log_outstanding t"
    "log_size u = log_size t"
    using block_write_run [OF t(2) g sp n, of "[]"] by blast
  have "absorb bs ?n = [start + LOGSIZE + 1..<start + LOGSIZE + 1 + Suc k]" by (simp add: t(5) absorb_def)
  moreover have "(log_step q start)\<^sup>*\<^sup>* (s, rs) (u, rs'[i := rs' ! i - 1])"
    using t(1) log_wr [OF i n u(1)] by (rule rtranclp.rtrancl_into_rtrancl)
  moreover have "sum_list (rs'[i := rs' ! i - 1]) = sum_list rs - Suc k"
    using i t(4) member_le_sum_list [of "rs' ! i" rs'] by (simp add: sum_list_update)
  ultimately show ?case using u t(3,6,7) by (metis length_list_update)
qed

lemma begin_three:
  assumes "log_ok start [] v s" "log_outstanding s = 0"
  shows "\<exists>t. (log_step q start)\<^sup>*\<^sup>* (s, []) (t, [q, q, q]) \<and> log_ok start [] v t \<and> log_outstanding t = 3 \<and> log_size t = log_size s"
proof -
  define f where "f s = settle (s\<lparr>log_outstanding := log_outstanding s + 1\<rparr>)" for s :: "'a logsys_scheme"
  have f: "log_ok start [] v (f x)" "log_outstanding (f x) = log_outstanding x + 1" "log_size (f x) = log_size x" if "log_ok start [] v x" for x
    unfolding f_def by (rule log_ok_calm [OF calm_settle]) (use that in simp_all)
  have b: "log_step q start (x, rs) (f x, q # rs)" if "log_ok start [] v x" "log_outstanding x \<le> 2" for x rs
    using begin_op_run [OF that(1)] that(2) by (intro log_begin) (simp add: f_def LOGSIZE_def MAXOPBLOCKS_def)
  note 1 = f [OF assms(1)] note 2 = f [OF 1(1)] note 3 = f [OF 2(1)]
  have "(log_step q start)\<^sup>*\<^sup>* (s, []) (f (f (f s)), [q, q, q])"
    using b [OF assms(1), of "[]"] b [OF 1(1), of "[q]"] b [OF 2(1), of "[q, q]"] 1 2 assms(2) by auto
  then show ?thesis using 1 2 3 assms(2) by (intro exI [of _ "f (f (f s))"]) simp
qed

section \<open>Properties\<close>

text \<open>
  C6. Operations that each write fewer than MAXOPBLOCKS blocks never exhaust the log: however they
  begin, write and end, interleaved in any order, each write of an operation within its bound returns, and so
  does each end_op, the last of which commits.
\<close>

theorem log_never_full:
  assumes "log_ok start [] v s" "log_outstanding s = 0" "int LOGSIZE \<le> log_size s" "q < MAXOPBLOCKS"
    "(log_step q start)\<^sup>*\<^sup>* (s, []) (t, rs)"
  shows "(\<forall>i n d. i < length rs \<and> 0 < rs ! i \<and> n \<notin> {start..start + LOGSIZE} \<and> n < 2 ^ 32 \<longrightarrow> (\<exists>u. block_write n d t = Ok () u)) \<and>
    (rs \<noteq> [] \<longrightarrow> (\<exists>u. end_op t = Ok () u))"
proof -
  have "log_space q start s []" using assms(1-3) by (auto simp: log_space_def LOGSIZE_def MAXOPBLOCKS_def)
  then have "log_space q start t rs" using space_reach [OF assms(5)] assms(4) by simp
  then show ?thesis using space_write space_end by (metis length_greater_0_conv)
qed

text \<open>A log at rest.\<close>

lemma log_at_rest:
  obtains s :: logsys where "log_ok 2 [] (\<lambda>_. replicate BSIZE 0) s" "log_outstanding s = 0" "log_size s = int LOGSIZE"
proof -
  obtain s :: logsys where s: "cache Map.empty {} (\<lambda>_. replicate BSIZE 0) s" "log_at 2 s" "lists_blocks (log_lh s) []"
    "log_size s = 30" "disk s = (\<lambda>_. replicate BSIZE 0)" by (rule some_log)
  let ?s = "s\<lparr>log_outstanding := 0, log_committing := False\<rparr>"
  have "head_n (replicate BSIZE 0) = 0" by (simp add: BSIZE_def head_n_def get32_def byte_at_def)
  then have "log_ok 2 [] (\<lambda>_. replicate BSIZE 0) ?s" using s by (simp add: log_ok_def log_at_def disk_def LOGSIZE_def MAXOPBLOCKS_def)
  then show thesis using s(4) by (intro that [of ?s]) (simp_all add: LOGSIZE_def MAXOPBLOCKS_def)
qed

theorem log_never_full_witness:
  "\<exists>(s :: logsys) t u. begin_op s = Ok () t \<and> block_write 50 [7] t = Ok () u"
proof -
  obtain s :: logsys where s: "log_ok 2 [] (\<lambda>_. replicate BSIZE 0) s" "log_outstanding s = 0" "log_size s = int LOGSIZE"
    by (rule log_at_rest)
  obtain t where t: "begin_op s = Ok () t" using begin_op_run [OF s(1)] s(2) by (auto simp: LOGSIZE_def MAXOPBLOCKS_def)
  have "(log_step 9 2)\<^sup>*\<^sup>* (s, []) (t, [9])" using log_begin [OF t] by blast
  from log_never_full [OF s(1,2) _ _ this] s(3) t show ?thesis by (fastforce simp: LOGSIZE_def MAXOPBLOCKS_def)
qed

text \<open>
  C28. The space that begin_op reserves is one block too large: on a log of LOGSIZE blocks, three operations
  that begin_op admits and that write no more than MAXOPBLOCKS blocks each reach a state in which a write
  within these bounds panics.
\<close>

theorem begin_op_overcommits:
  assumes "log_ok start [] v s" "log_outstanding s = 0" "log_size s = int LOGSIZE" "start + 2 * LOGSIZE < 2 ^ 31"
  shows "\<exists>t rs i n. (log_step MAXOPBLOCKS start)\<^sup>*\<^sup>* (s, []) (t, rs) \<and> i < length rs \<and> 0 < rs ! i \<and> n \<notin> {start..start + LOGSIZE} \<and>
    n < 2 ^ 32 \<and> block_write n [] t = Panic ''too big a transaction''"
proof -
  let ?q = MAXOPBLOCKS
  obtain t where t: "(log_step ?q start)\<^sup>*\<^sup>* (s, []) (t, [?q, ?q, ?q])" "log_ok start [] v t" "log_outstanding t = 3" "log_size t = log_size s"
    using begin_three [OF assms(1,2)] by blast
  have o: "log_outstanding t = int (length [?q, ?q, ?q])" "[?q, ?q, ?q] \<noteq> []" "log_size t = int LOGSIZE" using t(3,4) assms(3) by simp_all
  have k: "LOGSIZE - 1 \<le> sum_list [?q, ?q, ?q]" "LOGSIZE - 1 < LOGSIZE" by (simp_all add: LOGSIZE_def MAXOPBLOCKS_def)
  obtain u rs bs v' where u: "(log_step ?q start)\<^sup>*\<^sup>* (t, [?q, ?q, ?q]) (u, rs)" "log_ok start bs v' u"
    "sum_list rs = sum_list [?q, ?q, ?q] - (LOGSIZE - 1)" "bs = [start + LOGSIZE + 1..<start + LOGSIZE + 1 + (LOGSIZE - 1)]" "log_size u = log_size t"
    using log_fill [OF t(2) o assms(4) k, of ?q] by blast
  have len: "length bs = LOGSIZE - 1" unfolding u(4) by (simp only: length_upt)
  have "sum_list rs \<noteq> 0" using u(3) by (simp add: LOGSIZE_def MAXOPBLOCKS_def)
  then obtain i where i: "i < length rs" "0 < rs ! i" by (auto simp: in_set_conv_nth)
  let ?n = "start + LOGSIZE + 1"
  have "block_write ?n [] u = Panic ''too big a transaction''"
    using len u(5) t(4) assms(3,4) by (intro block_write_full [OF u(2)]) (simp_all add: LOGSIZE_def MAXOPBLOCKS_def NBUF_def)
  moreover have "(log_step ?q start)\<^sup>*\<^sup>* (s, []) (u, rs)" using t(1) u(1) by (rule rtranclp_trans)
  moreover have "?n \<notin> {start..start + LOGSIZE}" "?n < 2 ^ 32" using assms(4) by auto
  ultimately show ?thesis using i by blast
qed

theorem begin_op_overcommits_witness:
  "\<exists>(s :: logsys) t rs n. log_outstanding s = 0 \<and> (log_step MAXOPBLOCKS 2)\<^sup>*\<^sup>* (s, []) (t, rs) \<and> rs \<noteq> [] \<and>
    block_write n [] t = Panic ''too big a transaction''"
proof -
  obtain s :: logsys where s: "log_ok 2 [] (\<lambda>_. replicate BSIZE 0) s" "log_outstanding s = 0" "log_size s = int LOGSIZE"
    by (rule log_at_rest)
  have "(2 :: nat) + 2 * LOGSIZE < 2 ^ 31" by (simp add: LOGSIZE_def MAXOPBLOCKS_def)
  from begin_op_overcommits [OF s this] obtain t rs i n where "(log_step MAXOPBLOCKS 2)\<^sup>*\<^sup>* (s, []) (t, rs)" "i < length rs"
    "block_write n [] t = Panic ''too big a transaction''" by blast
  then show ?thesis using s(2) by (cases rs) auto
qed



end
