(* ===== verification/Ring.thy ===== *)
theory Ring
  imports Prelude
begin

text \<open>
  Circular buffers. The pipe, the console and the serial port keep their bytes in an array of
  fixed size, with counters of the bytes written and read that only grow and wrap around with
  the machine word; a position is a counter modulo the size. The size divides the range of the
  counters, so the wrap-around is harmless.
\<close>

section \<open>The contents of a circular buffer\<close>

definition ring_bytes :: "(nat \<Rightarrow> u8) \<Rightarrow> nat \<Rightarrow> 'w::len word \<Rightarrow> 'w word \<Rightarrow> u8 list" where
  "ring_bytes buf cap r w = map (\<lambda>i. buf (unat (r + of_nat i) mod cap)) [0..<unat (w - r)]"

lemma length_ring_bytes [simp]: "length (ring_bytes buf cap r w) = unat (w - r)"
  by (simp add: ring_bytes_def)

lemma ring_bytes_empty [simp]: "ring_bytes buf cap r r = []"
  by (simp add: ring_bytes_def)

lemma ring_empty_iff: "ring_bytes buf cap r w = [] \<longleftrightarrow> r = w"
  by (auto simp: ring_bytes_def unat_eq_0)

lemma ring_get:
  assumes "r \<noteq> w"
  shows "ring_bytes buf cap r w = buf (unat r mod cap) # ring_bytes buf cap (r + 1) w"
proof -
  have n: "w - r \<noteq> 0" using assms by simp
  then have "unat (w - r) = Suc (unat (w - r - 1))" using unat_minus_one [OF n] unat_eq_0 [of "w - r"] by (cases "unat (w - r)") simp_all
  moreover have "w - r - 1 = w - (r + 1)" by simp
  ultimately have "[0..<unat (w - r)] = 0 # map Suc [0..<unat (w - (r + 1))]" by (simp add: upt_conv_Cons map_Suc_upt del: upt_Suc)
  then show ?thesis by (simp add: ring_bytes_def comp_def add.assoc)
qed

text \<open>Two counters that are less than \<open>cap\<close> apart have different positions.\<close>

lemma ring_position:
  fixes r :: "'w::len word"
  assumes "cap dvd 2 ^ LENGTH('w)" "i < j" "j - i < cap" "j < 2 ^ LENGTH('w)"
  shows "unat (r + of_nat i) mod cap \<noteq> unat (r + of_nat j) mod cap"
proof
  have m: "unat (r + of_nat k) mod cap = (unat r + k) mod cap" for k
  proof -
    have "unat (r + of_nat k) = (unat r + k) mod 2 ^ LENGTH('w)"
      by (simp add: unsigned_of_nat unat_word_ariths take_bit_eq_mod mod_simps)
    then show ?thesis using assms(1) by (simp add: mod_mod_cancel)
  qed
  assume "unat (r + of_nat i) mod cap = unat (r + of_nat j) mod cap"
  then have "(unat r + i) mod cap = (unat r + j) mod cap" by (simp only: m)
  then have "cap dvd (unat r + j) - (unat r + i)" using assms(2) by (metis less_imp_le nat_add_left_cancel_le mod_eq_dvd_iff_nat)
  then have "cap dvd j - i" by simp
  then show False using assms(2,3) by (auto dest: dvd_imp_le)
qed

lemma ring_put:
  fixes r w :: "'w::len word"
  assumes "cap dvd 2 ^ LENGTH('w)" "cap < 2 ^ LENGTH('w)" "unat (w - r) < cap"
  shows "ring_bytes (buf(unat w mod cap := c)) cap r (w + 1) = ring_bytes buf cap r w @ [c]"
proof -
  let ?n = "unat (w - r)"
  have e: "w + 1 - r = (w - r) + 1" by simp
  have "unat (w + 1 - r) = (?n + unat (1 :: 'w word)) mod 2 ^ LENGTH('w)" unfolding e by (rule unat_word_ariths(1))
  then have n: "unat (w + 1 - r) = Suc ?n" using assms(2,3) by simp
  have "(buf(unat w mod cap := c)) (unat (r + of_nat i) mod cap) = buf (unat (r + of_nat i) mod cap)" if "i < ?n" for i
    using ring_position [OF assms(1) that, of r] assms(2,3) that by simp
  then show ?thesis by (simp add: ring_bytes_def n cong: map_cong)
qed

lemma ring_unput:
  fixes r w :: "'w::len word"
  assumes "w \<noteq> r"
  shows "ring_bytes buf cap r (w - 1) = butlast (ring_bytes buf cap r w)"
proof -
  have e: "w - 1 - r = (w - r) - 1" by simp
  have "unat (w - 1 - r) = unat (w - r) - 1" unfolding e by (rule unat_minus_one) (use assms in simp)
  then show ?thesis by (simp add: ring_bytes_def butlast_conv_take take_map)
qed

lemma ring_full:
  fixes r w :: "'w::len word"
  assumes "cap < 2 ^ LENGTH('w)"
  shows "w = r + of_nat cap \<longleftrightarrow> unat (w - r) = cap"
proof -
  have u: "unat (of_nat cap :: 'w word) = cap" using assms by (simp add: unat_of_nat take_bit_nat_eq_self)
  have "w = r + of_nat cap \<longleftrightarrow> w - r = of_nat cap" by (simp add: diff_eq_eq add.commute)
  also have "\<dots> \<longleftrightarrow> unat (w - r) = unat (of_nat cap :: 'w word)" by (auto intro: unsigned_word_eqI)
  finally show ?thesis by (simp only: u)
qed

section \<open>Queues\<close>

text \<open>
  What the clients of a bounded buffer rely on: \<open>items\<close> are the bytes in it, \<open>enq\<close> adds one
  at the end while there is room, \<open>deq\<close> takes the first.
\<close>

locale byte_queue =
  fixes items :: "'q \<Rightarrow> u8 list"
    and room :: nat
    and enq :: "u8 \<Rightarrow> 'q \<Rightarrow> 'q"
    and front :: "'q \<Rightarrow> u8"
    and deq :: "'q \<Rightarrow> 'q"
  assumes enq_ok: "length (items q) < room \<Longrightarrow> items (enq c q) = items q @ [c]"
    and deq_ok: "items q \<noteq> [] \<Longrightarrow> items q = front q # items (deq q)"
begin

lemma enq_all: "length (items q) + length cs \<le> room \<Longrightarrow> items (fold enq cs q) = items q @ cs"
  by (induction cs arbitrary: q) (simp_all add: enq_ok)

lemma deq_all: "n \<le> length (items q) \<Longrightarrow> items q = map (\<lambda>i. front ((deq ^^ i) q)) [0..<n] @ items ((deq ^^ n) q)"
proof (induction n)
  case (Suc n)
  then have e: "items q = map (\<lambda>i. front ((deq ^^ i) q)) [0..<n] @ items ((deq ^^ n) q)" by simp
  then have "length (items q) = n + length (items ((deq ^^ n) q))" by (metis length_append length_map length_upt diff_zero)
  then have "items ((deq ^^ n) q) \<noteq> []" using Suc.prems by auto
  then show ?case using e deq_ok by fastforce
qed simp

text \<open>First in, first out.\<close>

lemma fifo:
  assumes "length (items q) + length cs \<le> room" "n \<le> length (items q) + length cs"
  shows "items ((deq ^^ n) (fold enq cs q)) = drop n (items q @ cs) \<and>
    map (\<lambda>i. front ((deq ^^ i) (fold enq cs q))) [0..<n] = take n (items q @ cs)"
proof -
  have e: "items q @ cs = map (\<lambda>i. front ((deq ^^ i) (fold enq cs q))) [0..<n] @ items ((deq ^^ n) (fold enq cs q))"
    using deq_all [of n "fold enq cs q"] enq_all [OF assms(1)] assms(2) by simp
  show ?thesis unfolding e by simp
qed

end

end
