(* ===== verification/Copyin.thy ===== *)
theory Copyin
  imports Copyout
begin

text \<open>
  \<^verbatim>\<open>walkaddr\<close>, \<^verbatim>\<open>copyin\<close> and \<^verbatim>\<open>copyinstr\<close> of \<^verbatim>\<open>kernel/vm.c\<close> read the
  bytes of an address space, page by page.
\<close>

section \<open>Bytes of a range\<close>

definition reads :: "'z kmem_scheme \<Rightarrow> u64 \<Rightarrow> u64 \<Rightarrow> u8 list \<Rightarrow> bool" where
  "reads s r va bs \<longleftrightarrow> (\<forall>i<length bs. user_byte s r (va + of_nat i) = Some (bs ! i))"

lemma reads_Nil [simp]: "reads s r va []"
  by (simp add: reads_def)

lemma reads_append:
  assumes "reads s r va xs" "ys \<noteq> [] \<Longrightarrow> reads s r (va + of_nat (length xs)) ys"
  shows "reads s r va (xs @ ys)"
  unfolding reads_def
proof (intro allI impI)
  fix i assume i: "i < length (xs @ ys)"
  show "user_byte s r (va + of_nat i) = Some ((xs @ ys) ! i)"
  proof (cases "i < length xs")
    case True
    then show ?thesis using assms(1) by (simp add: reads_def nth_append)
  next
    case False
    then have "i - length xs < length ys" "ys \<noteq> []" using i by auto
    moreover have "va + of_nat (length xs) + of_nat (i - length xs) = va + of_nat i"
      using False by (simp add: add.assoc flip: of_nat_add)
    moreover have "user_byte s r (va + of_nat (length xs) + of_nat (i - length xs)) = Some (ys ! (i - length xs))"
      using assms(2) calculation(1,2) unfolding reads_def by blast
    ultimately show ?thesis using False by (simp only: nth_append if_False)
  qed
qed

section \<open>One page\<close>

lemma user_page: "user_byte s r va \<noteq> None \<longleftrightarrow> user_byte s r (PGROUNDDOWN va) \<noteq> None"
  by (simp add: user_byte_def Let_def PGROUNDDOWN_aligned)

lemma walkaddr_run:
  assumes v: "vm_inv s R ext" and c: "cow_inv s R" and r: "r \<in> R" and a: "page_aligned va"
  shows "walkaddr r va s = Ok (if user_byte s r va = None then 0 else PTE2PA (pt s r va)) s"
    "user_byte s r va \<noteq> None \<Longrightarrow> PTE2PA (pt s r va) \<noteq> 0"
proof -
  have pg: "PGROUNDDOWN va = va" using a by (rule PGROUNDDOWN_aligned)
  have u: "user_byte s r va \<noteq> None \<longleftrightarrow> valid (pt s r va) \<and> bit (pt s r va) 4"
    using cow_invD(2) [OF c r, of va] by (auto simp: user_byte_def Let_def pg flag_bits valid_bit not_le [symmetric])
  show "PTE2PA (pt s r va) \<noteq> 0" if "user_byte s r va \<noteq> None"
  proof -
    have "va < TRAPFRAME" using that by (auto simp: user_byte_def Let_def pg split: if_splits)
    then have "managed s (PTE2PA (pt s r va))" using pt_owned(1) [OF v r] u that refs_managed by blast
    then show ?thesis using vm_invD(1) [OF v] managed_nz by (auto simp: kmem_inv_def)
  qed
  show "walkaddr r va s = Ok (if user_byte s r va = None then 0 else PTE2PA (pt s r va)) s"
  proof (cases "va < MAXVA")
    case False
    then have "\<not> valid (pt s r va)" by (simp add: pt_def valid_def)
    then show ?thesis using False u by (simp add: walkaddr_def not_less)
  next
    case mv: True
    show ?thesis
    proof (cases "node (mem s) r (vpath va)")
      case None
      then have "\<not> valid (pt s r va)" by (auto elim: node_pt)
      then show ?thesis using mv None u by (simp add: walkaddr_def walk_lookup not_le [symmetric])
    next
      case (Some t)
      have "is_table (mem s) R t" using r Some by (intro is_tableI) auto
      then have nz: "entry t (PX 0 va) \<noteq> 0" using entry_nonnull [OF is_table_managed [OF v] vm_invD(1) [OF v] PX_less] by blast
      have "pt s r va = ld64 (mem s) (entry t (PX 0 va))" using mv Some a by (simp add: pt_def pte_at_def)
      then show ?thesis using mv Some nz u
        by (auto simp: walkaddr_def walk_lookup load_def flag_bits valid_bit not_le [symmetric])
    qed
  qed
qed

lemma read_page:
  assumes "user_byte s r va \<noteq> None" "unat va mod 4096 + k \<le> 4096"
  shows "reads s r va (read_bytes (mem s) (PTE2PA (pt s r (PGROUNDDOWN va)) + (va - PGROUNDDOWN va)) k)"
  unfolding reads_def
proof (intro allI impI)
  let ?m = "read_bytes (mem s) (PTE2PA (pt s r (PGROUNDDOWN va)) + (va - PGROUNDDOWN va)) k"
  fix i assume "i < length ?m"
  then have i: "i < k" by (simp add: read_bytes_def)
  have "off (va + of_nat i) va = i" using i assms(2) by (simp add: off_def unat_of_nat take_bit_nat_eq_self)
  then have "PGROUNDDOWN (va + of_nat i) = PGROUNDDOWN va" using in_page(1) [of "va + of_nat i" va k] i assms(2) by simp
  then show "user_byte s r (va + of_nat i) = Some (?m ! i)"
    using assms(1) i by (auto simp: user_byte_def Let_def read_bytes_def algebra_simps split: if_splits)
qed

section \<open>The loop\<close>

lemma copyin_loop_ok:
  assumes v: "vm_inv s R ext" "cow_inv s R" "r \<in> R"
    and n: "unat va mod 4096 + unat len \<le> 4096 * n"
  shows "\<exists>rc bs. copyin_loop n r va len dst s = Ok (rc, dst @ bs) s \<and> reads s r va bs \<and>
    (rc = 0 \<and> length bs = unat len \<or> rc = -1 \<and> length bs < unat len \<and> user_byte s r (va + of_nat (length bs)) = None)"
  using n
proof (induction n arbitrary: va len dst)
  case 0
  then have "len = 0" by (simp add: unat_eq_0)
  then show ?case by (intro exI [of _ 0] exI [of _ "[]"]) (simp add: copyin_loop.simps [of 0])
next
  case (Suc n)
  let ?va0 = "PGROUNDDOWN va" and ?k = "unat (chunk va len)"
  note w = walkaddr_run [OF v page_aligned_PGROUNDDOWN [of va]]
  consider "len = 0" | "len \<noteq> 0" "user_byte s r va = None" | "len \<noteq> 0" "user_byte s r va \<noteq> None" by blast
  then show ?case
  proof cases
    case 1
    then show ?thesis by (intro exI [of _ 0] exI [of _ "[]"]) (simp add: copyin_loop.simps [of "Suc n"])
  next
    case 2
    then have "copyin_loop (Suc n) r va len dst s = Ok (-1, dst) s"
      using w(1) user_page [of s r va] by (simp add: copyin_loop.simps [of "Suc n"] Let_def word_gt_0)
    then show ?thesis using 2 by (intro exI [of _ "-1"] exI [of _ "[]"]) (simp add: unat_eq_0 neq0_conv [symmetric])
  next
    case 3
    let ?src = "replicate (unat len) ()"
    have l: "of_nat (length ?src) = len" "length ?src < 2 ^ 64" using unsigned_less [of len, where ?'a = nat] by simp_all
    note ck = chunk_facts [OF l(2), of va, unfolded l(1)]
    let ?b = "read_bytes (mem s) (PTE2PA (pt s r ?va0) + (va - ?va0)) ?k"
    have b: "reads s r va ?b" "length ?b = ?k" using read_page [OF 3(2)] ck(1) by (simp_all add: read_bytes_def)
    have k: "?k \<le> unat len" using ck(2) by simp
    then have len: "unat (len - chunk va len) = unat len - ?k" by (simp add: unat_sub word_le_nat_alt)
    have fu: "unat (?va0 + PGSIZE) mod 4096 + unat (len - chunk va len) \<le> 4096 * n" using ck(3,5) len Suc.prems by simp
    obtain rc bs where c: "copyin_loop n r (?va0 + PGSIZE) (len - chunk va len) (dst @ ?b) s = Ok (rc, (dst @ ?b) @ bs) s"
        "reads s r (?va0 + PGSIZE) bs"
        "rc = 0 \<and> length bs = unat len - ?k \<or> rc = -1 \<and> length bs < unat len - ?k \<and> user_byte s r (?va0 + PGSIZE + of_nat (length bs)) = None"
      using Suc.IH [OF fu, of "dst @ ?b"] unfolding len by blast
    have nx: "va + of_nat ?k = ?va0 + PGSIZE" if "?k < unat len" using ck(4) that by simp
    have "copyin_loop (Suc n) r va len dst s = Ok (rc, dst @ ?b @ bs) s"
      using 3 w c(1) user_page [of s r va] by (auto simp: copyin_loop.simps [of "Suc n"] Let_def word_gt_0)
    moreover have "reads s r va (?b @ bs)"
    proof (rule reads_append [OF b(1)])
      assume "bs \<noteq> []"
      then have "?k < unat len" using c(3) by (cases bs) auto
      then show "reads s r (va + of_nat (length ?b)) bs" using c(2) nx b(2) by (simp only:)
    qed
    moreover have "rc = 0 \<and> length (?b @ bs) = unat len \<or>
        rc = -1 \<and> length (?b @ bs) < unat len \<and> user_byte s r (va + of_nat (length (?b @ bs))) = None"
      using c(3)
    proof
      assume e: "rc = -1 \<and> length bs < unat len - ?k \<and> user_byte s r (?va0 + PGSIZE + of_nat (length bs)) = None"
      then have l: "length (?b @ bs) < unat len" "?k < unat len" using b(2) by auto
      have "va + of_nat (length (?b @ bs)) = va + of_nat ?k + of_nat (length bs)" using b(2) by (simp only: length_append of_nat_add add.assoc)
      also have "\<dots> = ?va0 + PGSIZE + of_nat (length bs)" by (simp only: nx [OF l(2)])
      finally show ?thesis using e l(1) by (simp only: simp_thms)
    qed (use b(2) k in simp)
    ultimately show ?thesis by (intro exI [of _ rc] exI [of _ "?b @ bs"] conjI)
  qed
qed

lemma copyin_ok:
  assumes "vm_inv s R ext" "cow_inv s R" "r \<in> R"
  shows "\<exists>rc bs. copyin r va len s = Ok (rc, bs) s \<and> reads s r va bs \<and>
    (rc = 0 \<and> length bs = unat len \<or> rc = -1 \<and> length bs < unat len \<and> user_byte s r (va + of_nat (length bs)) = None)"
proof -
  have "unat va mod 4096 + unat len \<le> 4096 * (unat len div 4096 + 2)"
    using div_mult_mod_eq [of "unat len" 4096] mod_less_divisor [of 4096 "unat len"] mod_less_divisor [of 4096 "unat va"] by simp
  from copyin_loop_ok [OF assms this, of "[]"] show ?thesis by (simp add: copyin_def)
qed

text \<open>What is mapped can be read, and the bytes read are determined.\<close>

lemma copyin_mapped:
  assumes "vm_inv s R ext" "cow_inv s R" "r \<in> R" "reads s r va bs" "length bs = unat len"
  shows "copyin r va len s = Ok (0, bs) s"
proof -
  obtain rc xs where c: "copyin r va len s = Ok (rc, xs) s" "reads s r va xs"
    "rc = 0 \<and> length xs = unat len \<or> rc = -1 \<and> length xs < unat len \<and> user_byte s r (va + of_nat (length xs)) = None"
    using copyin_ok [OF assms(1-3)] by blast
  have "rc = 0" "length xs = length bs" using c(3) assms(4,5) by (auto simp: reads_def)
  moreover have "xs = bs" using c(2) assms(4) calculation(2) by (intro nth_equalityI) (auto simp: reads_def)
  ultimately show ?thesis using c(1) by simp
qed

end
