(* ===== verification/Userio.thy ===== *)
theory Userio
  imports Copyin Sleeplock
begin

text \<open>
  Access to user memory from inside a system call, also while the kernel holds spinlocks:
  what the drivers and the file system rely on when they call \<^verbatim>\<open>copyin\<close> and
  \<^verbatim>\<open>copyout\<close>.
\<close>

section \<open>A process in the kernel\<close>

text \<open>
  Process \<open>i\<close> runs, its address space is \<open>r\<close>, one of the address spaces \<open>R\<close>; no
  spinlock is held and the invariants of memory hold.
\<close>

definition running :: "u64 set \<Rightarrow> (u64 \<Rightarrow> int) \<Rightarrow> nat \<Rightarrow> u64 \<Rightarrow> 'z ptable_scheme \<Rightarrow> bool" where
  "running R ext i r s \<longleftrightarrow> vm_inv s R ext \<and> cow_inv s R \<and> (\<forall>p. 0 \<le> ext p) \<and> sys_ok s \<and>
     cpu.proc (mycpu s) = Some i \<and> pagetable (procs s i) = r \<and> r \<in> R"

definition kernel_lock :: "lockid \<Rightarrow> bool" where
  "kernel_lock lk \<longleftrightarrow> lk \<noteq> KmemLock \<and> lk \<noteq> RefLock \<and> (\<forall>p. lk \<noteq> ProcLock p)"

lemma user_byte_enter [simp]: "user_byte (enter lk s) = user_byte s" "user_byte (settle s) = user_byte s"
  by (auto simp: user_byte_def pt_def fun_eq_iff Let_def)

lemma reads_enter [simp]: "reads (enter lk s) = reads s" "reads (settle s) = reads s"
  by (simp_all add: reads_def fun_eq_iff)

lemma cow_inv_enter [simp]: "cow_inv (enter lk s) = cow_inv s"
  by (auto simp: cow_inv_def pt_def fun_eq_iff)

lemma vm_inv_enter:
  assumes "kernel_lock lk" "vm_inv s R ext"
  shows "vm_inv (enter lk s) R ext"
  using assms vm_invD(1) [OF assms(2)]
  by (intro vm_inv_transfer(1) [OF assms(2)]) (simp_all add: kernel_lock_def kmem_inv_def)

lemma vm_inv_leave:
  assumes "vm_inv (enter lk s) R ext" "sys_ok s"
  shows "vm_inv s R ext"
  by (intro vm_inv_transfer(1) [OF assms(1)]) (use assms(2) in \<open>simp_all add: kmem_ready_def sys_ok_def\<close>)

lemma runningD:
  assumes "running R ext i r s"
  shows "vm_inv s R ext" "cow_inv s R" "0 \<le> ext p" "sys_ok s" "cpu.proc (mycpu s) = Some i" "pagetable (procs s i) = r" "r \<in> R"
    "cpu_ok s" "lock_free lk s" "procs_free s"
  using assms by (auto simp: running_def dest: sys_okD)

lemma running_transfer:
  assumes r: "running R ext i r s" and e: "mem t = mem s" "freelist t = freelist s" "pgref t = pgref s" "kernel_end t = kernel_end s"
    "locks t = locks s" "tp t = tp s" "harts t = harts s" "cpus t = cpus s" "procs t = procs s"
  shows "running R ext i r t"
proof -
  have ok: "sys_ok t" using runningD(4) [OF r] e by (simp add: sys_ok_def cpu_ok_def lock_free_def mycpu_def intr_get_def)
  then have "kmem_ready t" by (simp add: kmem_ready_def sys_ok_def)
  note tr = vm_inv_transfer [OF runningD(1) [OF r] this e(1-4)]
  have "cow_inv t R" using runningD(2) [OF r] cow_inv_cong [of R t s] tr(4) by simp
  moreover have "mycpu t = mycpu s" by (simp add: mycpu_def e)
  ultimately show ?thesis using ok tr(1) r e(9) by (simp add: running_def)
qed

lemma running_calm:
  assumes "calm s t" "running R ext i r s"
  shows "running R ext i r t" "user_byte t = user_byte s" "pt t = pt s"
proof -
  note f = calm_fields [OF assms(1)] and ok = calm_sys_ok [OF assms(1) runningD(4) [OF assms(2)]]
  have "kmem_ready t" using ok by (simp add: kmem_ready_def sys_ok_def)
  note tr = vm_inv_transfer [OF runningD(1) [OF assms(2)] this f(6-9)]
  have "cow_inv t R" using runningD(2) [OF assms(2)] cow_inv_cong [of R t s] tr(4) by simp
  then show "running R ext i r t" using ok tr(1) f(1,15) assms(2) by (simp add: running_def)
  show "pt t = pt s" by (rule tr(4))
  show "user_byte t = user_byte s" by (intro ext) (simp only: user_byte_def tr(4) f(6))
qed

text \<open>A routine that only changes memory, run inside a lock.\<close>

lemma only_mem_inside:
  assumes "only_mem (enter lk s) t" "cpu_ok s"
  shows "t = enter lk (s\<lparr>mem := mem t, freelist := freelist t, pgref := pgref t\<rparr>)"
proof -
  have e: "settle t = enter lk (s\<lparr>mem := mem t, freelist := freelist t, pgref := pgref t\<rparr>)"
    using assms by (simp add: only_mem_def)
  have "noff (mycpu t) = noff (mycpu (settle t))" by (simp add: settle_def mycpu_def)
  also have "\<dots> = noff (mycpu s) + 1" unfolding e noff_enter by (simp add: mycpu_def)
  finally have "noff (mycpu t) \<noteq> 0" using assms(2) by (simp add: cpu_ok_def)
  then have "settle t = t" by (simp add: settle_def mycpu_def)
  with e show ?thesis by simp
qed

lemma copyin_inside:
  assumes "running R ext i r s" "kernel_lock lk" "reads s r va bs" "length bs = unat len"
  shows "copyin r va len (enter lk s) = Ok (0, bs) (enter lk s)"
  using assms runningD [OF assms(1)] by (intro copyin_mapped [of _ R ext]) (simp_all add: vm_inv_enter)

lemma copyout_inside:
  fixes s :: "'z ptable_scheme"
  assumes r: "running R ext i r s" and lk: "kernel_lock lk" and n: "length bs < 2 ^ 64"
  shows "\<exists>rc t k. copyout r va bs (enter lk s) = Ok rc (enter lk t) \<and> running R ext i r t \<and> only_mem s t \<and>
    (\<forall>r'\<in>R - {r}. user_byte t r' = user_byte s r') \<and> k \<le> length bs \<and> user_byte t r = put (user_byte s r) va (take k bs) \<and>
    (\<forall>vb. writable (pt s r vb) \<longrightarrow> writable (pt t r vb)) \<and>
    (rc = 0 \<and> k = length bs \<or> rc = -1 \<and> (\<exists>j<length bs. \<not> writable (pt s r (PGROUNDDOWN (va + of_nat j)))))"
proof -
  note d = runningD [OF r]
  have "vm_inv (enter lk s) R ext" "cow_inv (enter lk s) R" "cpu.proc (mycpu (enter lk s)) = Some i" "pagetable (procs (enter lk s) i) = r"
    using d lk by (simp_all add: vm_inv_enter)
  from copyout_ok [OF this(1,2) d(3) this(3,4) d(7) n, of va] obtain rc u k where
    u: "copyout r va bs (enter lk s) = Ok rc u" "vm_inv u R ext" "cow_inv u R" "only_mem (enter lk s) u"
      "\<forall>r'\<in>R - {r}. user_byte u r' = user_byte s r'" "k \<le> length bs" "user_byte u r = put (user_byte s r) va (take k bs)"
      "\<forall>vb. writable (pt (enter lk s) r vb) \<longrightarrow> writable (pt u r vb)" "rc = 0 \<and> k = length bs \<or> rc = -1 \<and> (\<exists>j<length bs. \<not> writable (pt (enter lk s) r (PGROUNDDOWN (va + of_nat j))))"
    unfolding user_byte_enter by blast
  define t where "t = s\<lparr>mem := mem u, freelist := freelist u, pgref := pgref u\<rparr>"
  have ut: "u = enter lk t" using only_mem_inside [OF u(4) d(8)] by (simp add: t_def)
  have ok: "sys_ok t" using d(4) by (simp add: t_def sys_ok_def cpu_ok_def lock_free_def mycpu_def intr_get_def)
  have "vm_inv t R ext" using u(2) ok unfolding ut by (rule vm_inv_leave)
  moreover have "cow_inv t R" using u(3) by (simp add: ut)
  ultimately have "running R ext i r t" using d(3,5-7) ok by (simp add: running_def t_def mycpu_def)
  moreover have "only_mem s t" by (simp add: only_mem_def t_def)
  moreover have "pt (enter lk x) = pt x" for x :: "'z ptable_scheme" by (intro ext) (simp add: pt_def)
  ultimately show ?thesis using u(1,5-9) unfolding ut user_byte_enter by (intro exI [of _ rc] exI [of _ t] exI [of _ k]) auto
qed

section \<open>A concrete process\<close>

text \<open>A process with one writable page at address 0, and no lock held.\<close>

lemma running_machine:
  "\<exists>(s :: ptable) R r. running R (\<lambda>_. 0) 0 r s \<and> writable (pt s r 0) \<and> killed (procs s 0) = 0"
proof -
  from two_spaces obtain s :: kmem and R old new p where
    s: "vm_inv s R (\<lambda>_. 0)" "R = {old, new}" "old \<in> R" "\<forall>va. pt s new va = 0" "\<forall>va. va \<noteq> 0 \<longrightarrow> pt s old va = 0"
      "is_leaf (pt s old 0)" "bit (pt s old 0) 2" "bit (pt s old 0) 4"
      "pt s old 0 = PA2PTE p OR (PTE_R OR PTE_U OR PTE_W) OR PTE_V" "managed s p" by blast
  let ?t = "kmem.extend (s\<lparr>cpus := \<lambda>_. \<lparr>proc = Some 0, noff = 0, intena = False\<rparr>, locks := \<lambda>_. \<lparr>locked = 0, name = [], holder = None\<rparr>\<rparr>)
    \<lparr>procs = (\<lambda>_. user_proc old), nextpid = 1, initproc = None, ticks = 0, trampoline = 0x80001000,
     forkret_addr = 0x80002000\<rparr>"
  have ok: "sys_ok ?t" by (simp add: sys_ok_def kmem.defs cpu_ok_def lock_free_def mycpu_def)
  then have "kmem_ready ?t" by (simp add: kmem_ready_def sys_ok_def)
  note tr = vm_inv_transfer [OF s(1) this]
  have tr: "vm_inv ?t R (\<lambda>_. 0)" "pt ?t = pt s" using tr by (simp_all add: kmem.defs)
  have "unat (pt s old 0) < 2 ^ 54"
    using PA2PTE_small [of p "(PTE_R OR PTE_U OR PTE_W) OR PTE_V"] s(9,10) by (simp add: managed_def flag_defs)
  then have "cow_inv ?t R" using s(2,4,5) by (intro cow_inv_single [of R old new]) (auto simp: tr(2) fun_eq_iff)
  then have "running R (\<lambda>_. 0) 0 old ?t" using tr(1) ok s(3) by (simp add: running_def kmem.defs mycpu_def user_proc_def)
  moreover have "writable (pt ?t old 0)" using s(6-8) by (simp add: tr(2) writable_def is_leaf_def)
  moreover have "killed (procs ?t 0) = 0" by (simp add: kmem.defs user_proc_def)
  ultimately show ?thesis by blast
qed

lemma page0_reads:
  assumes "running R ext i r s" "writable (pt s r 0)" "n \<le> 4096"
  shows "\<exists>bs. length bs = n \<and> reads s r 0 bs"
proof -
  have "valid (pt s r 0)" "bit (pt s r 0) 4" using assms(2) by (simp_all add: writable_def)
  then have "user_byte s r 0 \<noteq> None" by (simp add: user_byte_def Let_def PGROUNDDOWN_def flag_bits valid_bit TRAPFRAME_eq)
  from read_page [OF this, of n] show ?thesis using assms(3) by (auto simp: read_bytes_def intro!: exI)
qed

section \<open>Properties\<close>

text \<open>
  C33. Bytes that copyout has put to user memory are the bytes that copyin gets back, across page boundaries and
  copy-on-write pages.
\<close>

theorem copyout_copyin_roundtrip:
  fixes s :: "'z ptable_scheme"
  assumes "vm_inv s R ext" "cow_inv s R" "\<And>p. 0 \<le> ext p" "cpu.proc (mycpu s) = Some i" "pagetable (procs s i) = r" "r \<in> R"
    "length src < 2 ^ 64" "copyout r va src s = Ok 0 t"
  shows "copyin r va (of_nat (length src)) t = Ok (0, src) t"
proof -
  from copyout_ok [OF assms(1-7), of va] assms(8) have t: "vm_inv t R ext" "cow_inv t R" "user_byte t r = put (user_byte s r) va src" by auto
  have "reads t r va src" using assms(7) by (auto simp: reads_def t(3) put_def off_def unat_of_nat take_bit_nat_eq_self)
  then show ?thesis using assms(6,7) by (intro copyin_mapped [OF t(1,2)]) (simp_all add: unat_of_nat take_bit_nat_eq_self)
qed

theorem copyout_copyin_roundtrip_witness:
  "\<exists>(s :: ptable) r t. copyout r 8 [1, 2, 3] s = Ok 0 t \<and> copyin r 8 3 t = Ok (0, [1, 2, 3]) t"
proof -
  obtain s :: ptable and R r where s: "running R (\<lambda>_. 0) 0 r s" "writable (pt s r 0)" using running_machine by blast
  note d = runningD [OF s(1)]
  have "PGROUNDDOWN (8 + of_nat j) = 0" if "j < 3" for j
    using that by (auto simp: less_Suc_eq numeral_3_eq_3 PGROUNDDOWN_def PGSIZE_def)
  then obtain t where t: "copyout r 8 [1, 2, 3] s = Ok 0 t"
    using copyout_ok [OF d(1-3,5-7), of "[1, 2, 3]" 8] s(2) by auto
  then show ?thesis using copyout_copyin_roundtrip [OF d(1-3,5-7) _ t] by auto
qed

end
