(* ===== verification/Pipeq.thy ===== *)
theory Pipeq
  imports Pipe Ring Userio
begin

text \<open>
  A pipe is a queue of bytes: \<^verbatim>\<open>pipewrite\<close> appends bytes of the caller's memory to it and
  \<^verbatim>\<open>piperead\<close> takes bytes from its front to the caller's memory. The queue is the contents of the
  circular buffer of \<^verbatim>\<open>kernel/pipe.c\<close>.
\<close>

section \<open>The queue\<close>

definition pipe_bytes :: "pipe \<Rightarrow> u8 list" where
  "pipe_bytes p = ring_bytes (pdata p) PIPESIZE (nread p) (nwrite p)"

definition pop_byte :: "pipe \<Rightarrow> pipe" where
  "pop_byte p = p\<lparr>nread := nread p + 1\<rparr>"

definition next_byte :: "pipe \<Rightarrow> u8" where
  "next_byte p = pdata p (unat (nread p) mod PIPESIZE)"

lemma PIPESIZE_32: "PIPESIZE dvd 2 ^ LENGTH(32)" "PIPESIZE < 2 ^ LENGTH(32)"
  by (simp_all add: PIPESIZE_def dvd_def)

interpretation pq: byte_queue pipe_bytes PIPESIZE push_byte next_byte pop_byte
proof
  show "pipe_bytes (push_byte c p) = pipe_bytes p @ [c]" if "length (pipe_bytes p) < PIPESIZE" for p c
    using that ring_put [OF PIPESIZE_32] by (simp add: pipe_bytes_def push_byte_def)
  show "pipe_bytes p = next_byte p # pipe_bytes (pop_byte p)" if "pipe_bytes p \<noteq> []" for p
    using that ring_get [of "nread p" "nwrite p"] by (simp add: pipe_bytes_def pop_byte_def next_byte_def ring_empty_iff)
qed

lemma pipe_full_bytes: "pipe_full p \<longleftrightarrow> length (pipe_bytes p) = PIPESIZE"
  using ring_full [OF PIPESIZE_32(2)] by (simp add: pipe_full_def pipe_bytes_def)

lemma pipe_empty_bytes: "nread p = nwrite p \<longleftrightarrow> pipe_bytes p = []"
  by (simp add: pipe_bytes_def ring_empty_iff)

lemma pipe_fields [simp]:
  "readopen (push_byte c p) = readopen p" "writeopen (push_byte c p) = writeopen p"
  "readopen (pop_byte p) = readopen p" "writeopen (pop_byte p) = writeopen p"
  by (simp_all add: push_byte_def pop_byte_def)

section \<open>Updates commute with taking locks\<close>

lemma enter_pipes [simp]: "(enter lk s)\<lparr>pipes := a\<rparr> = enter lk (s\<lparr>pipes := a\<rparr>)" "(settle s)\<lparr>pipes := a\<rparr> = settle (s\<lparr>pipes := a\<rparr>)"
  by (simp_all add: enter_def settle_def mycpu_def intr_get_def w_sstatus_def)

lemma pipes_enter [simp]: "pipes (enter lk s) = pipes s" "pipes (settle s) = pipes s"
  by (simp_all add: enter_def settle_def w_sstatus_def)

lemma running_pipes [simp]: "running R ext i r (s\<lparr>pipes := a\<rparr>) = running R ext i r s"
  by (rule iffI; erule running_transfer; simp)

lemma user_pipes [simp]:
  "user_byte (s\<lparr>pipes := a\<rparr>) = user_byte s" "reads (s\<lparr>pipes := a\<rparr>) = reads s" "pt (s\<lparr>pipes := a\<rparr>) = pt s"
  by (auto simp: user_byte_def reads_def pt_def fun_eq_iff Let_def)

lemma upd_pipe_run [run_simps]: "upd_pipe pi f s = Ok () (s\<lparr>pipes := (pipes s)(pi := f (pipes s pi))\<rparr>)"
  by (simp add: upd_pipe_def)

lemma pipe_lock: "kernel_lock (PipeLock pi)"
  by (simp add: kernel_lock_def)

lemma is_killed_inside:
  assumes "running R ext i r s"
  shows "is_killed i (enter (PipeLock pi) s) = Ok (killed (procs s i)) (enter (PipeLock pi) s)"
  using runningD [OF assms] by (simp add: is_killed_def acquire_run release_enter)

section \<open>Writing\<close>

lemma copyin_byte:
  assumes "running R ext i r s" "kernel_lock lk"
  shows "copyin r va 1 (enter lk s) = Ok (case user_byte s r va of None \<Rightarrow> (-1, []) | Some c \<Rightarrow> (0, [c])) (enter lk s)"
proof (cases "user_byte s r va")
  case None
  note d = runningD [OF assms(1)]
  obtain rc bs where c: "copyin r va 1 (enter lk s) = Ok (rc, bs) (enter lk s)" "reads s r va bs"
    "rc = 0 \<and> length bs = 1 \<or> rc = -1 \<and> length bs < 1 \<and> user_byte s r (va + of_nat (length bs)) = None"
    using copyin_ok [OF vm_inv_enter [OF assms(2) d(1)], of r va 1] d(2,7) by auto
  have "rc = -1" "bs = []" using c(2,3) None by (auto simp: reads_def)
  then show ?thesis using c(1) None by simp
next
  case (Some c)
  then show ?thesis using copyin_inside [OF assms, of va "[c]" 1] by (simp add: reads_def)
qed

lemma pipewrite_loop_run:
  assumes "running R ext i r s" "readopen (pipes s pi)" "killed (procs s i) = 0"
    "reads s r (addr + of_nat j) bs" "length bs \<le> k" "length bs < k \<Longrightarrow> user_byte s r (addr + of_nat (j + length bs)) = None"
    "length (pipe_bytes (pipes s pi)) + length bs \<le> PIPESIZE" "length bs < k \<Longrightarrow> length (pipe_bytes (pipes s pi)) + length bs < PIPESIZE"
  shows "pipewrite_loop k i pi addr j (enter (PipeLock pi) s) =
    Ok (Some (j + length bs)) (enter (PipeLock pi) (s\<lparr>pipes := (pipes s)(pi := fold push_byte bs (pipes s pi))\<rparr>))"
  using assms
proof (induction k arbitrary: s j bs)
  case 0
  then show ?case by simp
next
  case (Suc k)
  note r = Suc.prems(1) note d = runningD [OF r]
  note simps = bind_assoc ret_bind is_killed_inside [OF r] copyin_byte [OF r pipe_lock] pipe_full_bytes upd_pipe_run Suc.prems(2,3) d(6)
  show ?case
  proof (cases bs)
    case Nil
    then show ?thesis using Suc.prems(6,8) by (simp add: simps)
  next
    case (Cons c cs)
    let ?s = "s\<lparr>pipes := (pipes s)(pi := push_byte c (pipes s pi))\<rparr>"
    have b: "user_byte s r (addr + of_nat j) = Some c" "reads s r (addr + of_nat (Suc j)) cs"
      using Suc.prems(4) Cons by (force simp: reads_def algebra_simps)+
    have q: "pipe_bytes (push_byte c (pipes s pi)) = pipe_bytes (pipes s pi) @ [c]" using pq.enq_ok Suc.prems(7) Cons by simp
    have "pipewrite_loop k i pi addr (Suc j) (enter (PipeLock pi) ?s) =
      Ok (Some (Suc j + length cs)) (enter (PipeLock pi) (?s\<lparr>pipes := (pipes ?s)(pi := fold push_byte cs (pipes ?s pi))\<rparr>))"
      using Suc.prems Cons b q by (intro Suc.IH) auto
    then show ?thesis using b Suc.prems(7) Cons by (simp add: simps byte_at_def fun_upd_def cong: if_cong)
  qed
qed

lemma calm_pipes: "calm s t \<Longrightarrow> pipes t = pipes s"
  by (erule calm_get) simp_all

lemma only_mem_pipes: "only_mem s t \<Longrightarrow> pipes t = pipes s"
  unfolding only_mem_def by (drule arg_cong [where f = pipes]) simp

lemma pipewrite_run:
  assumes r: "running R ext i r s" and p: "readopen (pipes s pi)" "killed (procs s i) = 0" "reads s r addr bs"
    and k: "length bs \<le> k" "length bs < k \<Longrightarrow> user_byte s r (addr + of_nat (length bs)) = None"
      "length (pipe_bytes (pipes s pi)) + length bs \<le> PIPESIZE"
      "length bs < k \<Longrightarrow> length (pipe_bytes (pipes s pi)) + length bs < PIPESIZE"
  shows "\<exists>t. pipewrite pi addr (int k) s = Ok (int (length bs)) t \<and> running R ext i r t \<and> user_byte t = user_byte s \<and>
    pipes t = (pipes s)(pi := fold push_byte bs (pipes s pi))"
proof -
  let ?s = "s\<lparr>pipes := (pipes s)(pi := fold push_byte bs (pipes s pi))\<rparr>"
  note d = runningD [OF r]
  have l: "pipewrite_loop k i pi addr 0 (enter (PipeLock pi) s) = Ok (Some (length bs)) (enter (PipeLock pi) ?s)"
    using pipewrite_loop_run [OF r p(1,2), of addr 0 bs k] p(3) k by simp
  have r': "running R ext i r ?s" using r by simp
  obtain t where t: "sq (wakeup (PipeRead pi)) (release (PipeLock pi)) (enter (PipeLock pi) ?s) = Ok () t" "calm ?s t"
    using wake_release [OF runningD(4) [OF r'], of "PipeLock pi" "PipeRead pi"] by auto
  have "pipewrite pi addr (int k) s = Ok (int (length bs)) t"
    using d l t(1) by (auto simp: pipewrite_def this_proc_run acquire_run sq_eq_Ok)
  then show ?thesis using running_calm [OF t(2) r'] calm_pipes [OF t(2)] by simp
qed

section \<open>Reading\<close>

lemma piperead_loop_run:
  assumes "running R ext i r s" "m = min k (length (pipe_bytes (pipes s pi)))" "m < 2 ^ 64"
    "\<And>x. x < m \<Longrightarrow> writable (pt s r (PGROUNDDOWN (addr + of_nat (j + x))))"
  shows "\<exists>t. piperead_loop k i pi addr j (enter (PipeLock pi) s) = Ok (j + m) (enter (PipeLock pi) t) \<and> running R ext i r t \<and>
    pipes t = (pipes s)(pi := (pop_byte ^^ m) (pipes s pi)) \<and>
    (\<forall>r'\<in>R - {r}. user_byte t r' = user_byte s r') \<and>
    user_byte t r = put (user_byte s r) (addr + of_nat j) (take m (pipe_bytes (pipes s pi)))"
  using assms
proof (induction k arbitrary: s j m)
  case 0
  then show ?case by auto
next
  case (Suc k)
  note r = Suc.prems(1) note d = runningD [OF r]
  let ?p = "pipes s pi"
  show ?case
  proof (cases "pipe_bytes ?p = []")
    case True
    then show ?thesis using Suc.prems(1,2) by (intro exI [of _ s]) (simp add: pipe_empty_bytes)
  next
    case False
    let ?c = "next_byte ?p" and ?q = "pipe_bytes (pop_byte ?p)" and ?s = "s\<lparr>pipes := (pipes s)(pi := pop_byte ?p)\<rparr>"
    have q: "pipe_bytes ?p = ?c # ?q" using False by (rule pq.deq_ok)
    obtain m' where m: "m = Suc m'" "m' = min k (length ?q)" using Suc.prems(2) q by auto
    have w: "writable (pt s r (PGROUNDDOWN (addr + of_nat j)))" using Suc.prems(4) [of 0] m(1) by simp
    have r1: "running R ext i r ?s" using r by simp
    obtain t where t: "copyout r (addr + of_nat j) [?c] (enter (PipeLock pi) ?s) = Ok 0 (enter (PipeLock pi) t)" "running R ext i r t"
      "only_mem ?s t" "\<forall>r'\<in>R - {r}. user_byte t r' = user_byte s r'" "user_byte t r = put (user_byte s r) (addr + of_nat j) [?c]"
      "\<forall>vb. writable (pt s r vb) \<longrightarrow> writable (pt t r vb)"
      using copyout_inside [OF r1 pipe_lock [of pi], of "[?c]" "addr + of_nat j"] w by auto
    have pt: "pipes t = (pipes s)(pi := pop_byte ?p)" using only_mem_pipes [OF t(3)] by simp
    have "\<exists>u. piperead_loop k i pi addr (Suc j) (enter (PipeLock pi) t) = Ok (Suc j + m') (enter (PipeLock pi) u) \<and> running R ext i r u \<and>
      pipes u = (pipes t)(pi := (pop_byte ^^ m') (pipes t pi)) \<and> (\<forall>r'\<in>R - {r}. user_byte u r' = user_byte t r') \<and>
      user_byte u r = put (user_byte t r) (addr + of_nat (Suc j)) (take m' (pipe_bytes (pipes t pi)))"
    proof (rule Suc.IH [OF t(2)])
      show "writable (pt t r (PGROUNDDOWN (addr + of_nat (Suc j + x))))" if "x < m'" for x
        using Suc.prems(4) [of "Suc x"] that m(1) t(6) by simp
    qed (use m pt Suc.prems(3) in simp_all)
    then obtain u where u: "piperead_loop k i pi addr (Suc j) (enter (PipeLock pi) t) = Ok (j + m) (enter (PipeLock pi) u)" "running R ext i r u"
      "pipes u = (pipes s)(pi := (pop_byte ^^ m') (pop_byte ?p))" "\<forall>r'\<in>R - {r}. user_byte u r' = user_byte t r'"
      "user_byte u r = put (user_byte t r) (addr + of_nat (Suc j)) (take m' ?q)" using pt m(1) by auto
    have "user_byte u r = put (user_byte s r) (addr + of_nat j) ([?c] @ take m' ?q)"
      unfolding u(5) t(5) using put_append [of "[?c]" "take m' ?q" "user_byte s r" "addr + of_nat j"] Suc.prems(3) m(1)
      by (simp add: algebra_simps)
    then have "user_byte u r = put (user_byte s r) (addr + of_nat j) (take m (pipe_bytes ?p))" by (simp add: q m(1))
    moreover have "piperead_loop (Suc k) i pi addr j (enter (PipeLock pi) s) = Ok (j + m) (enter (PipeLock pi) u)"
      using u(1) t(1) d(6) False by (simp add: pipe_empty_bytes upd_pipe_run Let_def flip: next_byte_def pop_byte_def)
    ultimately show ?thesis using u(2,3,4) t(4) m(1) by (intro exI [of _ u]) (simp add: funpow_swap1)
  qed
qed

lemma piperead_run:
  assumes r: "running R ext i r s" and p: "pipe_bytes (pipes s pi) \<noteq> [] \<or> \<not> writeopen (pipes s pi)"
    and m: "m = min k (length (pipe_bytes (pipes s pi)))" "m < 2 ^ 64" "\<And>x. x < m \<Longrightarrow> writable (pt s r (PGROUNDDOWN (addr + of_nat x)))"
  shows "\<exists>t. piperead pi addr (int k) s = Ok (int m) t \<and> running R ext i r t \<and>
    pipes t = (pipes s)(pi := (pop_byte ^^ m) (pipes s pi)) \<and> (\<forall>r'\<in>R - {r}. user_byte t r' = user_byte s r') \<and>
    user_byte t r = put (user_byte s r) addr (take m (pipe_bytes (pipes s pi)))"
proof -
  note d = runningD [OF r]
  obtain t where t: "piperead_loop k i pi addr 0 (enter (PipeLock pi) s) = Ok m (enter (PipeLock pi) t)" "running R ext i r t"
    "pipes t = (pipes s)(pi := (pop_byte ^^ m) (pipes s pi))" "\<forall>r'\<in>R - {r}. user_byte t r' = user_byte s r'"
    "user_byte t r = put (user_byte s r) addr (take m (pipe_bytes (pipes s pi)))"
    using piperead_loop_run [OF r m(1,2), of addr 0] m(3) by auto
  obtain u where u: "sq (wakeup (PipeWrite pi)) (release (PipeLock pi)) (enter (PipeLock pi) t) = Ok () u" "calm t u"
    using wake_release [OF runningD(4) [OF t(2)], of "PipeLock pi" "PipeWrite pi"] by auto
  have "piperead pi addr (int k) s = Ok (int m) u"
    using d t(1) u(1) p by (auto simp: piperead_def this_proc_run acquire_run sq_eq_Ok pipe_empty_bytes)
  then show ?thesis using running_calm [OF u(2) t(2)] calm_pipes [OF u(2)] t(3-5) by simp
qed

section \<open>Concrete pipes\<close>

definition pipesys_of :: "ptable \<Rightarrow> (u64 \<Rightarrow> pipe) \<Rightarrow> pipesys" where
  "pipesys_of s ps = ptable.extend s
     \<lparr>sleeplks = (\<lambda>_. \<lparr>slocked = 0, sname = [], spid = 0\<rparr>),
      bufs = (\<lambda>_. \<lparr>bvalid = False, bdisk = False, bdev = 0, bblockno = 0, brefcnt = 0, bprev = 0, bnext = 0, bdata = []\<rparr>),
      disk_init = (\<lambda>_. []), disk_writes = [],
      log_start = 0, log_size = 0, log_outstanding = 0, log_committing = False, log_dev = 0, log_lh = \<lparr>lh_n = 0, lh_block = \<lambda>_. 0\<rparr>,
      sb = \<lparr>sb_magic = 0, sb_size = 0, sb_nblocks = 0, sb_ninodes = 0, sb_nlog = 0, sb_logstart = 0, sb_inodestart = 0, sb_bmapstart = 0\<rparr>,
      inodes = (\<lambda>_. \<lparr>idev = 0, inum = 0, iref = 0, ivalid = False, itype = 0, imajor = 0, iminor = 0, inlink = 0, isize = 0, iaddrs = []\<rparr>),
      uart_regs = (\<lambda>_. 0), uart_out = [], uart_in = [], uart_busy = [], uart_tx_buf = (\<lambda>_. 0), uart_tx_w = 0, uart_tx_r = 0,
      panicked = False, pr_locking = False, cons_buf = (\<lambda>_. 0), cons_r = 0, cons_w = 0, cons_e = 0,
      devsw = (\<lambda>_. \<lparr>dev_read = None, dev_write = None\<rparr>), pipes = ps\<rparr>"

lemma pipesys_of_fields [simp]:
  "mem (pipesys_of s ps) = mem s" "freelist (pipesys_of s ps) = freelist s" "pgref (pipesys_of s ps) = pgref s"
  "kernel_end (pipesys_of s ps) = kernel_end s" "locks (pipesys_of s ps) = locks s" "tp (pipesys_of s ps) = tp s"
  "harts (pipesys_of s ps) = harts s" "cpus (pipesys_of s ps) = cpus s" "procs (pipesys_of s ps) = procs s"
  "pipes (pipesys_of s ps) = ps"
  by (simp_all add: pipesys_of_def ptable.defs)

text \<open>A process with a writable page and a pipe whose counters are about to wrap around.\<close>

definition wrapping_pipe :: "u8 list \<Rightarrow> pipe" where
  "wrapping_pipe bs = fold push_byte bs \<lparr>pdata = \<lambda>_. 0, nread = 0xFFFFFFFE, nwrite = 0xFFFFFFFE, readopen = True, writeopen = True\<rparr>"

lemma wrapping_pipe:
  assumes "length bs \<le> PIPESIZE"
  shows "pipe_bytes (wrapping_pipe bs) = bs" "readopen (wrapping_pipe bs)"
proof -
  show "pipe_bytes (wrapping_pipe bs) = bs"
    unfolding wrapping_pipe_def using pq.enq_all [of "\<lparr>pdata = \<lambda>_. 0, nread = 0xFFFFFFFE, nwrite = 0xFFFFFFFE, readopen = True, writeopen = True\<rparr>" bs]
      assms by (simp add: pipe_bytes_def)
  have "readopen (fold push_byte bs p) = readopen p" for p by (induction bs arbitrary: p) simp_all
  then show "readopen (wrapping_pipe bs)" by (simp add: wrapping_pipe_def)
qed

lemma pipe_machine:
  "\<exists>(s :: pipesys) R r. running R (\<lambda>_. 0) 0 r s \<and> writable (pt s r 0) \<and> killed (procs s 0) = 0 \<and> pipes s = (\<lambda>_. wrapping_pipe bs)"
proof -
  obtain s :: ptable and R r where s: "running R (\<lambda>_. 0) 0 r s" "writable (pt s r 0)" "killed (procs s 0) = 0"
    using running_machine by blast
  let ?t = "pipesys_of s (\<lambda>_. wrapping_pipe bs)"
  have "running R (\<lambda>_. 0) 0 r ?t" using s(1) by (rule running_transfer) simp_all
  moreover have "pt ?t r 0 = pt s r 0" by (simp add: pt_def)
  ultimately show ?thesis using s(2,3) by (intro exI [of _ ?t] exI [of _ R] exI [of _ r]) simp
qed

section \<open>Properties\<close>

text \<open>
  C11. A write to a pipe with room appends bytes of the caller's memory to the queue and returns their number;
  memory is not changed. It stops early only at the first byte that is not mapped for the caller. The counters
  may wrap around.
\<close>

theorem pipewrite_appends:
  assumes "running R ext i r s" "readopen (pipes s pi)" "killed (procs s i) = 0" "reads s r addr bs" "length bs \<le> k"
    "length bs < k \<Longrightarrow> user_byte s r (addr + of_nat (length bs)) = None" "length (pipe_bytes (pipes s pi)) + k \<le> PIPESIZE"
  shows "\<exists>t. pipewrite pi addr (int k) s = Ok (int (length bs)) t \<and> running R ext i r t \<and>
    pipe_bytes (pipes t pi) = pipe_bytes (pipes s pi) @ bs \<and> (\<forall>pj. pj \<noteq> pi \<longrightarrow> pipes t pj = pipes s pj) \<and> user_byte t = user_byte s"
  using pipewrite_run [OF assms(1-6)] assms(5,7) pq.enq_all [of "pipes s pi" bs] by fastforce

theorem pipewrite_appends_witness:
  "\<exists>(s :: pipesys) t bs. length bs = 3 \<and> pipe_bytes (pipes s 0x87000000) = [1, 2] \<and> pipewrite 0x87000000 0 3 s = Ok 3 t \<and>
    pipe_bytes (pipes t 0x87000000) = [1, 2] @ bs"
proof -
  obtain s :: pipesys and R r where s: "running R (\<lambda>_. 0) 0 r s" "writable (pt s r 0)" "killed (procs s 0) = 0" "pipes s = (\<lambda>_. wrapping_pipe [1, 2])"
    using pipe_machine by blast
  obtain bs where b: "length bs = 3" "reads s r 0 bs" using page0_reads [OF s(1,2), of 3] by auto
  have w: "pipe_bytes (wrapping_pipe [1, 2]) = [1, 2]" "readopen (wrapping_pipe [1, 2])"
    using wrapping_pipe [of "[1, 2]"] by (simp_all add: PIPESIZE_def)
  obtain t where "pipewrite 0x87000000 0 (int 3) s = Ok (int (length bs)) t" "pipe_bytes (pipes t 0x87000000) = [1, 2] @ bs"
    using pipewrite_appends [OF s(1), of "0x87000000" 0 bs 3] s(3,4) w b by (auto simp: PIPESIZE_def)
  then show ?thesis using b(1) s(4) w(1) by (intro exI [of _ s] exI [of _ t] exI [of _ bs]) simp
qed

text \<open>
  C12. A read from a pipe takes bytes from the front of the queue, in the order they were written, to the caller's
  memory: as many as are wanted and there, none when the queue is empty and no writer is left. No other byte of
  memory changes.
\<close>

theorem piperead_takes_front:
  assumes "running R ext i r s" "pipe_bytes (pipes s pi) \<noteq> [] \<or> \<not> writeopen (pipes s pi)" "m = min k (length (pipe_bytes (pipes s pi)))"
    "m < 2 ^ 64" "\<And>x. x < m \<Longrightarrow> writable (pt s r (PGROUNDDOWN (addr + of_nat x)))"
  shows "\<exists>t. piperead pi addr (int k) s = Ok (int m) t \<and> running R ext i r t \<and>
    pipe_bytes (pipes t pi) = drop m (pipe_bytes (pipes s pi)) \<and> (\<forall>pj. pj \<noteq> pi \<longrightarrow> pipes t pj = pipes s pj) \<and>
    (\<forall>r'\<in>R - {r}. user_byte t r' = user_byte s r') \<and>
    user_byte t r = put (user_byte s r) addr (take m (pipe_bytes (pipes s pi)))"
proof -
  obtain t where t: "piperead pi addr (int k) s = Ok (int m) t" "running R ext i r t" "pipes t = (pipes s)(pi := (pop_byte ^^ m) (pipes s pi))"
    "\<forall>r'\<in>R - {r}. user_byte t r' = user_byte s r'" "user_byte t r = put (user_byte s r) addr (take m (pipe_bytes (pipes s pi)))"
    using piperead_run [OF assms] by blast
  note e = pq.deq_all [of m "pipes s pi"]
  have "drop m (pipe_bytes (pipes s pi)) = pipe_bytes (pipes t pi)" by (subst e) (simp_all add: assms(3) t(3))
  then show ?thesis using t by auto
qed

theorem piperead_takes_front_witness:
  "\<exists>(s :: pipesys) t r. pipe_bytes (pipes s 0x87000000) = [1, 2, 3] \<and> piperead 0x87000000 8 2 s = Ok 2 t \<and>
    pipe_bytes (pipes t 0x87000000) = [3] \<and> user_byte t r 8 = Some 1 \<and> user_byte t r 9 = Some 2"
proof -
  obtain s :: pipesys and R r where s: "running R (\<lambda>_. 0) 0 r s" "writable (pt s r 0)" "pipes s = (\<lambda>_. wrapping_pipe [1, 2, 3])"
    using pipe_machine by blast
  have w: "pipe_bytes (wrapping_pipe [1, 2, 3]) = [1, 2, 3]" using wrapping_pipe(1) [of "[1, 2, 3]"] by (simp add: PIPESIZE_def)
  have pg: "PGROUNDDOWN (8 + of_nat x) = 0" if "x < 2" for x using that by (auto simp: less_2_cases_iff PGROUNDDOWN_def PGSIZE_def)
  obtain t where t: "piperead 0x87000000 8 (int 2) s = Ok (int 2) t" "pipe_bytes (pipes t 0x87000000) = drop 2 [1, 2, 3]"
    "user_byte t r = put (user_byte s r) 8 (take 2 [1, 2, 3])"
    using piperead_takes_front [OF s(1), of "0x87000000" 2 2 8] s(2,3) w pg by auto
  then show ?thesis using s(3) w by (intro exI [of _ s] exI [of _ t] exI [of _ r]) (simp add: put_def off_def)
qed

end
