(* ===== verification/Transaction.thy ===== *)
theory Transaction
  imports Fs Logwrite
begin

text \<open>
  What the file system of \<^verbatim>\<open>kernel/fs.c\<close> relies on inside a transaction: it reads blocks,
  changes and logs them, and releases them. The contract is a locale; the buffer cache and the log
  together keep it.
\<close>

section \<open>The contract\<close>

text \<open>
  \<open>rel H m v s\<close>: the caller holds the blocks \<open>dom H\<close> in the buffers \<open>H n\<close> and may log
  \<open>m\<close> more blocks; \<open>v\<close> are the contents of the blocks as the running operations see them.
  At most two blocks are held when another is read.
\<close>

locale transaction =
  fixes rel :: "(nat \<rightharpoonup> nat) \<Rightarrow> nat \<Rightarrow> blocks \<Rightarrow> 's \<Rightarrow> bool"
    and same :: "'s \<Rightarrow> 's \<Rightarrow> bool"
    and rd :: "nat \<Rightarrow> ('s, nat) routine"
    and contents :: "nat \<Rightarrow> 's \<Rightarrow> u8 list"
    and upd :: "nat \<Rightarrow> (u8 list \<Rightarrow> u8 list) \<Rightarrow> ('s, unit) routine"
    and rl :: "nat \<Rightarrow> ('s, unit) routine"
  assumes same_trans: "same s t \<Longrightarrow> same t u \<Longrightarrow> same s u"
    and rd_ok: "rel H m v s \<Longrightarrow> H n = None \<Longrightarrow> n < 2 ^ 32 \<Longrightarrow> card (dom H) \<le> 2 \<Longrightarrow>
      \<exists>b t. rd n s = Ok b t \<and> rel (H(n \<mapsto> b)) m v t \<and> same s t"
    and look: "rel H m v s \<Longrightarrow> H n = Some b \<Longrightarrow> contents b s = v n"
    and upd_ok: "rel H (Suc m) v s \<Longrightarrow> H n = Some b \<Longrightarrow>
      \<exists>t. upd b f s = Ok () t \<and> rel H m (v(n := f (v n))) t \<and> same s t"
    and rl_ok: "rel H m v s \<Longrightarrow> H n = Some b \<Longrightarrow> \<exists>t. rl b s = Ok () t \<and> rel (H(n := None)) m v t \<and> same s t"
    and fewer: "rel H m v s \<Longrightarrow> k \<le> m \<Longrightarrow> rel H k v s"
begin

text \<open>A block that is read, changed, logged and released.\<close>

lemma update:
  assumes "rel H (Suc m) v s" "H n = None" "n < 2 ^ 32" "card (dom H) \<le> 2"
  shows "\<exists>t. bind (rd n) (\<lambda>b. sq (upd b f) (rl b)) s = Ok () t \<and> rel H m (v(n := f (v n))) t \<and> same s t"
proof -
  obtain b t1 where 1: "rd n s = Ok b t1" "rel (H(n \<mapsto> b)) (Suc m) v t1" "same s t1" using rd_ok [OF assms] by blast
  obtain t2 where 2: "upd b f t1 = Ok () t2" "rel (H(n \<mapsto> b)) m (v(n := f (v n))) t2" "same t1 t2"
    using upd_ok [OF 1(2), of n b f] by auto
  obtain t3 where 3: "rl b t2 = Ok () t3" "rel ((H(n \<mapsto> b))(n := None)) m (v(n := f (v n))) t3" "same t2 t3"
    using rl_ok [OF 2(2), of n b] by auto
  have "(H(n \<mapsto> b))(n := None) = H" using assms(2) by auto
  moreover have "same s t3" using same_trans [OF same_trans [OF 1(3) 2(3)] 3(3)] .
  ultimately show ?thesis using 1(1) 2(1) 3 by auto
qed

text \<open>A block that is read and released.\<close>

lemma glance:
  assumes "rel H m v s" "H n = None" "n < 2 ^ 32" "card (dom H) \<le> 2"
  shows "\<exists>b t u. rd n s = Ok b t \<and> contents b t = v n \<and> rl b t = Ok () u \<and> rel H m v u \<and> same s u \<and>
    rel (H(n \<mapsto> b)) m v t \<and> same s t"
proof -
  obtain b t where 1: "rd n s = Ok b t" "rel (H(n \<mapsto> b)) m v t" "same s t" using rd_ok [OF assms] by blast
  obtain u where 2: "rl b t = Ok () u" "rel ((H(n \<mapsto> b))(n := None)) m v u" "same t u" using rl_ok [OF 1(2), of n b] by auto
  have "(H(n \<mapsto> b))(n := None) = H" using assms(2) by auto
  then show ?thesis using 1 2 look [OF 1(2), of n b] same_trans [OF 1(3) 2(3)] by auto
qed

end

section \<open>The cache and the log keep it\<close>

definition txn :: "(nat \<rightharpoonup> nat) \<Rightarrow> nat \<Rightarrow> blocks \<Rightarrow> 'z logsys_scheme \<Rightarrow> bool" where
  "txn H m v s \<longleftrightarrow> (\<exists>bs. cache H (set bs) v s \<and> lists_blocks (log_lh s) bs \<and> distinct bs \<and> 1 \<le> log_outstanding s \<and>
     length bs + m + 3 \<le> NBUF \<and> int (length bs + m) < log_size s \<and> (\<forall>n\<in>dom H. n \<in> set bs \<or> v n = disk s n))"

definition log_update :: "nat \<Rightarrow> (u8 list \<Rightarrow> u8 list) \<Rightarrow> ('z logsys_scheme, unit) routine" where
  "log_update b f = sq (upd_data b f) (log_write b)"

lemma txn_read:
  assumes "txn H m v s" "H n = None" "n < 2 ^ 32" "card (dom H) \<le> 2"
  shows "\<exists>b t. bread ROOTDEV (of_nat n) s = Ok b t \<and> txn (H(n \<mapsto> b)) m v t \<and> only_log s t"
proof -
  obtain bs where c: "cache H (set bs) v s" and l: "lists_blocks (log_lh s) bs" "distinct bs" "1 \<le> log_outstanding s"
    "length bs + m + 3 \<le> NBUF" "int (length bs + m) < log_size s" "\<forall>n\<in>dom H. n \<in> set bs \<or> v n = disk s n"
    using assms(1) by (auto simp: txn_def)
  have "card (set bs \<union> dom H) \<le> card (set bs) + card (dom H)" by (rule card_Un_le)
  then have "card (set bs \<union> dom H) < NBUF" using l(4) assms(4) card_length [of bs] by linarith
  then obtain b t where t: "bread ROOTDEV (of_nat n) s = Ok b t" "cache (H(n \<mapsto> b)) (set bs) v t" "only_cache s t" "disk t = disk s"
    using bc.rd_ok [OF c assms(2,3)] by blast
  note f = only_cache_log [OF t(3)]
  have "n \<in> set bs \<or> v n = disk s n" using bc.clean [OF c] assms(2) by blast
  then have "txn (H(n \<mapsto> b)) m v t" unfolding txn_def using t(2,4) f l by (intro exI [of _ bs]) auto
  then show ?thesis using t(1) only_cache_only_log [OF t(3)] by blast
qed

lemma txn_update:
  assumes "txn H (Suc m) v s" "H n = Some b"
  shows "\<exists>t. log_update b f s = Ok () t \<and> txn H m (v(n := f (v n))) t \<and> only_log s t"
proof -
  obtain bs where c: "cache H (set bs) v s" and l: "lists_blocks (log_lh s) bs" "distinct bs" "1 \<le> log_outstanding s"
    "length bs + Suc m + 3 \<le> NBUF" "int (length bs + Suc m) < log_size s" "\<forall>n\<in>dom H. n \<in> set bs \<or> v n = disk s n"
    using assms(1) by (auto simp: txn_def)
  have d: "bdata (bufs s b) = v n" by (rule bc.look [OF c assms(2)])
  obtain t where t: "put_data b (f (v n)) s = Ok () t" "cache H (set bs) (v(n := f (v n))) t" "only_cache s t"
    "disk_writes t = disk_writes s" "disk t = disk s" using bc.modified [OF c assms(2), of "f (v n)"] by blast
  note fr = only_cache_log [OF t(3)]
  have "1 \<le> log_outstanding t" "length bs < LOGSIZE" "int (length bs) < log_size t - 1"
    using l(3-5) fr by (simp_all add: NBUF_def LOGSIZE_def)
  then obtain u where u: "log_write b t = Ok () u" "cache H (insert n (set bs)) (v(n := f (v n))) u" "only_log t u"
    "lists_blocks (log_lh u) (absorb bs n)" "disk_writes u = disk_writes t"
    using log_write_law [OF t(2) assms(2), of] l(1) fr by auto
  have run: "log_update b f s = Ok () u"
    using t(1) u(1) d by (simp add: log_update_def upd_data_def upd_data_put)
  have o: "only_log s u" by (rule only_log_step [OF t(3) u(3)])
  have "disk u = disk s" using disk_after [OF u(3), of "[]"] u(5) t(5) by simp
  moreover have "set (absorb bs n) = insert n (set bs)" "distinct (absorb bs n)" using l(2) by (auto simp: absorb_def)
  moreover have "length (absorb bs n) \<le> Suc (length bs)" by (simp add: absorb_def)
  moreover have "log_outstanding u = log_outstanding s" "log_size u = log_size s"
    using only_cache_log [OF o [unfolded only_log_def]] by simp_all
  ultimately have "txn H m (v(n := f (v n))) u"
    unfolding txn_def using u(2,4) l(3-6) by (intro exI [of _ "absorb bs n"]) auto
  then show ?thesis using run o by blast
qed

lemma txn_release:
  assumes "txn H m v s" "H n = Some b"
  shows "\<exists>t. brelse b s = Ok () t \<and> txn (H(n := None)) m v t \<and> only_log s t"
proof -
  obtain bs where c: "cache H (set bs) v s" and l: "lists_blocks (log_lh s) bs" "distinct bs" "1 \<le> log_outstanding s"
    "length bs + m + 3 \<le> NBUF" "int (length bs + m) < log_size s" "\<forall>n\<in>dom H. n \<in> set bs \<or> v n = disk s n"
    using assms(1) by (auto simp: txn_def)
  have "n \<in> set bs \<or> v n = disk s n" using l(6) assms(2) by blast
  then obtain t where t: "brelse b s = Ok () t" "cache (H(n := None)) (set bs) v t" "only_cache s t" "disk t = disk s"
    using bc.rl_ok [OF c assms(2)] by blast
  have "txn (H(n := None)) m v t"
    unfolding txn_def using t(2,4) only_cache_log [OF t(3)] l by (intro exI [of _ bs]) auto
  then show ?thesis using t(1) only_cache_only_log [OF t(3)] by blast
qed

lemma txn_fewer: "txn H m v s \<Longrightarrow> k \<le> m \<Longrightarrow> txn H k v s"
  unfolding txn_def by (elim exE, rule exI) auto

interpretation tx: transaction txn only_log "\<lambda>n. bread ROOTDEV (of_nat n)" "\<lambda>b s. bdata (bufs s b)" log_update brelse
proof
  show "only_log s t \<Longrightarrow> only_log t u \<Longrightarrow> only_log s u" for s t u :: "'a logsys_scheme" by (rule only_log_trans)
  show "txn H m v s \<Longrightarrow> H n = Some b \<Longrightarrow> bdata (bufs s b) = v n" for H m v n b and s :: "'a logsys_scheme"
    by (auto simp: txn_def intro: bc.look)
qed (fact txn_read txn_update txn_release txn_fewer)+

section \<open>The state of the file system\<close>

lemma fsys_settle [simp, frame_simps]: "sb (settle s) = sb s" "inodes (settle s) = inodes s"
  by (simp_all add: settle_def)

lemma only_log_get:
  assumes "only_log s t" "\<And>x. g (settle x) = g x" "\<And>x p. g (x\<lparr>procs := p\<rparr>) = g x" "\<And>x f. g (x\<lparr>bufs := f\<rparr>) = g x"
    "\<And>x f. g (x\<lparr>sleeplks := f\<rparr>) = g x" "\<And>x f. g (x\<lparr>disk_writes := f\<rparr>) = g x" "\<And>x f. g (x\<lparr>log_lh := f\<rparr>) = g x"
  shows "g t = g s"
  using calm_get [OF assms(1) [unfolded only_log_def only_cache_def] assms(2,3)] assms(4-7) by simp

lemma only_log_fsys:
  assumes "only_log s t"
  shows "sb t = sb s" "inodes t = inodes s"
  by (rule only_log_get [OF assms]; simp)+

lemma only_log_refl [simp]: "only_log s s"
  using only_log_upd [of s "log_lh s"] by simp

lemma cache_fsys [simp]: "cache H P v (s\<lparr>sb := a\<rparr>) = cache H P v s" "cache H P v (s\<lparr>inodes := f\<rparr>) = cache H P v s"
  by (simp_all add: cache_def uses_ok_def use_ok_def blocks_ok_def disk_def sys_ok_def cpu_ok_def mycpu_def intr_get_def
      lock_free_def curpid_def)

lemma txn_fsys [simp]: "txn H m v (s\<lparr>inodes := f\<rparr>) = txn H m v s"
  by (simp add: txn_def disk_def)

text \<open>A file system in the middle of a transaction, on any disk contents, as \<^verbatim>\<open>binit\<close> leaves the cache.\<close>

definition fsys0 :: "blocks \<Rightarrow> fsys" where
  "fsys0 d = logsys.extend (logsys0 d)
     \<lparr>sb = \<lparr>sb_magic = FSMAGIC, sb_size = 0, sb_nblocks = 0, sb_ninodes = 0, sb_nlog = 0, sb_logstart = 0, sb_inodestart = 0, sb_bmapstart = 0\<rparr>,
      inodes = (\<lambda>_. \<lparr>idev = 0, inum = 0, iref = 0, ivalid = False, itype = 0, imajor = 0, iminor = 0, inlink = 0, isize = 0, iaddrs = []\<rparr>)\<rparr>"

lemma some_fs:
  fixes sp :: superblock and f :: "nat \<Rightarrow> inode"
  obtains s :: fsys where "txn Map.empty 25 d s" "sb s = sp" "inodes s = f"
proof -
  have s: "bufs (fsys0 d) = (\<lambda>_. buf0)" "disk (fsys0 d) = d" "sys_ok (fsys0 d)"
    by (simp_all add: fsys0_def logsys.defs logsys0_def bcache.defs bcache0_def sleepers.defs ptable.defs kmem.defs machine.defs ptable0_def
      machine0_def disk_def after_writes_def sys_ok_def cpu_ok_def mycpu_def lock_free_def)
  obtain t where t: "binit (fsys0 d) = Ok () t" "cache Map.empty {} d t"
    using binit_law [of "fsys0 d"] s by (auto simp: buf0_def ROOTDEV_def)
  let ?s = "t\<lparr>log_start := 2, log_size := 30, log_outstanding := 1, log_dev := ROOTDEV, log_lh := \<lparr>lh_n = 0, lh_block = \<lambda>_. 0\<rparr>, sb := sp, inodes := f\<rparr>"
  have c: "cache Map.empty {} d ?s" using t(2) by simp
  have "txn Map.empty 25 d ?s" unfolding txn_def using c by (intro exI [of _ "[]"]) (auto simp: lists_blocks_def NBUF_def MAXOPBLOCKS_def)
  then show thesis by (intro that [of ?s]) simp_all
qed

end
