(* ===== verification/Balloc.thy ===== *)
theory Balloc
  imports Transaction
begin

text \<open>
  Allocation of disk blocks, \<^verbatim>\<open>balloc\<close>, \<^verbatim>\<open>bfree\<close> and \<^verbatim>\<open>bzero\<close> of
  \<^verbatim>\<open>kernel/fs.c\<close>, on the contract of a transaction. A block is in use when its bit in the
  bitmap is set.
\<close>

section \<open>Bits\<close>

lemma bit_clear_iff: "bit_clear d i \<longleftrightarrow> \<not> bit (byte_at d (i div 8)) (i mod 8)"
  by (simp add: bit_clear_def bit_iff_and_push_bit_not_eq_0)

lemma bit_clear_mark:
  assumes "i < 8 * length d"
  shows "bit_clear (mark_bit i d) j \<longleftrightarrow> bit_clear d j \<and> j \<noteq> i"
proof -
  have "i = j \<longleftrightarrow> i div 8 = j div 8 \<and> i mod 8 = j mod 8" by (metis div_mult_mod_eq)
  moreover have "i div 8 < length d" using assms by (simp add: less_mult_imp_div_less mult.commute)
  ultimately show ?thesis
    by (auto simp: bit_clear_iff mark_bit_def byte_at_update bit_simps)
qed

lemma bit_clear_clear:
  assumes "i < 8 * length d"
  shows "bit_clear (clear_bit i d) j \<longleftrightarrow> bit_clear d j \<or> j = i"
proof -
  have "i = j \<longleftrightarrow> i div 8 = j div 8 \<and> i mod 8 = j mod 8" by (metis div_mult_mod_eq)
  moreover have "i div 8 < length d" using assms by (simp add: less_mult_imp_div_less mult.commute)
  moreover have "j mod 8 < 8" by simp
  ultimately show ?thesis
    by (auto simp: bit_clear_iff clear_bit_def byte_at_update bit_simps)
qed

lemma length_mark [simp]: "length (mark_bit i d) = length d" "length (clear_bit i d) = length d"
  by (simp_all add: mark_bit_def clear_bit_def)

section \<open>The bitmap\<close>

definition map_block :: "superblock \<Rightarrow> nat \<Rightarrow> nat" where
  "map_block sp b = unat (sb_bmapstart sp) + b div BPB"

definition used :: "superblock \<Rightarrow> blocks \<Rightarrow> nat \<Rightarrow> bool" where
  "used sp v b \<longleftrightarrow> \<not> bit_clear (v (map_block sp b)) (b mod BPB)"

text \<open>The bitmap lies within the disk, and its blocks and block 0 are themselves in use.\<close>

definition bitmap_ok :: "superblock \<Rightarrow> blocks \<Rightarrow> bool" where
  "bitmap_ok sp v \<longleftrightarrow> used sp v 0 \<and>
     (\<forall>b<unat (sb_size sp). map_block sp b < unat (sb_size sp) \<and> length (v (map_block sp b)) = BSIZE \<and> used sp v (map_block sp b))"

lemma BPB_pos: "0 < BPB" "BPB = 8 * BSIZE"
  by (simp_all add: BPB_def BSIZE_def)

lemma BBLOCK_map:
  assumes "map_block sp b < unat (sb_size sp)" "b < 2 ^ 32"
  shows "BBLOCK (of_nat b) sp = of_nat (map_block sp b)"
  using assms(2) by (simp add: BBLOCK_def map_block_def unat_of_nat take_bit_nat_eq_self)

lemma bitmap_block:
  assumes "bitmap_ok sp v" "b < unat (sb_size sp)"
  shows "map_block sp b < 2 ^ 32" "length (v (map_block sp b)) = BSIZE" "used sp v (map_block sp b)"
    "BBLOCK (of_nat b) sp = of_nat (map_block sp b)" "map_block sp b < unat (sb_size sp)"
proof -
  have s: "unat (sb_size sp) < 2 ^ 32" using unsigned_less [of "sb_size sp", where ?'a = nat] by simp
  show m: "map_block sp b < unat (sb_size sp)" "length (v (map_block sp b)) = BSIZE" "used sp v (map_block sp b)"
    using assms by (simp_all add: bitmap_ok_def)
  then show "map_block sp b < 2 ^ 32" using s by simp
  show "BBLOCK (of_nat b) sp = of_nat (map_block sp b)" using BBLOCK_map [OF m(1)] assms(2) s by simp
qed

text \<open>What marking a block as used does to the bitmap.\<close>

definition allot :: "superblock \<Rightarrow> nat \<Rightarrow> blocks \<Rightarrow> blocks" where
  "allot sp b v = v(map_block sp b := mark_bit (b mod BPB) (v (map_block sp b)), b := replicate BSIZE 0)"

definition unallot :: "superblock \<Rightarrow> nat \<Rightarrow> blocks \<Rightarrow> blocks" where
  "unallot sp b v = v(map_block sp b := clear_bit (b mod BPB) (v (map_block sp b)))"

lemma used_allot:
  assumes "bitmap_ok sp v" "b < unat (sb_size sp)" "\<not> used sp v b" "x < unat (sb_size sp)"
  shows "used sp (allot sp b v) x \<longleftrightarrow> used sp v x \<or> x = b"
proof -
  have nb: "map_block sp x \<noteq> b" using bitmap_block(3) [OF assms(1,4)] assms(3) by auto
  have l: "b mod BPB < 8 * length (v (map_block sp b))" using bitmap_block(2) [OF assms(1,2)] BPB_pos by simp
  have "x = b \<longleftrightarrow> map_block sp x = map_block sp b \<and> x mod BPB = b mod BPB"
    by (auto simp: map_block_def) (metis div_mult_mod_eq)
  then show ?thesis using nb by (auto simp: used_def allot_def bit_clear_mark [OF l])
qed

lemma bitmap_allot:
  assumes "bitmap_ok sp v" "b < unat (sb_size sp)" "\<not> used sp v b"
  shows "bitmap_ok sp (allot sp b v)"
proof -
  have "0 < unat (sb_size sp)" using assms(2) by simp
  moreover have "length (allot sp b v (map_block sp x)) = BSIZE" if "x < unat (sb_size sp)" for x
    using bitmap_block(2) [OF assms(1) that] bitmap_block(2) [OF assms(1,2)] by (simp add: allot_def)
  ultimately show ?thesis
    using assms(1) bitmap_block(3,5) [OF assms(1)] used_allot [OF assms] by (auto simp: bitmap_ok_def)
qed

lemma used_unallot:
  assumes "bitmap_ok sp v" "b < unat (sb_size sp)" "x < unat (sb_size sp)"
  shows "used sp (unallot sp b v) x \<longleftrightarrow> used sp v x \<and> x \<noteq> b"
proof -
  have l: "b mod BPB < 8 * length (v (map_block sp b))" using bitmap_block(2) [OF assms(1,2)] BPB_pos by simp
  have "x = b \<longleftrightarrow> map_block sp x = map_block sp b \<and> x mod BPB = b mod BPB"
    by (auto simp: map_block_def) (metis div_mult_mod_eq)
  then show ?thesis by (auto simp: used_def unallot_def bit_clear_clear [OF l])
qed

lemma bitmap_unallot:
  assumes "bitmap_ok sp v" "b < unat (sb_size sp)" "b \<noteq> 0" "b \<notin> map_block sp ` {..<unat (sb_size sp)}"
  shows "bitmap_ok sp (unallot sp b v)"
proof -
  have "length (unallot sp b v (map_block sp x)) = BSIZE" if "x < unat (sb_size sp)" for x
    using bitmap_block(2) [OF assms(1) that] bitmap_block(2) [OF assms(1,2)] by (simp add: unallot_def)
  moreover have "map_block sp x \<noteq> b" if "x < unat (sb_size sp)" for x using assms(4) that by auto
  ultimately show ?thesis
    using assms(1-3) bitmap_block(3,5) [OF assms(1)] used_unallot [OF assms(1,2)] by (auto simp: bitmap_ok_def)
qed

section \<open>The routines\<close>

lemma free_bit_Some:
  assumes "free_bit d b n = Some i"
  shows "i < BPB" "b + i < n" "bit_clear d i"
  using assms by (auto simp: free_bit_def find_Some_iff)

lemma free_bit_None: "free_bit d b n = None \<longleftrightarrow> (\<forall>i<BPB. b + i < n \<longrightarrow> \<not> bit_clear d i)"
  by (auto simp: free_bit_def find_None_iff)

lemma bzero_run:
  assumes "txn H (Suc m) v s" "H n = None" "n < 2 ^ 32" "card (dom H) \<le> 2"
  shows "\<exists>t. bzero ROOTDEV (of_nat n) s = Ok () t \<and> txn H m (v(n := replicate BSIZE 0)) t \<and> only_log s t"
  using tx.update [OF assms, of "\<lambda>_. replicate BSIZE 0"]
  by (simp add: bzero_def log_update_def sq_def bind_assoc)

text \<open>One block of the bitmap, seen from the first block number that it covers.\<close>

lemma used_in_block:
  assumes "b mod BPB = 0" "i < BPB"
  shows "map_block sp (b + i) = map_block sp b" "(b + i) mod BPB = i"
    "used sp v (b + i) \<longleftrightarrow> \<not> bit_clear (v (map_block sp b)) i"
proof -
  obtain k where k: "b = BPB * k" using assms(1) by auto
  show "map_block sp (b + i) = map_block sp b" "(b + i) mod BPB = i"
    using assms(2) by (simp_all add: map_block_def k)
  then show "used sp v (b + i) \<longleftrightarrow> \<not> bit_clear (v (map_block sp b)) i" by (simp add: used_def)
qed

lemma balloc_found:
  assumes x: "txn H (m + 2) v s" "card (dom H) \<le> 2" "bitmap_ok sp v" "\<forall>n\<in>dom H. n \<notin> map_block sp ` {..<unat (sb_size sp)} \<and> used sp v n"
    and b: "b < unat (sb_size sp)" "b mod BPB = 0" and r: "bread ROOTDEV (of_nat (map_block sp b)) s = Ok bp t"
      "txn (H(map_block sp b \<mapsto> bp)) (m + 2) v t" "only_log s t"
    and f: "free_bit (v (map_block sp b)) b (unat (sb_size sp)) = Some i"
  shows "\<exists>u. sq (upd_data bp (mark_bit i)) (sq (log_write bp) (sq (brelse bp) (sq (bzero ROOTDEV (of_nat (b + i))) (ret (of_nat (b + i) :: u32))))) t
      = Ok (of_nat (b + i)) u \<and> txn H m (allot sp (b + i) v) u \<and> only_log s u"
proof -
  let ?M = "map_block sp b" let ?v = "v(?M := mark_bit i (v ?M))"
  note i = free_bit_Some [OF f] and ub = used_in_block [OF b(2) free_bit_Some(1) [OF f]]
  have nu: "\<not> used sp v (b + i)" using ub(3) i(3) by simp
  have H: "H ?M = None" "H (b + i) = None" using x(4) b(1) nu by auto
  obtain t1 where 1: "log_update bp (mark_bit i) t = Ok () t1" "txn (H(?M \<mapsto> bp)) (Suc m) ?v t1" "only_log t t1"
    using tx.upd_ok [of "H(?M \<mapsto> bp)" "Suc m" v t ?M bp "mark_bit i"] r(2) by auto
  obtain t2 where 2: "brelse bp t1 = Ok () t2" "txn ((H(?M \<mapsto> bp))(?M := None)) (Suc m) ?v t2" "only_log t1 t2"
    using tx.rl_ok [OF 1(2), of ?M bp] by auto
  have "(H(?M \<mapsto> bp))(?M := None) = H" using H(1) by auto
  then have "txn H (Suc m) ?v t2" using 2(2) by simp
  moreover have "b + i < 2 ^ 32" using i(2) unsigned_less [of "sb_size sp", where ?'a = nat] by simp
  ultimately obtain u where 3: "bzero ROOTDEV (of_nat (b + i)) t2 = Ok () u" "txn H m (?v(b + i := replicate BSIZE 0)) u" "only_log t2 u"
    using bzero_run [of H m ?v t2 "b + i"] H(2) x(2) by blast
  have "only_log s u" using only_log_trans [OF only_log_trans [OF only_log_trans [OF r(3) 1(3)] 2(3)] 3(3)] .
  moreover have "allot sp (b + i) v = ?v(b + i := replicate BSIZE 0)" by (simp add: allot_def ub)
  ultimately show ?thesis using 1(1) 2(1) 3(1,2) by (auto simp: log_update_def sq_def bind_def split: outcome.splits)
qed

text \<open>The outcome of an allocation: a free block, now marked and zeroed, or no free block at all.\<close>

definition allocates :: "(nat \<rightharpoonup> nat) \<Rightarrow> nat \<Rightarrow> blocks \<Rightarrow> 'z fsys_scheme \<Rightarrow> u32 \<Rightarrow> 'z fsys_scheme \<Rightarrow> bool" where
  "allocates H m v s r t \<longleftrightarrow> only_log s t \<and>
     ((\<exists>b. r = of_nat b \<and> 0 < b \<and> b < unat (sb_size (sb s)) \<and> \<not> used (sb s) v b \<and> txn H m (allot (sb s) b v) t) \<or>
      (r = 0 \<and> (\<forall>b<unat (sb_size (sb s)). used (sb s) v b) \<and> txn H (m + 2) v t))"

lemma balloc_loop_run:
  assumes "txn H (m + 2) v s" "card (dom H) \<le> 2" "bitmap_ok (sb s) v"
    "\<forall>n\<in>dom H. n \<notin> map_block (sb s) ` {..<unat (sb_size (sb s))} \<and> used (sb s) v n"
    "b mod BPB = 0" "\<forall>x<b. x < unat (sb_size (sb s)) \<longrightarrow> used (sb s) v x" "unat (sb_size (sb s)) \<le> b + n * BPB"
  shows "\<exists>r t. balloc_loop n ROOTDEV b s = Ok r t \<and> allocates H m v s r t"
  using assms
proof (induction n arbitrary: b s)
  case 0
  then show ?case using only_log_refl by (intro exI [of _ 0] exI [of _ s]) (auto simp: balloc_loop.simps [of 0] allocates_def)
next
  case (Suc n)
  let ?sp = "sb s" let ?M = "map_block ?sp b"
  show ?case
  proof (cases "b < unat (sb_size ?sp)")
    case False
    then show ?thesis using Suc.prems(1,6) only_log_refl
      by (intro exI [of _ 0] exI [of _ s]) (auto simp: balloc_loop.simps [of "Suc n"] allocates_def)
  next
    case True
    note M = bitmap_block [OF Suc.prems(3) True]
    have H: "H ?M = None" using Suc.prems(4) True by auto
    obtain bp t u where g: "bread ROOTDEV (of_nat ?M) s = Ok bp t" "bdata (bufs t bp) = v ?M" "brelse bp t = Ok () u"
      "txn H (m + 2) v u" "only_log s u" "txn (H(?M \<mapsto> bp)) (m + 2) v t" "only_log s t"
      using tx.glance [OF Suc.prems(1) H M(1) Suc.prems(2)] by blast
    show ?thesis
    proof (cases "free_bit (v ?M) b (unat (sb_size ?sp))")
      case (Some i)
      note i = free_bit_Some [OF Some]
      have nu: "\<not> used ?sp v (b + i)" using used_in_block(3) [OF Suc.prems(5) i(1)] i(3) by simp
      then have "b + i \<noteq> 0" using Suc.prems(3) by (metis bitmap_ok_def)
      moreover obtain w where "sq (upd_data bp (mark_bit i)) (sq (log_write bp) (sq (brelse bp) (sq (bzero ROOTDEV (of_nat (b + i))) (ret (of_nat (b + i) :: u32))))) t
        = Ok (of_nat (b + i)) w" "txn H m (allot ?sp (b + i) v) w" "only_log s w"
        using balloc_found [OF Suc.prems(1-4) True Suc.prems(5) g(1,6,7) Some] by blast
      ultimately show ?thesis using True i nu g(1,2) M(4) Some
        by (intro exI [of _ "of_nat (b + i)"] exI [of _ w])
           (auto simp: balloc_loop.simps [of "Suc n"] allocates_def data_of_def intro!: exI [of _ "b + i"])
    next
      case None
      note fr = only_log_fsys [OF g(5)]
      have "used ?sp v x" if "x < b + BPB" "x < unat (sb_size ?sp)" for x
        using that Suc.prems(6) None used_in_block(3) [OF Suc.prems(5), of "x - b"]
        by (cases "x < b") (auto simp: free_bit_None)
      then obtain r w where "balloc_loop n ROOTDEV (b + BPB) u = Ok r w" "allocates H m v u r w"
        using Suc.IH [OF g(4) Suc.prems(2), of "b + BPB"] Suc.prems(3-5,7) fr by (auto simp: add.assoc)
      then show ?thesis using True g(1-3,5) M(4) None fr only_log_trans [OF g(5)]
        by (intro exI [of _ r] exI [of _ w]) (auto simp: balloc_loop.simps [of "Suc n"] allocates_def data_of_def)
    qed
  qed
qed

lemma balloc_run:
  assumes "txn H (m + 2) v s" "card (dom H) \<le> 2" "bitmap_ok (sb s) v"
    "\<forall>n\<in>dom H. n \<notin> map_block (sb s) ` {..<unat (sb_size (sb s))} \<and> used (sb s) v n"
  shows "\<exists>r t. balloc ROOTDEV s = Ok r t \<and> allocates H m v s r t"
proof -
  have "unat (sb_size (sb s)) \<le> 0 + (unat (sb_size (sb s)) div BPB + 1) * BPB"
    using BPB_pos(1) by (simp add: dividend_less_div_times less_imp_le add.commute)
  then show ?thesis using balloc_loop_run [OF assms, of 0 "unat (sb_size (sb s)) div BPB + 1"] by (simp add: balloc_def)
qed

lemma bfree_run:
  assumes "txn H (Suc m) v s" "card (dom H) \<le> 2" "bitmap_ok (sb s) v" "b < unat (sb_size (sb s))" "H (map_block (sb s) b) = None"
    "used (sb s) v b"
  shows "\<exists>t. bfree ROOTDEV (of_nat b) s = Ok () t \<and> txn H m (unallot (sb s) b v) t \<and> only_log s t"
proof -
  let ?M = "map_block (sb s) b" let ?i = "b mod BPB"
  note M = bitmap_block [OF assms(3,4)]
  obtain bp t where g: "bread ROOTDEV (of_nat ?M) s = Ok bp t" "txn (H(?M \<mapsto> bp)) (Suc m) v t" "only_log s t"
    using tx.rd_ok [OF assms(1,5) M(1) assms(2)] by blast
  have d: "bdata (bufs t bp) = v ?M" using tx.look [OF g(2), of ?M bp] by simp
  have "unat (of_nat b :: u32) = b" using assms(4) unsigned_less [of "sb_size (sb s)", where ?'a = nat]
    by (simp add: unat_of_nat take_bit_nat_eq_self)
  moreover obtain w where "bind (bread ROOTDEV (of_nat ?M)) (\<lambda>b. sq (log_update b (clear_bit ?i)) (brelse b)) s = Ok () w"
    "txn H m (v(?M := clear_bit ?i (v ?M))) w" "only_log s w"
    using tx.update [OF assms(1,5) M(1) assms(2)] by blast
  ultimately show ?thesis using g(1) d M(4) assms(6)
    by (auto simp: bfree_def unallot_def data_of_def used_def log_update_def sq_def bind_assoc Let_def panic_if_def)
qed

lemma allot_block: "allot sp b v b = replicate BSIZE 0"
  by (simp add: allot_def)

lemma allot_other: "n \<noteq> b \<Longrightarrow> n \<noteq> map_block sp b \<Longrightarrow> allot sp b v n = v n"
  by (simp add: allot_def)

lemma size_word: "b < unat (sb_size sp) \<Longrightarrow> unat (of_nat b :: u32) = b"
  using unsigned_less [of "sb_size sp", where ?'a = nat] by (simp add: unat_of_nat take_bit_nat_eq_self)

text \<open>
  C9. Inside a transaction with room for two more blocks, balloc returns a block that was free and is now in use and
  zero, and changes no other block but the bitmap, in which it changes no other bit; it returns 0, and changes
  nothing, only when every block of the disk is in use.
\<close>

theorem balloc_allocates:
  assumes "txn H (m + 2) v s" "card (dom H) \<le> 2" "bitmap_ok (sb s) v"
    "\<forall>n\<in>dom H. n \<notin> map_block (sb s) ` {..<unat (sb_size (sb s))} \<and> used (sb s) v n"
  shows "\<exists>r t. balloc ROOTDEV s = Ok r t \<and> only_log s t \<and>
    (if \<exists>b<unat (sb_size (sb s)). \<not> used (sb s) v b then
       unat r < unat (sb_size (sb s)) \<and> r \<noteq> 0 \<and> \<not> used (sb s) v (unat r) \<and>
       (\<exists>v'. txn H m v' t \<and> bitmap_ok (sb s) v' \<and> v' (unat r) = replicate BSIZE 0 \<and>
         (\<forall>x<unat (sb_size (sb s)). used (sb s) v' x \<longleftrightarrow> used (sb s) v x \<or> x = unat r) \<and>
         (\<forall>n. n \<noteq> unat r \<longrightarrow> n \<noteq> map_block (sb s) (unat r) \<longrightarrow> v' n = v n))
     else r = 0 \<and> txn H (m + 2) v t)"
proof -
  obtain r t where t: "balloc ROOTDEV s = Ok r t" "only_log s t"
    and a: "(\<exists>b. r = of_nat b \<and> 0 < b \<and> b < unat (sb_size (sb s)) \<and> \<not> used (sb s) v b \<and> txn H m (allot (sb s) b v) t) \<or>
      (r = 0 \<and> (\<forall>b<unat (sb_size (sb s)). used (sb s) v b) \<and> txn H (m + 2) v t)"
    using balloc_run [OF assms] unfolding allocates_def by blast
  show ?thesis
  proof (cases "\<exists>b<unat (sb_size (sb s)). \<not> used (sb s) v b")
    case True
    then obtain b where b: "r = of_nat b" "0 < b" "b < unat (sb_size (sb s))" "\<not> used (sb s) v b" "txn H m (allot (sb s) b v) t"
      using a by blast
    have r: "unat r = b" using b(1) size_word [OF b(3)] by simp
    then have "r \<noteq> 0" using b(2) by auto
    moreover have "bitmap_ok (sb s) (allot (sb s) b v)" by (rule bitmap_allot [OF assms(3) b(3,4)])
    moreover have "\<forall>x<unat (sb_size (sb s)). used (sb s) (allot (sb s) b v) x \<longleftrightarrow> used (sb s) v x \<or> x = b"
      using used_allot [OF assms(3) b(3,4)] by blast
    ultimately show ?thesis using True t b(3-5) r allot_block [of "sb s" b v] allot_other [of _ b "sb s" v]
      by (intro exI [of _ r] exI [of _ t]) auto
  next
    case False
    then show ?thesis using t a by (intro exI [of _ r] exI [of _ t]) auto
  qed
qed

definition small_sb :: superblock where
  "small_sb = \<lparr>sb_magic = FSMAGIC, sb_size = 40, sb_nblocks = 4, sb_ninodes = 16, sb_nlog = 30, sb_logstart = 2, sb_inodestart = 33, sb_bmapstart = 35\<rparr>"

text \<open>A disk on which the blocks below 36 are in use.\<close>

definition small_disk :: blocks where
  "small_disk n = (if n = 35 then replicate 4 255 @ [15] @ replicate (BSIZE - 5) 0 else replicate BSIZE 0)"

lemma small_used: "b < 40 \<Longrightarrow> used small_sb small_disk b \<longleftrightarrow> b < 36"
proof -
  have "[0..<40] = [0, 1, 2, 3, 4, 5, 6, 7, 8, 9, 10, 11, 12, 13, 14, 15, 16, 17, 18, 19, 20, 21, 22, 23, 24, 25, 26, 27, 28, 29, 30, 31, 32, 33,
    34, 35, 36, 37, 38, 39 :: nat]" by code_simp
  then have "\<forall>b\<in>set [0..<40]. used small_sb small_disk b \<longleftrightarrow> b < 36"
    by (simp add: used_def map_block_def small_sb_def small_disk_def BPB_def BSIZE_def bit_clear_def byte_at_def nth_append nth_Cons')
  then show "b < 40 \<Longrightarrow> used small_sb small_disk b \<longleftrightarrow> b < 36" by simp
qed

lemma small_bitmap: "bitmap_ok small_sb small_disk"
proof -
  have "map_block small_sb b = 35" if "b < 40" for b using that by (simp add: map_block_def small_sb_def BPB_def BSIZE_def)
  moreover have "length (small_disk 35) = BSIZE" by (simp add: small_disk_def BSIZE_def)
  moreover have "unat (sb_size small_sb) = 40" by (simp add: small_sb_def)
  ultimately show ?thesis using small_used by (simp add: bitmap_ok_def)
qed

theorem balloc_allocates_witness:
  "\<exists>(s :: fsys) r t. balloc ROOTDEV s = Ok r t \<and> r \<noteq> 0 \<and> used small_sb small_disk 35 \<and> \<not> used small_sb small_disk (unat r)"
proof -
  obtain s :: fsys where s: "txn Map.empty 25 small_disk s" "sb s = small_sb"
    using some_fs [of small_disk small_sb] by blast
  have z: "unat (sb_size small_sb) = 40" by (simp add: small_sb_def)
  have f: "\<exists>b<40. \<not> used small_sb small_disk b" using small_used [of 39] by (intro exI [of _ 39]) simp
  then show ?thesis
    using balloc_allocates [of Map.empty 23 small_disk s] s small_bitmap small_used [of 35] z by auto
qed

end
