(* ===== verification/Filedata.thy ===== *)
theory Filedata
  imports Balloc
begin

text \<open>
  The contents of a file, \<^verbatim>\<open>bmap\<close>, \<^verbatim>\<open>readi\<close> and \<^verbatim>\<open>writei\<close> of \<^verbatim>\<open>kernel/fs.c\<close>. A file is
  abstracted to the function from offsets to bytes that its inode and the blocks of the disk
  represent; a block that is not allocated reads as zeros.
\<close>

section \<open>Blocks of a file\<close>

text \<open>
  The block numbers an inode uses: its data blocks by their index in the file, its indirect
  block, and the block that holds the inode on the disk. A block number 0 is not allocated.
\<close>

definition slot :: "superblock \<Rightarrow> blocks \<Rightarrow> inode \<Rightarrow> nat \<Rightarrow> u32" where
  "slot sp v r k =
     (if k < NDIRECT then iaddrs r ! k
      else if k < MAXFILE then
        (if iaddrs r ! NDIRECT = 0 then 0 else get32 (v (unat (iaddrs r ! NDIRECT))) (4 * (k - NDIRECT)))
      else if k = MAXFILE then iaddrs r ! NDIRECT
      else IBLOCK (inum r) sp)"

definition bitmap_blocks :: "superblock \<Rightarrow> nat set" where
  "bitmap_blocks sp = map_block sp ` {..<unat (sb_size sp)}"

definition owned :: "superblock \<Rightarrow> blocks \<Rightarrow> inode \<Rightarrow> nat set" where
  "owned sp v r = {unat (slot sp v r k) | k. k \<le> MAXFILE + 1 \<and> slot sp v r k \<noteq> 0}"

text \<open>A block of the disk that is in use and not part of the bitmap.\<close>

definition proper :: "superblock \<Rightarrow> blocks \<Rightarrow> nat \<Rightarrow> bool" where
  "proper sp v b \<longleftrightarrow> b < unat (sb_size sp) \<and> used sp v b \<and> b \<notin> bitmap_blocks sp \<and> length (v b) = BSIZE"

definition file_ok :: "superblock \<Rightarrow> blocks \<Rightarrow> inode \<Rightarrow> bool" where
  "file_ok sp v r \<longleftrightarrow> idev r = ROOTDEV \<and> length (iaddrs r) = NDIRECT + 1 \<and> IBLOCK (inum r) sp \<noteq> 0 \<and>
     (\<forall>b\<in>owned sp v r. proper sp v b) \<and>
     (\<forall>j\<le>MAXFILE + 1. \<forall>k\<le>MAXFILE + 1. slot sp v r j = slot sp v r k \<longrightarrow> slot sp v r j \<noteq> 0 \<longrightarrow> j = k)"

definition contents :: "superblock \<Rightarrow> blocks \<Rightarrow> inode \<Rightarrow> nat \<Rightarrow> u8" where
  "contents sp v r i =
     (let a = slot sp v r (i div BSIZE) in if a = 0 \<or> MAXFILE \<le> i div BSIZE then 0 else byte_at (v (unat a)) (i mod BSIZE))"

lemma ownedI: "k \<le> MAXFILE + 1 \<Longrightarrow> slot sp v r k \<noteq> 0 \<Longrightarrow> unat (slot sp v r k) \<in> owned sp v r"
  by (auto simp: owned_def)

lemma ownedE:
  assumes "x \<in> owned sp v r"
  obtains k where "k \<le> MAXFILE + 1" "slot sp v r k \<noteq> 0" "x = unat (slot sp v r k)"
  using assms unfolding owned_def by blast

lemma owned_insert:
  assumes "k \<le> MAXFILE + 1" "c \<noteq> 0" "slot sp v r k = 0"
    and s: "\<And>j. j \<le> MAXFILE + 1 \<Longrightarrow> slot sp v' r' j = (if j = k then c else slot sp v r j)"
  shows "owned sp v' r' = insert (unat c) (owned sp v r)"
proof (intro subset_antisym subsetI)
  fix x
  assume "x \<in> owned sp v' r'"
  then obtain j where j: "j \<le> MAXFILE + 1" "slot sp v' r' j \<noteq> 0" "x = unat (slot sp v' r' j)" by (rule ownedE)
  then show "x \<in> insert (unat c) (owned sp v r)" using s [OF j(1)] ownedI [OF j(1), of sp v r] by (cases "j = k") simp_all
next
  fix x
  assume "x \<in> insert (unat c) (owned sp v r)"
  then consider "x = unat c" | "x \<in> owned sp v r" by blast
  then show "x \<in> owned sp v' r'"
  proof cases
    case 1
    then show ?thesis using ownedI [OF assms(1), of sp v' r'] s [OF assms(1)] assms(2) by simp
  next
    case 2
    then obtain j where j: "j \<le> MAXFILE + 1" "slot sp v r j \<noteq> 0" "x = unat (slot sp v r j)" by (rule ownedE)
    then have "j \<noteq> k" using assms(3) by auto
    then show ?thesis using ownedI [OF j(1), of sp v' r'] s [OF j(1)] j(2,3) by simp
  qed
qed

lemma slotD:
  assumes "file_ok sp v r" "k \<le> MAXFILE + 1" "slot sp v r k \<noteq> 0"
  shows "unat (slot sp v r k) < unat (sb_size sp)" "used sp v (unat (slot sp v r k))" "unat (slot sp v r k) \<notin> bitmap_blocks sp"
    "length (v (unat (slot sp v r k))) = BSIZE" "unat (slot sp v r k) < 2 ^ 32"
    "j \<le> MAXFILE + 1 \<Longrightarrow> slot sp v r j = slot sp v r k \<Longrightarrow> j = k"
proof -
  have "unat (slot sp v r k) \<in> owned sp v r" using assms(2,3) by (auto simp: owned_def)
  then show "unat (slot sp v r k) < unat (sb_size sp)" "used sp v (unat (slot sp v r k))" "unat (slot sp v r k) \<notin> bitmap_blocks sp"
    "length (v (unat (slot sp v r k))) = BSIZE" using assms(1) by (auto simp: file_ok_def proper_def)
  show "unat (slot sp v r k) < 2 ^ 32" using unsigned_less [of "slot sp v r k", where ?'a = nat] by simp
  show "j \<le> MAXFILE + 1 \<Longrightarrow> slot sp v r j = slot sp v r k \<Longrightarrow> j = k" using assms by (auto simp: file_ok_def)
qed

text \<open>
  One step of a file from blocks \<open>v\<close> and inode \<open>r\<close> to \<open>v'\<close> and \<open>r'\<close>: it may take blocks that were
  free, it keeps the blocks it has, every block that it takes becomes part of the file, and it
  leaves alone the blocks in use that are not its own.
\<close>

definition fstep :: "superblock \<Rightarrow> blocks \<Rightarrow> inode \<Rightarrow> blocks \<Rightarrow> inode \<Rightarrow> bool" where
  "fstep sp v r v' r' \<longleftrightarrow> bitmap_ok sp v' \<and> file_ok sp v' r' \<and>
     r' = r\<lparr>iaddrs := iaddrs r', isize := isize r'\<rparr> \<and>
     (\<forall>k\<le>MAXFILE + 1. slot sp v r k \<noteq> 0 \<longrightarrow> slot sp v' r' k = slot sp v r k) \<and>
     (\<forall>x<unat (sb_size sp). used sp v x \<longrightarrow> used sp v' x) \<and>
     (\<forall>x<unat (sb_size sp). used sp v' x \<longrightarrow> used sp v x \<or> x \<in> owned sp v' r') \<and>
     (\<forall>x. x \<in> owned sp v' r' \<longrightarrow> x \<in> owned sp v r \<or> \<not> used sp v x) \<and>
     (\<forall>x. proper sp v x \<longrightarrow> x \<notin> owned sp v r \<longrightarrow> v' x = v x)"

lemma fstep_refl: "bitmap_ok sp v \<Longrightarrow> file_ok sp v r \<Longrightarrow> fstep sp v r v r"
  by (simp add: fstep_def)

lemma fstep_ok:
  assumes "fstep sp v r v' r'"
  shows "bitmap_ok sp v'" "file_ok sp v' r'"
  using assms by (simp_all add: fstep_def)

lemma fstep_trans:
  assumes "fstep sp v r v1 r1" "fstep sp v1 r1 v2 r2"
  shows "fstep sp v r v2 r2"
proof -
  have p: "proper sp v1 x" "x \<notin> owned sp v1 r1" if "proper sp v x" "x \<notin> owned sp v r" for x
    using assms(1) that by (auto simp: fstep_def proper_def)
  have sub: "x \<in> owned sp v2 r2" if "x \<in> owned sp v1 r1" for x
  proof -
    obtain k where k: "k \<le> MAXFILE + 1" "slot sp v1 r1 k \<noteq> 0" "x = unat (slot sp v1 r1 k)" using \<open>x \<in> owned sp v1 r1\<close> by (rule ownedE)
    then have "slot sp v2 r2 k = slot sp v1 r1 k" using assms(2) by (simp add: fstep_def)
    then show ?thesis using k ownedI [OF k(1), of sp v2 r2] by simp
  qed
  have "used sp v x \<or> x \<in> owned sp v2 r2" if "x < unat (sb_size sp)" "used sp v2 x" for x
    using assms that sub unfolding fstep_def by blast
  moreover have "x \<in> owned sp v r \<or> \<not> used sp v x" if "x \<in> owned sp v2 r2" for x
  proof -
    have "x < unat (sb_size sp)" using assms(2) that by (auto simp: fstep_def file_ok_def proper_def)
    then show ?thesis using assms that unfolding fstep_def by blast
  qed
  moreover have "v2 x = v x" if "proper sp v x" "x \<notin> owned sp v r" for x
    using p [OF that] that assms by (simp add: fstep_def)
  moreover have "r2 = r\<lparr>iaddrs := iaddrs r2, isize := isize r2\<rparr>"
  proof -
    have "r1 = r\<lparr>iaddrs := iaddrs r1, isize := isize r1\<rparr>" "r2 = r1\<lparr>iaddrs := iaddrs r2, isize := isize r2\<rparr>"
      using assms by (simp_all add: fstep_def)
    then show ?thesis by (cases r, cases r1, cases r2) simp
  qed
  ultimately show ?thesis using assms unfolding fstep_def by simp
qed

text \<open>A file that takes one free block, zeroed, into its slot \<open>k\<close>.\<close>

lemma proper_allot:
  assumes "bitmap_ok sp v" "b < unat (sb_size sp)" "\<not> used sp v b" "proper sp v x"
  shows "proper sp (allot sp b v) x" "allot sp b v x = v x" "x \<noteq> b"
proof -
  show n: "x \<noteq> b" using assms(3,4) by (auto simp: proper_def)
  have "x \<noteq> map_block sp b" using assms(2,4) by (auto simp: proper_def bitmap_blocks_def)
  then show e: "allot sp b v x = v x" using allot_other [OF n] by blast
  show "proper sp (allot sp b v) x" using assms(4) e used_allot [OF assms(1-3), of x] by (simp add: proper_def)
qed

lemma fresh_proper:
  assumes "bitmap_ok sp v" "b < unat (sb_size sp)" "\<not> used sp v b"
  shows "proper sp (allot sp b v) b"
proof -
  have "b \<notin> bitmap_blocks sp" using assms(3) bitmap_block(3) [OF assms(1)] by (auto simp: bitmap_blocks_def)
  then show ?thesis using assms(2) used_allot [OF assms, of b] by (simp add: proper_def allot_block)
qed

lemma bitmap_cong:
  assumes "\<forall>x\<in>bitmap_blocks sp. v' x = v x"
  shows "x < unat (sb_size sp) \<Longrightarrow> used sp v' x = used sp v x" "0 < unat (sb_size sp) \<Longrightarrow> bitmap_ok sp v \<Longrightarrow> bitmap_ok sp v'"
proof -
  have e: "v' (map_block sp x) = v (map_block sp x)" if "x < unat (sb_size sp)" for x
    using assms that by (auto simp: bitmap_blocks_def)
  then show u: "x < unat (sb_size sp) \<Longrightarrow> used sp v' x = used sp v x" for x by (simp add: used_def)
  show "0 < unat (sb_size sp) \<Longrightarrow> bitmap_ok sp v \<Longrightarrow> bitmap_ok sp v'" using e u by (auto simp: bitmap_ok_def)
qed

lemma grow:
  assumes ok: "bitmap_ok sp v" "file_ok sp v r" and b: "0 < b" "b < unat (sb_size sp)" "\<not> used sp v b"
    and k: "k \<le> MAXFILE" "slot sp v r k = 0"
    and s: "\<And>j. j \<le> MAXFILE + 1 \<Longrightarrow> slot sp v' r' j = (if j = k then of_nat b else slot sp v r j)"
    and v: "\<And>x. x \<noteq> unat (slot sp v r MAXFILE) \<or> slot sp v r MAXFILE = 0 \<Longrightarrow> v' x = allot sp b v x"
      "\<And>x. length (v' x) = length (allot sp b v x)"
    and r: "r' = r\<lparr>iaddrs := iaddrs r'\<rparr>" "length (iaddrs r') = NDIRECT + 1"
  shows "fstep sp v r v' r'" "contents sp v' r' = contents sp v r"
proof -
  note w = size_word [OF b(2)]
  have b0: "(of_nat b :: u32) \<noteq> 0" using w b(1) by (metis less_numeral_extra(3) unat_0)
  have ind: "x \<noteq> unat (slot sp v r MAXFILE) \<or> slot sp v r MAXFILE = 0" if "x \<in> bitmap_blocks sp \<or> \<not> used sp v x" for x
    using slotD(2,3) [OF ok(2), of MAXFILE] that by auto
  have bm: "\<forall>x\<in>bitmap_blocks sp. v' x = allot sp b v x" using v(1) ind by blast
  note bc = bitmap_cong [OF bm]
  have bo: "bitmap_ok sp v'" using bc(2) bitmap_allot [OF ok(1) b(2,3)] b(2) by simp
  have us: "used sp v' x \<longleftrightarrow> used sp v x \<or> x = b" if "x < unat (sb_size sp)" for x
    using bc(1) [OF that] used_allot [OF ok(1) b(2,3) that] by simp
  have pr: "proper sp v' x" if "proper sp (allot sp b v) x" for x using that bc(1) [of x] v(2) [of x] by (simp add: proper_def)
  have ow: "owned sp v' r' = insert b (owned sp v r)"
    using owned_insert [OF _ b0 k(2) s] k(1) w by simp
  have "\<forall>x\<in>owned sp v' r'. proper sp v' x"
    using ow pr fresh_proper [OF ok(1) b(2,3)] proper_allot(1) [OF ok(1) b(2,3)] ok(2) by (auto simp: file_ok_def)
  moreover have nb: "slot sp v r j \<noteq> of_nat b" if "j \<le> MAXFILE + 1" for j
    using slotD(2) [OF ok(2) that] b(3) w b0 by metis
  moreover have "idev r' = idev r" "inum r' = inum r" by (subst r(1), simp)+
  moreover have "j = i" if "i \<le> MAXFILE + 1" "j \<le> MAXFILE + 1" "slot sp v' r' i = slot sp v' r' j" "slot sp v' r' i \<noteq> 0" for i j
    using that s [OF that(1)] s [OF that(2)] nb [OF that(1)] nb [OF that(2)] slotD(6) [OF ok(2) that(1)] by (metis that(2))
  ultimately have fo: "file_ok sp v' r'" using ok(2) r(2) by (auto simp: file_ok_def)
  have same: "v' x = v x" if "proper sp v x" "x \<noteq> unat (slot sp v r MAXFILE) \<or> slot sp v r MAXFILE = 0" for x
    using v(1) [OF that(2)] proper_allot(2) [OF ok(1) b(2,3) that(1)] by simp
  have "x \<noteq> unat (slot sp v r MAXFILE) \<or> slot sp v r MAXFILE = 0" if "x \<notin> owned sp v r" for x
    using that by (auto simp: owned_def)
  moreover have "r' = r\<lparr>iaddrs := iaddrs r', isize := isize r'\<rparr>" using r(1) by (metis inode.surjective inode.update_convs(9,10))
  ultimately show "fstep sp v r v' r'" using bo fo us ow b(3) k s same by (auto simp: fstep_def)
  show "contents sp v' r' = contents sp v r"
  proof
    fix i
    let ?q = "i div BSIZE"
    show "contents sp v' r' i = contents sp v r i"
    proof (cases "?q < MAXFILE")
      case q: True
      have "v' b = replicate BSIZE 0" using v(1) [of b] ind [of b] b(3) allot_block by simp
      moreover have "v' (unat (slot sp v r ?q)) = v (unat (slot sp v r ?q))" if "slot sp v r ?q \<noteq> 0"
      proof (rule same)
        show "proper sp v (unat (slot sp v r ?q))" using slotD(1-4) [OF ok(2) _ that] q by (simp add: proper_def)
        show "unat (slot sp v r ?q) \<noteq> unat (slot sp v r MAXFILE) \<or> slot sp v r MAXFILE = 0"
          using slotD(6) [OF ok(2) _ that, of MAXFILE] q by (auto dest: unsigned_word_eqI)
      qed
      ultimately show ?thesis using s [of ?q] q k w b0 by (simp add: contents_def Let_def byte_at_def)
    qed (simp add: contents_def)
  qed
qed

section \<open>Frames\<close>

definition only_fs :: "'z fsys_scheme \<Rightarrow> 'z fsys_scheme \<Rightarrow> bool" where
  "only_fs s t \<longleftrightarrow> only_log (s\<lparr>inodes := inodes t\<rparr>) t"

lemma swap_inodes:
  "s\<lparr>log_lh := h, bufs := a, sleeplks := b, disk_writes := w, inodes := f\<rparr> = s\<lparr>inodes := f, log_lh := h, bufs := a, sleeplks := b, disk_writes := w\<rparr>"
  by (rule fsys.equality) simp_all

lemma settle_inodes: "settle (s\<lparr>inodes := f\<rparr>) = (settle s)\<lparr>inodes := f\<rparr>"
  by (simp add: settle_def mycpu_def intr_get_def)

lemma only_log_inodes: "only_log s t \<Longrightarrow> only_log (s\<lparr>inodes := f\<rparr>) (t\<lparr>inodes := f\<rparr>)"
  unfolding only_log_def only_cache_def
  by (drule calm_map [where f = "\<lambda>x. x\<lparr>inodes := f\<rparr>"]) (simp_all add: swap_inodes settle_inodes)

lemma only_fs_trans:
  assumes "only_fs s t" "only_fs t u"
  shows "only_fs s u"
  using only_log_trans [OF only_log_inodes [OF assms(1) [unfolded only_fs_def], of "inodes u"] assms(2) [unfolded only_fs_def]]
  by (simp add: only_fs_def)

lemma only_log_only_fs: "only_log s t \<Longrightarrow> only_fs s t"
  using only_log_inodes [of s t "inodes t"] by (simp add: only_fs_def)

lemma only_fs_upd: "only_fs s (s\<lparr>inodes := f\<rparr>)"
  by (simp add: only_fs_def)

lemma only_fs_sb: "only_fs s t \<Longrightarrow> sb t = sb s"
  using only_log_fsys(1) [of "s\<lparr>inodes := inodes t\<rparr>" t] by (simp add: only_fs_def)

section \<open>Finding and taking blocks\<close>

lemma sizes: "NDIRECT = 12" "NINDIRECT = 256" "MAXFILE = 268" "BSIZE = 1024"
  by (simp_all add: NDIRECT_def NINDIRECT_def MAXFILE_def BSIZE_def)

lemma slot_addr:
  assumes "k \<le> NDIRECT"
  shows "iaddrs r ! k = slot sp v r (if k < NDIRECT then k else MAXFILE)"
  using assms by (auto simp: slot_def sizes)

lemma get32_zeros: "get32 (replicate n 0) i = 0"
  by (simp add: get32_def byte_at_def)

text \<open>A free block becomes an entry of \<^verbatim>\<open>addrs\<close>.\<close>

lemma grow_addr:
  assumes ok: "bitmap_ok sp v" "file_ok sp v r" and b: "0 < b" "b < unat (sb_size sp)" "\<not> used sp v b"
    and k: "k \<le> NDIRECT" "iaddrs r ! k = 0"
  defines "r' \<equiv> r\<lparr>iaddrs := (iaddrs r)[k := of_nat b]\<rparr>"
  shows "fstep sp v r (allot sp b v) r'" "contents sp (allot sp b v) r' = contents sp v r"
proof -
  let ?k = "if k < NDIRECT then k else MAXFILE"
  have l: "length (iaddrs r) = NDIRECT + 1" using ok(2) by (simp add: file_ok_def)
  have z: "slot sp v r ?k = 0" using slot_addr [OF k(1), of r sp v] k(2) by simp
  have ind: "allot sp b v (unat (slot sp v r MAXFILE)) = v (unat (slot sp v r MAXFILE))" if "slot sp v r MAXFILE \<noteq> 0"
    using proper_allot(2) [OF ok(1) b(2,3)] slotD(1-4) [OF ok(2) _ that] by (simp add: proper_def)
  have s: "slot sp (allot sp b v) r' j = (if j = ?k then of_nat b else slot sp v r j)" if "j \<le> MAXFILE + 1" for j
  proof (cases "k < NDIRECT")
    case True
    then show ?thesis using l ind that by (auto simp: slot_def r'_def sizes)
  next
    case False
    then have "k = NDIRECT" using k(1) by simp
    then show ?thesis using l k(2) that size_word [OF b(2)] by (auto simp: slot_def r'_def sizes allot_block get32_zeros)
  qed
  have h: "?k \<le> MAXFILE" "r' = r\<lparr>iaddrs := iaddrs r'\<rparr>" "length (iaddrs r') = NDIRECT + 1"
    using l k(1) by (auto simp: r'_def sizes)
  show "fstep sp v r (allot sp b v) r'" "contents sp (allot sp b v) r' = contents sp v r"
    using grow [OF ok b h(1) z s _ _ h(2,3)] by simp_all
qed

text \<open>A free block becomes an entry of the indirect block.\<close>

lemma grow_entry:
  assumes ok: "bitmap_ok sp v" "file_ok sp v r" and b: "0 < b" "b < unat (sb_size sp)" "\<not> used sp v b"
    and i: "i < NINDIRECT" "iaddrs r ! NDIRECT \<noteq> 0" "slot sp v r (NDIRECT + i) = 0"
  defines "n \<equiv> unat (iaddrs r ! NDIRECT)"
  defines "v' \<equiv> (allot sp b v)(n := put32 (v n) (4 * i) (of_nat b))"
  shows "fstep sp v r v' r" "contents sp v' r = contents sp v r"
proof -
  have n: "slot sp v r MAXFILE = iaddrs r ! NDIRECT" by (simp add: slot_def sizes)
  then have l: "length (v n) = BSIZE" "proper sp v n" using slotD(1-4) [OF ok(2), of MAXFILE] i(2) by (simp_all add: n_def proper_def)
  have o: "get32 (put32 (v n) (4 * i) (of_nat b)) (4 * j) = get32 (v n) (4 * j)" if "j \<noteq> i" for j
    by (rule get_other(4)) (use l(1) i(1) that in \<open>auto simp: sizes\<close>)
  have s: "slot sp v' r j = (if j = NDIRECT + i then of_nat b else slot sp v r j)" if "j \<le> MAXFILE + 1" for j
    using l(1) i o [of "j - NDIRECT"] by (auto simp: slot_def v'_def n_def sizes)
  have h: "NDIRECT + i \<le> MAXFILE" "r = r\<lparr>iaddrs := iaddrs r\<rparr>" "length (iaddrs r) = NDIRECT + 1"
    using i(1) ok(2) by (simp_all add: sizes file_ok_def)
  have w: "v' x = allot sp b v x" if "x \<noteq> unat (slot sp v r MAXFILE) \<or> slot sp v r MAXFILE = 0" for x
    using that n i(2) by (auto simp: v'_def n_def)
  have "length (v' x) = length (allot sp b v x)" for x using proper_allot(2) [OF ok(1) b(2,3) l(2)] by (simp add: v'_def)
  then show "fstep sp v r v' r" "contents sp v' r = contents sp v r"
    using grow [OF ok b h(1) i(3) s w _ h(2,3)] by blast+
qed

text \<open>What a routine that works on the inode \<open>ip\<close> does to the file.\<close>

definition stepped :: "nat \<Rightarrow> nat \<Rightarrow> blocks \<Rightarrow> 'z fsys_scheme \<Rightarrow> blocks \<Rightarrow> 'z fsys_scheme \<Rightarrow> bool" where
  "stepped ip m v s v' t \<longleftrightarrow> txn Map.empty m v' t \<and> only_fs s t \<and> (\<forall>j. j \<noteq> ip \<longrightarrow> inodes t j = inodes s j) \<and>
     fstep (sb s) v (inodes s ip) v' (inodes t ip)"

definition kept :: "nat \<Rightarrow> blocks \<Rightarrow> 'z fsys_scheme \<Rightarrow> blocks \<Rightarrow> 'z fsys_scheme \<Rightarrow> bool" where
  "kept ip v s v' t \<longleftrightarrow> isize (inodes t ip) = isize (inodes s ip) \<and>
     contents (sb s) v' (inodes t ip) = contents (sb s) v (inodes s ip)"

definition full :: "superblock \<Rightarrow> blocks \<Rightarrow> bool" where
  "full sp v \<longleftrightarrow> (\<forall>b<unat (sb_size sp). used sp v b)"

definition fs_ready :: "nat \<Rightarrow> nat \<Rightarrow> blocks \<Rightarrow> 'z fsys_scheme \<Rightarrow> bool" where
  "fs_ready ip m v s \<longleftrightarrow> txn Map.empty m v s \<and> bitmap_ok (sb s) v \<and> file_ok (sb s) v (inodes s ip)"

lemma stepped_ready: "stepped ip m v s v' t \<Longrightarrow> fs_ready ip m v' t \<and> sb t = sb s"
  using only_fs_sb by (auto simp: stepped_def fs_ready_def dest: fstep_ok)

lemma stepped_trans: "stepped ip m v s v1 t \<Longrightarrow> stepped ip m' v1 t v2 u \<Longrightarrow> stepped ip m' v s v2 u"
  using fstep_trans only_fs_trans only_fs_sb [of s t] by (fastforce simp: stepped_def)

lemma kept_trans: "kept ip v s v1 t \<Longrightarrow> kept ip v1 t v2 u \<Longrightarrow> sb t = sb s \<Longrightarrow> kept ip v s v2 u"
  by (simp add: kept_def)

lemma stepped_fewer: "stepped ip m v s v' t \<Longrightarrow> k \<le> m \<Longrightarrow> stepped ip k v s v' t"
  using txn_fewer by (auto simp: stepped_def)

lemma stepped_log: "fs_ready ip k v s \<Longrightarrow> txn Map.empty m v t \<Longrightarrow> only_log s t \<Longrightarrow> stepped ip m v s v t \<and> kept ip v s v t"
  by (simp add: fs_ready_def stepped_def kept_def only_log_only_fs only_log_fsys fstep_refl)

definition take_addr :: "nat \<Rightarrow> nat \<Rightarrow> inode \<Rightarrow> ('z fsys_scheme, u32) routine" where
  "take_addr ip k r =
     (if iaddrs r ! k = 0 then
        bind (balloc (idev r)) (\<lambda>addr. if addr = 0 then ret 0 else sq (set_addr ip k addr) (ret addr))
      else ret (iaddrs r ! k))"

lemma take_addr_run:
  assumes "fs_ready ip (m + 2) v s" "k \<le> NDIRECT"
  shows "\<exists>a t v'. take_addr ip k (inodes s ip) s = Ok a t \<and> stepped ip m v s v' t \<and> kept ip v s v' t \<and>
    (if a = 0 then full (sb s) v' else a = iaddrs (inodes t ip) ! k)"
proof (cases "iaddrs (inodes s ip) ! k = 0")
  case z: True
  let ?r = "inodes s ip"
  note f = assms(1) [unfolded fs_ready_def]
  have d: "idev ?r = ROOTDEV" "length (iaddrs ?r) = NDIRECT + 1" using f by (simp_all add: file_ok_def)
  obtain a t where t: "balloc ROOTDEV s = Ok a t" "allocates Map.empty m v s a t" using balloc_run [of Map.empty m v s] f by auto
  then have o: "only_log s t" by (simp add: allocates_def)
  consider (new) b where "a = of_nat b" "0 < b" "b < unat (sb_size (sb s))" "\<not> used (sb s) v b" "txn Map.empty m (allot (sb s) b v) t"
    | (none) "a = 0" "full (sb s) v" "txn Map.empty (m + 2) v t" using t(2) by (auto simp: allocates_def full_def)
  then show ?thesis
  proof cases
    case none
    have "stepped ip m v s v t" "kept ip v s v t" using stepped_log [OF assms(1) txn_fewer [OF none(3), of m] o] by simp_all
    then show ?thesis using t(1) none(1,2) z d by (intro exI [of _ a] exI [of _ t] exI [of _ v]) (simp add: take_addr_def)
  next
    case new
    have "unat a \<noteq> 0" using new size_word [OF new(3)] by simp
    then have a0: "a \<noteq> 0" by auto
    let ?r' = "?r\<lparr>iaddrs := (iaddrs ?r)[k := a]\<rparr>" let ?t = "t\<lparr>inodes := (inodes t)(ip := ?r')\<rparr>"
    note g = grow_addr [OF _ _ new(2-4) assms(2) z]
    have "stepped ip m v s (allot (sb s) b v) ?t" "kept ip v s (allot (sb s) b v) ?t"
      using f g new(1,5) only_fs_trans [OF only_log_only_fs [OF o] only_fs_upd] only_log_fsys [OF o]
      by (simp_all add: stepped_def kept_def)
    moreover have "take_addr ip k ?r s = Ok a ?t"
      using t(1) a0 z d only_log_fsys [OF o] by (simp add: take_addr_def set_addr_def upd_inode_def)
    ultimately show ?thesis using a0 d assms(2) by (intro exI [of _ a] exI [of _ ?t] exI [of _ "allot (sb s) b v"]) simp
  qed
next
  case False
  have "stepped ip m v s v s" "kept ip v s v s"
    using stepped_log [OF assms(1), of m s] txn_fewer [of Map.empty "m + 2" v s m] assms(1) by (simp_all add: fs_ready_def)
  then show ?thesis using False by (intro exI [of _ "iaddrs (inodes s ip) ! k"] exI [of _ s] exI [of _ v]) (simp add: take_addr_def)
qed

definition take_entry :: "u32 \<Rightarrow> u32 \<Rightarrow> nat \<Rightarrow> ('z fsys_scheme, u32) routine" where
  "take_entry dev addr bn =
     bind (bread dev addr) (\<lambda>bp.
     bind (data_of bp) (\<lambda>d.
     let addr = get32 d (4 * bn) in
     bind (if addr = 0 then
             bind (balloc dev) (\<lambda>addr.
             sq (if addr \<noteq> 0 then sq (upd_data bp (\<lambda>d. put32 d (4 * bn) addr)) (log_write bp) else ret ())
                (ret addr))
           else ret addr) (\<lambda>addr.
     sq (brelse bp) (ret addr))))"

lemma bmap_parts:
  "bmap ip bn =
     bind (gets (\<lambda>s. inodes s ip)) (\<lambda>r.
     if unat bn < NDIRECT then take_addr ip (unat bn) r
     else if unat bn - NDIRECT < NINDIRECT then
       bind (take_addr ip NDIRECT r) (\<lambda>addr. if addr = 0 then ret 0 else take_entry (idev r) addr (unat bn - NDIRECT))
     else panic ''bmap: out of range'')"
  unfolding bmap_def take_addr_def take_entry_def Let_def ..

lemma slot_entry: "i < NINDIRECT \<Longrightarrow> iaddrs r ! NDIRECT \<noteq> 0 \<Longrightarrow> slot sp v r (NDIRECT + i) = get32 (v (unat (iaddrs r ! NDIRECT))) (4 * i)"
  by (simp add: slot_def sizes)

lemma take_entry_mapped:
  assumes f: "fs_ready ip m v s" and i: "i < NINDIRECT" "slot (sb s) v (inodes s ip) (NDIRECT + i) \<noteq> 0"
  shows "\<exists>t. take_entry ROOTDEV (iaddrs (inodes s ip) ! NDIRECT) i s = Ok (slot (sb s) v (inodes s ip) (NDIRECT + i)) t \<and>
    txn Map.empty m v t \<and> only_log s t"
proof -
  let ?a = "iaddrs (inodes s ip) ! NDIRECT"
  have nz: "?a \<noteq> 0" using i by (auto simp: slot_def sizes split: if_splits)
  have "unat ?a < 2 ^ 32" using unsigned_less [of ?a, where ?'a = nat] by simp
  then obtain bp t u where "bread ROOTDEV (of_nat (unat ?a)) s = Ok bp t" "bdata (bufs t bp) = v (unat ?a)" "brelse bp t = Ok () u"
    "txn Map.empty m v u" "only_log s u"
    using tx.glance [of Map.empty m v s "unat ?a"] f by (auto simp: fs_ready_def)
  then show ?thesis using i slot_entry [OF i(1) nz, of "sb s" v] by (simp add: take_entry_def data_of_def)
qed

lemma take_entry_run:
  assumes f: "fs_ready ip (m + 3) v s" and i: "i < NINDIRECT" "iaddrs (inodes s ip) ! NDIRECT \<noteq> 0"
  shows "\<exists>a t v'. take_entry ROOTDEV (iaddrs (inodes s ip) ! NDIRECT) i s = Ok a t \<and> stepped ip m v s v' t \<and> kept ip v s v' t \<and>
    (if a = 0 then full (sb s) v' else a = slot (sb s) v' (inodes t ip) (NDIRECT + i))"
proof (cases "slot (sb s) v (inodes s ip) (NDIRECT + i) = 0")
  case z: True
  let ?sp = "sb s" let ?r = "inodes s ip" let ?n = "unat (iaddrs ?r ! NDIRECT)"
  have f': "txn Map.empty (m + 3) v s" "bitmap_ok ?sp v" "file_ok ?sp v ?r" using f by (simp_all add: fs_ready_def)
  have n: "?n < 2 ^ 32" "used ?sp v ?n" "?n \<notin> bitmap_blocks ?sp"
    using slotD(2,3,5) [OF f'(3), of MAXFILE] i(2) by (simp_all add: slot_def sizes)
  obtain bp t where t: "bread ROOTDEV (of_nat ?n) s = Ok bp t" "txn [?n \<mapsto> bp] (m + 3) v t" "only_log s t"
    using tx.rd_ok [OF f'(1) _ n(1)] by auto
  note d = tx.look [OF t(2), of ?n bp] and fr = only_log_fsys [OF t(3)]
  obtain a u where u: "balloc ROOTDEV t = Ok a u" "allocates [?n \<mapsto> bp] (m + 1) v t a u"
    using balloc_run [of "[?n \<mapsto> bp]" "m + 1" v t] t(2) f'(2) n(2,3) fr by (auto simp: bitmap_blocks_def numeral_3_eq_3)
  then have o: "only_log s u" using only_log_trans [OF t(3)] by (simp add: allocates_def)
  have e: "get32 (v ?n) (4 * i) = 0" using slot_entry [OF i, of ?sp v] z by simp
  consider (new) b where "a = of_nat b" "0 < b" "b < unat (sb_size ?sp)" "\<not> used ?sp v b" "txn [?n \<mapsto> bp] (m + 1) (allot ?sp b v) u"
    | (none) "a = 0" "full ?sp v" "txn [?n \<mapsto> bp] (m + 3) v u"
    using u(2) fr by (auto simp: allocates_def full_def numeral_3_eq_3)
  then show ?thesis
  proof cases
    case none
    obtain w where w: "brelse bp u = Ok () w" "txn ([?n \<mapsto> bp](?n := None)) (m + 3) v w" "only_log u w"
      using tx.rl_ok [OF none(3), of ?n bp] by auto
    have "stepped ip m v s v w" "kept ip v s v w"
      using stepped_log [OF f txn_fewer only_log_trans [OF o w(3)], of "m + 3" m] w(2) by simp_all
    then show ?thesis using t(1) u(1) w(1) d e none(1,2)
      by (intro exI [of _ a] exI [of _ w] exI [of _ v]) (simp add: take_entry_def data_of_def bind_assoc ret_bind)
  next
    case new
    have "unat a \<noteq> 0" using new size_word [OF new(3)] by simp
    then have a0: "a \<noteq> 0" by auto
    have "proper ?sp v ?n" using slotD(1-4) [OF f'(3), of MAXFILE] i(2) by (simp add: slot_def sizes proper_def)
    then have av: "allot ?sp b v ?n = v ?n" using proper_allot(2) [OF f'(2) new(3,4)] by simp
    let ?v = "(allot ?sp b v)(?n := put32 (v ?n) (4 * i) a)"
    obtain w where w: "log_update bp (\<lambda>d. put32 d (4 * i) a) u = Ok () w" "txn [?n \<mapsto> bp] m ?v w" "only_log u w"
      using tx.upd_ok [of "[?n \<mapsto> bp]" m "allot ?sp b v" u ?n bp "\<lambda>d. put32 d (4 * i) a"] new(5) av by auto
    obtain x where x: "brelse bp w = Ok () x" "txn ([?n \<mapsto> bp](?n := None)) m ?v x" "only_log w x"
      using tx.rl_ok [OF w(2), of ?n bp] by auto
    note sx = only_log_trans [OF only_log_trans [OF o w(3)] x(3)]
    note g = grow_entry [OF f'(2,3) new(2-4) i z]
    have "stepped ip m v s ?v x" "kept ip v s ?v x"
      using g new(1) x(2) only_log_only_fs [OF sx] only_log_fsys [OF sx] by (simp_all add: stepped_def kept_def)
    moreover have "take_entry ROOTDEV (iaddrs ?r ! NDIRECT) i s = Ok a x"
      using t(1) u(1) w(1) x(1) d e a0 by (simp add: take_entry_def data_of_def bind_assoc ret_bind log_update_def sq_eq_Ok)
    moreover have "slot ?sp ?v (inodes x ip) (NDIRECT + i) = a"
      using slot_entry [OF i, of ?sp ?v] only_log_fsys [OF sx] i(1) \<open>proper ?sp v ?n\<close> by (simp add: proper_def sizes)
    ultimately show ?thesis using a0 by (intro exI [of _ a] exI [of _ x] exI [of _ ?v]) simp
  qed
next
  case False
  then obtain t where "take_entry ROOTDEV (iaddrs (inodes s ip) ! NDIRECT) i s = Ok (slot (sb s) v (inodes s ip) (NDIRECT + i)) t"
    "txn Map.empty (m + 3) v t" "only_log s t" using take_entry_mapped [OF f i(1)] by blast
  moreover from this have "stepped ip m v s v t" "kept ip v s v t" using stepped_log [OF f txn_fewer, of "m + 3" t m] by simp_all
  ultimately show ?thesis using False only_log_fsys [of s t]
    by (intro exI [of _ "slot (sb s) v (inodes s ip) (NDIRECT + i)"] exI [of _ t] exI [of _ v]) simp
qed

end
