(* ===== verification/Fileio.thy ===== *)
theory Fileio
  imports Filedata
begin

text \<open>
  Reading and writing files, \<^verbatim>\<open>readi\<close> and \<^verbatim>\<open>writei\<close> of \<^verbatim>\<open>kernel/fs.c\<close>, on the abstraction of a
  file to its bytes.
\<close>

section \<open>Finding blocks\<close>

lemma bmap_mapped:
  assumes "fs_ready ip m v s" "k < MAXFILE" "slot (sb s) v (inodes s ip) k \<noteq> 0"
  shows "\<exists>t. bmap ip (of_nat k) s = Ok (slot (sb s) v (inodes s ip) k) t \<and> txn Map.empty m v t \<and> only_log s t"
proof -
  let ?r = "inodes s ip"
  have k: "unat (of_nat k :: u32) = k" using assms(2) by (simp add: sizes unat_of_nat take_bit_nat_eq_self)
  show ?thesis
  proof (cases "k < NDIRECT")
    case True
    then have "slot (sb s) v ?r k = iaddrs ?r ! k" by (simp add: slot_def)
    then show ?thesis using True assms k by (simp add: bmap_parts take_addr_def fs_ready_def)
  next
    case False
    then have i: "k = NDIRECT + (k - NDIRECT)" "k - NDIRECT < NINDIRECT" using assms(2) by (simp_all add: sizes)
    have "iaddrs ?r ! NDIRECT \<noteq> 0" using assms(2,3) False by (auto simp: slot_def split: if_splits)
    moreover have "idev ?r = ROOTDEV" using assms(1) by (simp add: fs_ready_def file_ok_def)
    ultimately show ?thesis using False i(2) k take_entry_mapped [OF assms(1) i(2)] assms(3) i(1) by (simp add: bmap_parts take_addr_def)
  qed
qed

lemma bmap_run:
  assumes "fs_ready ip (m + 5) v s" "k < MAXFILE"
  shows "\<exists>a t v'. bmap ip (of_nat k) s = Ok a t \<and> stepped ip m v s v' t \<and> kept ip v s v' t \<and>
    (if a = 0 then full (sb s) v' else a = slot (sb s) v' (inodes t ip) k)"
proof -
  let ?r = "inodes s ip"
  have k: "unat (of_nat k :: u32) = k" using assms(2) by (simp add: sizes unat_of_nat take_bit_nat_eq_self)
  have f: "fs_ready ip ((m + 3) + 2) v s" using assms(1) by (simp add: numeral_eq_Suc)
  show ?thesis
  proof (cases "k < NDIRECT")
    case True
    then obtain a t v' where t: "take_addr ip k ?r s = Ok a t" "stepped ip (m + 3) v s v' t" "kept ip v s v' t"
      "if a = 0 then full (sb s) v' else a = iaddrs (inodes t ip) ! k" using take_addr_run [OF f, of k] by auto
    then show ?thesis using True k stepped_fewer [OF t(2), of m]
      by (intro exI [of _ a] exI [of _ t] exI [of _ v']) (simp add: bmap_parts slot_def)
  next
    case False
    then have i: "NDIRECT + (k - NDIRECT) = k" "k - NDIRECT < NINDIRECT" using assms(2) by (simp_all add: sizes)
    obtain a t v1 where t: "take_addr ip NDIRECT ?r s = Ok a t" "stepped ip (m + 3) v s v1 t" "kept ip v s v1 t"
      "if a = 0 then full (sb s) v1 else a = iaddrs (inodes t ip) ! NDIRECT" using take_addr_run [OF f, of NDIRECT] by auto
    show ?thesis
    proof (cases "a = 0")
      case True
      then show ?thesis using False t i k stepped_fewer [OF t(2), of m]
        by (intro exI [of _ a] exI [of _ t] exI [of _ v1]) (simp add: bmap_parts)
    next
      case nz: False
      note r = stepped_ready [OF t(2)]
      obtain c u v2 where u: "take_entry ROOTDEV a (k - NDIRECT) t = Ok c u" "stepped ip m v1 t v2 u" "kept ip v1 t v2 u"
        "if c = 0 then full (sb t) v2 else c = slot (sb t) v2 (inodes u ip) k"
        using take_entry_run [of ip m v1 t "k - NDIRECT"] r i t(4) nz by (auto split: if_splits)
      have "idev ?r = ROOTDEV" using assms(1) by (simp add: fs_ready_def file_ok_def)
      then show ?thesis using False nz t(1) u(1,4) i(2) k r stepped_trans [OF t(2) u(2)] kept_trans [OF t(3) u(3)]
        by (intro exI [of _ c] exI [of _ u] exI [of _ v2]) (simp add: bmap_parts cong: if_cong)
    qed
  qed
qed

section \<open>Bytes\<close>

lemma block_bytes:
  assumes "file_ok sp v r" "slot sp v r (off' div BSIZE) \<noteq> 0" "off' div BSIZE < MAXFILE" "off' mod BSIZE + m \<le> BSIZE"
  shows "take m (drop (off' mod BSIZE) (v (unat (slot sp v r (off' div BSIZE))))) = map (contents sp v r) [off'..<off' + m]"
proof (rule nth_equalityI)
  have l: "length (v (unat (slot sp v r (off' div BSIZE)))) = BSIZE" using slotD(4) [OF assms(1) _ assms(2)] assms(3) by simp
  then show "length (take m (drop (off' mod BSIZE) (v (unat (slot sp v r (off' div BSIZE)))))) = length (map (contents sp v r) [off'..<off' + m])"
    using assms(4) by simp
  fix i assume "i < length (take m (drop (off' mod BSIZE) (v (unat (slot sp v r (off' div BSIZE))))))"
  then have i: "i < m" "off' mod BSIZE + i < BSIZE" using assms(4) by auto
  have "off' + i = off' div BSIZE * BSIZE + (off' mod BSIZE + i)" by simp
  then have "(off' + i) div BSIZE = off' div BSIZE" "(off' + i) mod BSIZE = off' mod BSIZE + i" using i(2)
    by (metis add.commute add_cancel_left_right div_less div_mult_self3 not_less_zero, metis mod_less mod_mult_self3)
  then show "take m (drop (off' mod BSIZE) (v (unat (slot sp v r (off' div BSIZE))))) ! i = map (contents sp v r) [off'..<off' + m] ! i"
    using i l assms(2,3) by (simp add: contents_def Let_def byte_at_def)
qed

lemma either_kernel:
  assumes "txn H m v s"
  shows "either_copyout KernelBuf bs s = Ok (0, bs) (settle s)" "either_copyin (FromKernel bs) n s = Ok (0, take (unat n) bs) (settle s)"
    "txn H m v (settle s)" "only_log s (settle s)"
proof -
  have ok: "sys_ok s" using assms by (auto simp: txn_def dest: cacheD(1))
  then obtain p where "cpu_ok s" "cpu.proc (mycpu s) = Some p" by (auto simp: sys_ok_def)
  then show "either_copyout KernelBuf bs s = Ok (0, bs) (settle s)" "either_copyin (FromKernel bs) n s = Ok (0, take (unat n) bs) (settle s)"
    by (simp_all add: either_copyout_def either_copyin_def this_proc_run)
  show "txn H m v (settle s)" using assms by (simp add: txn_def disk_def)
  show "only_log s (settle s)" by (rule only_cache_only_log [OF only_cache_calm [OF calm_settle]])
qed

section \<open>Reading\<close>

text \<open>Offsets within a file stay far from the end of the words that hold them.\<close>

lemma offset_words:
  assumes "off' \<le> MAXFILE * BSIZE" "n \<le> MAXFILE * BSIZE" "t \<le> n"
  shows "(of_nat off' :: u32) div of_nat BSIZE = of_nat (off' div BSIZE)" "unat (of_nat off' :: u32) = off'"
    "unat (of_nat n - of_nat t :: u32) = n - t" "(of_nat t :: u32) < of_nat n \<longleftrightarrow> t < n"
proof -
  have b: "x \<le> MAXFILE * BSIZE \<Longrightarrow> unat (of_nat x :: u32) = x" for x by (simp add: sizes unat_of_nat take_bit_nat_eq_self)
  then show w: "unat (of_nat off' :: u32) = off'" using assms(1) by blast
  have d: "off' div BSIZE \<le> MAXFILE * BSIZE" using assms(1) div_le_dividend le_trans by blast
  have "BSIZE \<le> MAXFILE * BSIZE" by (simp add: sizes)
  then show "(of_nat off' :: u32) div of_nat BSIZE = of_nat (off' div BSIZE)"
    by (intro unsigned_word_eqI [where ?'a = nat]) (simp only: unat_div w b [OF d] b [of BSIZE])
  show "(of_nat t :: u32) < of_nat n \<longleftrightarrow> t < n" using b [of t] b [of n] assms(2,3) by (simp add: word_less_nat_alt)
  have "(of_nat n - of_nat t :: u32) = of_nat (n - t)" using assms(3) by (simp add: of_nat_diff)
  then show "unat (of_nat n - of_nat t :: u32) = n - t" using b [of "n - t"] assms(2) by simp
qed

text \<open>The piece of a transfer of \<open>n\<close> bytes at \<open>off'\<close> that lies in one block.\<close>

definition piece :: "nat \<Rightarrow> nat \<Rightarrow> nat" where
  "piece off' n = min n (BSIZE - off' mod BSIZE)"

definition fuel_for :: "nat \<Rightarrow> nat \<Rightarrow> nat \<Rightarrow> bool" where
  "fuel_for k off' n \<longleftrightarrow> n = 0 \<or> off' mod BSIZE + n \<le> k * BSIZE"

lemma fuel_step:
  assumes "0 < n" "fuel_for k off' n"
  shows "\<exists>j. k = Suc j \<and> fuel_for j (off' + piece off' n) (n - piece off' n)" "0 < piece off' n" "piece off' n \<le> n"
    "off' mod BSIZE + piece off' n \<le> BSIZE"
proof -
  have o: "off' mod BSIZE < BSIZE" by (simp add: sizes)
  then show p: "0 < piece off' n" "piece off' n \<le> n" "off' mod BSIZE + piece off' n \<le> BSIZE" using assms(1) by (simp_all add: piece_def)
  obtain j where j: "k = Suc j" using assms by (cases k) (simp_all add: fuel_for_def)
  have "fuel_for j (off' + piece off' n) (n - piece off' n)"
  proof (cases "n \<le> BSIZE - off' mod BSIZE")
    case True
    then show ?thesis by (simp add: fuel_for_def piece_def)
  next
    case False
    then have e: "piece off' n = BSIZE - off' mod BSIZE" by (simp add: piece_def)
    have "off' + (BSIZE - off' mod BSIZE) = off' div BSIZE * BSIZE + (off' mod BSIZE + (BSIZE - off' mod BSIZE))" by simp
    also have "\<dots> = Suc (off' div BSIZE) * BSIZE" using o by simp
    finally have "(off' + piece off' n) mod BSIZE = 0" using e by simp
    then show ?thesis using assms False e j by (simp add: fuel_for_def)
  qed
  then show "\<exists>j. k = Suc j \<and> fuel_for j (off' + piece off' n) (n - piece off' n)" using j by blast
qed

lemma fuel_enough: "fuel_for (n div BSIZE + 2) off' n"
proof -
  have "off' mod BSIZE < BSIZE" "n = n div BSIZE * BSIZE + n mod BSIZE" "n mod BSIZE < BSIZE" by (simp_all add: sizes)
  then show ?thesis unfolding fuel_for_def by (metis add_mult_distrib add_mono mult_2 less_imp_le add.commute add.assoc add_le_cancel_left)
qed

definition no_holes :: "superblock \<Rightarrow> blocks \<Rightarrow> inode \<Rightarrow> nat \<Rightarrow> bool" where
  "no_holes sp v r n \<longleftrightarrow> (\<forall>k. k * BSIZE < n \<longrightarrow> slot sp v r k \<noteq> 0)"

lemma read_block:
  assumes s: "fs_ready ip m v s" and n: "t < n" "off' + (n - t) \<le> MAXFILE * BSIZE" "n \<le> MAXFILE * BSIZE"
    and a: "slot (sb s) v (inodes s ip) (off' div BSIZE) \<noteq> 0" and p: "p = piece off' (n - t)" "off' mod BSIZE + p \<le> BSIZE"
  shows "\<exists>u. readi_loop (Suc k) ip KernelBuf (of_nat off') (of_nat n) (of_nat t) out s =
      readi_loop k ip KernelBuf (of_nat (off' + p)) (of_nat n) (of_nat (t + p)) (out @ map (contents (sb s) v (inodes s ip)) [off'..<off' + p]) u \<and>
    txn Map.empty m v u \<and> only_log s u"
proof -
  let ?r = "inodes s ip" let ?q = "off' div BSIZE" let ?a = "slot (sb s) v ?r ?q"
  note w = offset_words [of off' n t]
  have o: "off' \<le> MAXFILE * BSIZE" using n(2) by simp
  have q: "?q < MAXFILE" using n(1,2) by (simp add: less_mult_imp_div_less)
  obtain s1 where 1: "bmap ip (of_nat ?q) s = Ok ?a s1" "txn Map.empty m v s1" "only_log s s1" using bmap_mapped [OF s q a] by blast
  have f: "file_ok (sb s) v ?r" "idev ?r = ROOTDEV" using s by (simp_all add: fs_ready_def file_ok_def)
  have "unat ?a < 2 ^ 32" using unsigned_less [of ?a, where ?'a = nat] by simp
  then obtain bp s2 where 2: "bread ROOTDEV ?a s1 = Ok bp s2" "bdata (bufs s2 bp) = v (unat ?a)"
    "txn [unat ?a \<mapsto> bp] m v s2" "only_log s1 s2"
    using tx.glance [OF 1(2), of "unat ?a"] by auto
  obtain u where 3: "brelse bp (settle s2) = Ok () u" "txn ([unat ?a \<mapsto> bp](unat ?a := None)) m v u" "only_log (settle s2) u"
    using tx.rl_ok [OF either_kernel(3) [OF 2(3)], of "unat ?a" bp] by auto
  have "only_log s u" using only_log_trans [OF only_log_trans [OF only_log_trans [OF 1(3) 2(4)] either_kernel(4) [OF 2(3)]] 3(3)] .
  moreover have "readi_loop (Suc k) ip KernelBuf (of_nat off') (of_nat n) (of_nat t) out s =
      readi_loop k ip KernelBuf (of_nat (off' + p)) (of_nat n) (of_nat (t + p)) (out @ map (contents (sb s) v ?r) [off'..<off' + p]) u"
    using 1(1) 2(1,2) 3(1) a f(2) w o n only_log_fsys [OF 1(3)] either_kernel(1) [OF 2(3)] block_bytes [OF f(1) a q p(2)]
    by (simp add: readi_loop.simps [of "Suc k"] data_of_def Let_def p(1) piece_def)
  ultimately show ?thesis using 3(2) by (intro exI [of _ u]) simp
qed

lemma readi_loop_run:
  assumes "fs_ready ip m v s" "t \<le> n" "off' + (n - t) \<le> MAXFILE * BSIZE" "n \<le> MAXFILE * BSIZE"
    "no_holes (sb s) v (inodes s ip) (off' + (n - t))" "fuel_for k off' (n - t)"
  shows "\<exists>u. readi_loop k ip KernelBuf (of_nat off') (of_nat n) (of_nat t) out s =
      Ok (of_nat n, out @ map (contents (sb s) v (inodes s ip)) [off'..<off' + (n - t)]) u \<and> txn Map.empty m v u \<and> only_log s u"
  using assms
proof (induction k arbitrary: off' t out s)
  case 0
  then have "t = n" by (auto simp: fuel_for_def)
  then show ?case using 0(1) by (simp add: readi_loop.simps [of 0] fs_ready_def)
next
  case (Suc k)
  show ?case
  proof (cases "t = n")
    case True
    then show ?thesis using Suc.prems(1) by (simp add: readi_loop.simps [of "Suc k"] fs_ready_def)
  next
    case False
    then have pos: "0 < n - t" "t < n" using Suc.prems(2) by simp_all
    define p where "p = piece off' (n - t)"
    note f = fuel_step [OF pos(1) Suc.prems(6), folded p_def]
    let ?c = "contents (sb s) v (inodes s ip)"
    have "off' div BSIZE * BSIZE < off' + (n - t)" using pos(1) by (meson div_times_less_eq_dividend le_less_trans less_add_same_cancel1)
    then have a: "slot (sb s) v (inodes s ip) (off' div BSIZE) \<noteq> 0" using Suc.prems(5) by (simp add: no_holes_def)
    obtain s1 where 1: "readi_loop (Suc k) ip KernelBuf (of_nat off') (of_nat n) (of_nat t) out s =
        readi_loop k ip KernelBuf (of_nat (off' + p)) (of_nat n) (of_nat (t + p)) (out @ map ?c [off'..<off' + p]) s1"
      "txn Map.empty m v s1" "only_log s s1"
      using read_block [OF Suc.prems(1) pos(2) Suc.prems(3,4) a p_def f(4)] by blast
    note e = only_log_fsys [OF 1(3)]
    have t': "off' + p + (n - (t + p)) = off' + (n - t)" "n - (t + p) = n - t - p" "t + p \<le> n" using f(3) pos by simp_all
    have h: "fs_ready ip m v s1" "off' + p + (n - (t + p)) \<le> MAXFILE * BSIZE" "fuel_for k (off' + p) (n - (t + p))"
      "no_holes (sb s1) v (inodes s1 ip) (off' + p + (n - (t + p)))"
      using Suc.prems(1) 1(2) e Suc.prems(3,5) f(1) unfolding t'(1) unfolding t'(2) by (simp_all add: fs_ready_def)
    obtain u where u: "readi_loop k ip KernelBuf (of_nat (off' + p)) (of_nat n) (of_nat (t + p)) (out @ map ?c [off'..<off' + p]) s1 =
      Ok (of_nat n, (out @ map ?c [off'..<off' + p]) @ map ?c [off' + p..<off' + (n - t)]) u" "txn Map.empty m v u" "only_log s1 u"
      using Suc.IH [OF h(1) t'(3) h(2) Suc.prems(4) h(4,3), of "out @ map ?c [off'..<off' + p]"] unfolding t'(1) e by blast
    have "[off'..<off' + (n - t)] = [off'..<off' + p] @ [off' + p..<off' + (n - t)]"
      unfolding t'(1) [symmetric] by (rule upt_add_eq_append) simp
    then show ?thesis using 1(1) u(1,2) only_log_trans [OF 1(3) u(3)] by simp
  qed
qed

lemma readi_run:
  assumes "fs_ready ip m v s" "no_holes (sb s) v (inodes s ip) (unat (isize (inodes s ip)))" "unat (isize (inodes s ip)) \<le> MAXFILE * BSIZE"
    "off' \<le> unat (isize (inodes s ip))" "n \<le> MAXFILE * BSIZE"
  defines "k \<equiv> min n (unat (isize (inodes s ip)) - off')"
  shows "\<exists>t. readi ip KernelBuf (of_nat off') (of_nat n) s =
      Ok (int k, map (contents (sb s) v (inodes s ip)) [off'..<off' + k]) t \<and> txn Map.empty m v t \<and> only_log s t"
proof -
  let ?z = "isize (inodes s ip)"
  have b: "x \<le> 2 * (MAXFILE * BSIZE) \<Longrightarrow> unat (of_nat x :: u32) = x" for x by (simp add: sizes unat_of_nat take_bit_nat_eq_self)
  have u: "unat (of_nat off' :: u32) = off'" "unat (of_nat off' + of_nat n :: u32) = off' + n" "unat (of_nat n :: u32) = n"
    using b [of off'] b [of "off' + n"] b [of n] assms(3-5) by simp_all
  have k: "k \<le> MAXFILE * BSIZE" "off' + k \<le> unat ?z" "off' + k \<le> MAXFILE * BSIZE" using assms(3-5) by (auto simp: k_def)
  have "?z - of_nat off' = (of_nat (unat ?z - off') :: u32)" using assms(4) by (simp add: of_nat_diff)
  then have n: "(if ?z < of_nat off' + of_nat n then ?z - of_nat off' else of_nat n) = (of_nat k :: u32)"
    using u assms(4) by (auto simp: k_def word_less_nat_alt min_def)
  have h: "no_holes (sb s) v (inodes s ip) (off' + (k - 0))" using assms(2) k(2) by (auto simp: no_holes_def)
  have s: "sint (of_nat k :: u32) = int k"
  proof -
    have "sint (word_of_int (int k) :: u32) = int k" using k(1) by (subst signed_of_int) (simp add: signed_take_bit_int_eq_self sizes)
    then show ?thesis by simp
  qed
  obtain t where "readi_loop (k div BSIZE + 2) ip KernelBuf (of_nat off') (of_nat k) (of_nat 0) [] s =
      Ok (of_nat k, [] @ map (contents (sb s) v (inodes s ip)) [off'..<off' + (k - 0)]) t" "txn Map.empty m v t" "only_log s t"
    using readi_loop_run [OF assms(1) _ _ k(1) h, of "k div BSIZE + 2" "[]"] k fuel_enough [of k off'] by auto
  moreover have "\<not> ?z < of_nat off'" "\<not> (of_nat off' + of_nat n :: u32) < of_nat off'" using u assms(4) by (simp_all add: word_less_nat_alt)
  moreover have "unat (of_nat k :: u32) = k" using b [of k] k(1) by simp
  ultimately show ?thesis using n s by (simp add: readi_def Let_def)
qed

section \<open>Writing\<close>

definition splice :: "(nat \<Rightarrow> u8) \<Rightarrow> nat \<Rightarrow> u8 list \<Rightarrow> nat \<Rightarrow> u8" where
  "splice c off' bs = (\<lambda>i. if off' \<le> i \<and> i < off' + length bs then bs ! (i - off') else c i)"

lemma splice_nil [simp]: "splice c off' [] = c"
  by (rule ext) (auto simp: splice_def)

lemma splice_append: "splice (splice c off' xs) (off' + length xs) ys = splice c off' (xs @ ys)"
  by (auto simp: splice_def nth_append fun_eq_iff)

lemma map_splice: "map (splice c off' bs) [off'..<off' + length bs] = bs"
  by (rule nth_equalityI) (auto simp: splice_def)

lemma within_block:
  assumes "off' mod BSIZE + n \<le> BSIZE"
  shows "off' \<le> i \<and> i < off' + n \<longleftrightarrow> i div BSIZE = off' div BSIZE \<and> off' mod BSIZE \<le> i mod BSIZE \<and> i mod BSIZE < off' mod BSIZE + n"
    "i div BSIZE = off' div BSIZE \<Longrightarrow> i - off' = i mod BSIZE - off' mod BSIZE"
proof -
  have i: "i = i div BSIZE * BSIZE + i mod BSIZE" and o: "off' = off' div BSIZE * BSIZE + off' mod BSIZE" by simp_all
  have e: "off' \<le> i \<and> i < off' + n \<longleftrightarrow> off' mod BSIZE \<le> i mod BSIZE \<and> i mod BSIZE < off' mod BSIZE + n"
    "i - off' = i mod BSIZE - off' mod BSIZE" if "i div BSIZE = off' div BSIZE"
  proof -
    have "i = off' div BSIZE * BSIZE + i mod BSIZE" using i that by simp
    then show "off' \<le> i \<and> i < off' + n \<longleftrightarrow> off' mod BSIZE \<le> i mod BSIZE \<and> i mod BSIZE < off' mod BSIZE + n"
      "i - off' = i mod BSIZE - off' mod BSIZE" using o by linarith+
  qed
  have "i div BSIZE = off' div BSIZE" if "off' \<le> i" "i < off' + n"
  proof (rule div_nat_eqI)
    show "BSIZE * (off' div BSIZE) \<le> i" using that(1) o by (metis le_trans mult.commute div_times_less_eq_dividend)
    have "off' + n \<le> off' div BSIZE * BSIZE + BSIZE" using assms o by linarith
    then show "i < BSIZE * Suc (off' div BSIZE)" using that(2) by (simp add: mult.commute)
  qed
  then show "off' \<le> i \<and> i < off' + n \<longleftrightarrow> i div BSIZE = off' div BSIZE \<and> off' mod BSIZE \<le> i mod BSIZE \<and> i mod BSIZE < off' mod BSIZE + n"
    using e(1) by blast
  show "i div BSIZE = off' div BSIZE \<Longrightarrow> i - off' = i mod BSIZE - off' mod BSIZE" by (rule e(2))
qed

text \<open>A block of the file, other than its indirect block, gets new contents.\<close>

lemma own_update:
  assumes ok: "bitmap_ok sp v" "file_ok sp v r" and k: "k \<le> MAXFILE + 1" "k \<noteq> MAXFILE" "slot sp v r k \<noteq> 0" and d: "length d = BSIZE"
  defines "a \<equiv> unat (slot sp v r k)"
  defines "v' \<equiv> v(a := d)"
  shows "fstep sp v r v' r" "slot sp v' r j = slot sp v r j"
    "j \<le> MAXFILE + 1 \<Longrightarrow> j \<noteq> k \<Longrightarrow> slot sp v r j \<noteq> 0 \<Longrightarrow> v' (unat (slot sp v r j)) = v (unat (slot sp v r j))"
proof -
  note a = slotD [OF ok(2) k(1,3), folded a_def]
  have ne: "unat (slot sp v r j) \<noteq> a" if "j \<le> MAXFILE + 1" "j \<noteq> k" for j
  proof
    assume "unat (slot sp v r j) = a"
    then have "slot sp v r j = slot sp v r k" unfolding a_def by (rule unsigned_word_eqI)
    then show False using a(6) that by blast
  qed
  then show "j \<le> MAXFILE + 1 \<Longrightarrow> j \<noteq> k \<Longrightarrow> slot sp v r j \<noteq> 0 \<Longrightarrow> v' (unat (slot sp v r j)) = v (unat (slot sp v r j))"
    by (simp add: v'_def)
  have s: "slot sp v' r j = slot sp v r j" for j using ne [of MAXFILE] k(2) by (auto simp: slot_def v'_def sizes)
  then show "slot sp v' r j = slot sp v r j" .
  have bm: "\<forall>x\<in>bitmap_blocks sp. v' x = v x" using a(3) by (auto simp: v'_def)
  have ow: "owned sp v' r = owned sp v r" by (simp add: owned_def s)
  have "length (v' x) = BSIZE \<longleftrightarrow> length (v x) = BSIZE" for x using a(4) d by (cases "x = a") (simp_all add: v'_def)
  then have p: "proper sp v' x = proper sp v x" for x using bitmap_cong(1) [OF bm, of x] by (auto simp: proper_def)
  have "a \<in> owned sp v r" unfolding a_def by (rule ownedI [OF k(1,3)])
  then have "v' x = v x" if "x \<notin> owned sp v r" for x using that by (auto simp: v'_def)
  then show "fstep sp v r v' r"
    using ok bitmap_cong [OF bm] a(1) s ow p by (auto simp: fstep_def file_ok_def)
qed

text \<open>Bytes written into the block of a file.\<close>

lemma write_step:
  assumes ok: "bitmap_ok sp v" "file_ok sp v r" and q: "off' div BSIZE < MAXFILE" "slot sp v r (off' div BSIZE) \<noteq> 0"
    and l: "off' mod BSIZE + length bs \<le> BSIZE"
  defines "a \<equiv> unat (slot sp v r (off' div BSIZE))"
  defines "v' \<equiv> v(a := take (off' mod BSIZE) (v a) @ bs @ drop (off' mod BSIZE + length bs) (v a))"
  shows "fstep sp v r v' r" "contents sp v' r = splice (contents sp v r) off' bs"
proof -
  have l': "length (v a) = BSIZE" using slotD(4) [OF ok(2) _ q(2)] q(1) by (simp add: a_def)
  then have la: "length (v' a) = BSIZE" using l by (simp add: v'_def)
  note u = own_update [OF ok _ _ q(2), of "v' a", folded a_def]
  have v': "v(a := v' a) = v'" by (simp add: v'_def)
  show "fstep sp v r v' r" using u(1) la q(1) v' by simp
  have s: "slot sp v' r j = slot sp v r j" for j using u(2) la q(1) v' by simp
  show "contents sp v' r = splice (contents sp v r) off' bs"
  proof
    fix i
    note w = within_block [OF l, of i]
    show "contents sp v' r i = splice (contents sp v r) off' bs i"
    proof (cases "i div BSIZE = off' div BSIZE")
      case True
      have "i mod BSIZE < BSIZE" by (simp add: sizes)
      then have "v' a ! (i mod BSIZE) = (if off' mod BSIZE \<le> i mod BSIZE \<and> i mod BSIZE < off' mod BSIZE + length bs
          then bs ! (i mod BSIZE - off' mod BSIZE) else v a ! (i mod BSIZE))"
        using l' l by (auto simp: v'_def nth_append min_def)
      then show ?thesis using True w la l' q \<open>i mod BSIZE < BSIZE\<close>
        by (simp add: contents_def splice_def s byte_at_def Let_def a_def [symmetric])
    next
      case False
      then have "v' (unat (slot sp v r (i div BSIZE))) = v (unat (slot sp v r (i div BSIZE)))"
        if "i div BSIZE < MAXFILE" "slot sp v r (i div BSIZE) \<noteq> 0"
        using that u(3) [of "i div BSIZE"] la q(1) v' by simp
      then show ?thesis using False w by (auto simp: contents_def splice_def s Let_def)
    qed
  qed
qed

lemma stepped_block:
  assumes "stepped ip k v s v1 t" "txn Map.empty m v2 u" "only_log t u" "fstep (sb s) v1 (inodes t ip) v2 (inodes t ip)"
  shows "stepped ip m v s v2 u" "inodes u = inodes t"
proof -
  show e: "inodes u = inodes t" using only_log_fsys [OF assms(3)] by simp
  have 1: "only_fs s t" "\<forall>j. j \<noteq> ip \<longrightarrow> inodes t j = inodes s j" "fstep (sb s) v (inodes s ip) v1 (inodes t ip)"
    using assms(1) by (simp_all add: stepped_def)
  show "stepped ip m v s v2 u"
    using assms(2) only_fs_trans [OF 1(1) only_log_only_fs [OF assms(3)]] 1(2) fstep_trans [OF 1(3) assms(4)] by (simp add: stepped_def e)
qed

lemma writei_loop_step:
  assumes "tot < n" "bmap ip (off' div of_nat BSIZE) s = Ok a s1" "a \<noteq> 0" "bread (idev (inodes s1 ip)) a s1 = Ok bp s2"
    "either_copyin src (of_nat m) s2 = Ok (0, bs) s3"
    "log_update bp (\<lambda>d. take (unat off' mod BSIZE) d @ bs @ drop (unat off' mod BSIZE + length bs) d) s3 = Ok () s4" "brelse bp s4 = Ok () u"
    "m = min (unat (n - tot)) (BSIZE - unat off' mod BSIZE)"
  shows "writei_loop (Suc k) ip src off' n tot s = writei_loop k ip (source_add src m) (off' + of_nat m) n (tot + of_nat m) u"
proof -
  obtain s' where "upd_data bp (\<lambda>d. take (unat off' mod BSIZE) d @ bs @ drop (unat off' mod BSIZE + length bs) d) s3 = Ok () s'"
    "log_write bp s' = Ok () s4" using assms(6) by (auto simp: log_update_def sq_eq_Ok)
  then show ?thesis using assms(1-5,7) unfolding assms(8) by (simp add: writei_loop.simps [of "Suc k"] Let_def)
qed

lemma write_block:
  assumes s: "fs_ready ip (m + 6) v s" and n: "t < n" "off' + (n - t) \<le> MAXFILE * BSIZE" "n \<le> MAXFILE * BSIZE"
    and p: "p = piece off' (n - t)" "off' mod BSIZE + p \<le> BSIZE" and l: "length bs = n - t"
  shows "\<exists>v' u. stepped ip m v s v' u \<and> isize (inodes u ip) = isize (inodes s ip) \<and>
    (writei_loop (Suc k) ip (FromKernel bs) (of_nat off') (of_nat n) (of_nat t) s = Ok (of_nat t, of_nat off') u \<and>
       full (sb s) v' \<and> contents (sb s) v' (inodes u ip) = contents (sb s) v (inodes s ip) \<or>
     writei_loop (Suc k) ip (FromKernel bs) (of_nat off') (of_nat n) (of_nat t) s =
       writei_loop k ip (FromKernel (drop p bs)) (of_nat (off' + p)) (of_nat n) (of_nat (t + p)) u \<and>
     contents (sb s) v' (inodes u ip) = splice (contents (sb s) v (inodes s ip)) off' (take p bs) \<and>
     slot (sb s) v' (inodes u ip) (off' div BSIZE) \<noteq> 0)"
proof -
  let ?q = "off' div BSIZE"
  have o: "off' \<le> MAXFILE * BSIZE" using n(2) by simp
  note w' = offset_words [OF o n(3) less_imp_le [OF n(1)]]
  have q: "?q < MAXFILE" using n(1,2) by (simp add: less_mult_imp_div_less)
  have s': "fs_ready ip ((m + 1) + 5) v s" using s by (simp add: numeral_eq_Suc)
  obtain a s1 v1 where 1: "bmap ip (of_nat ?q) s = Ok a s1" "stepped ip (m + 1) v s v1 s1" "kept ip v s v1 s1"
    "if a = 0 then full (sb s) v1 else a = slot (sb s) v1 (inodes s1 ip) ?q" using bmap_run [OF s' q] by blast
  show ?thesis
  proof (cases "a = 0")
    case True
    then have "writei_loop (Suc k) ip (FromKernel bs) (of_nat off') (of_nat n) (of_nat t) s = Ok (of_nat t, of_nat off') s1"
      using 1(1) w' n(1) by (simp add: writei_loop.simps [of "Suc k"])
    then show ?thesis using True 1 stepped_fewer [OF 1(2), of m] by (intro exI [of _ v1] exI [of _ s1]) (simp add: kept_def)
  next
    case False
    let ?r = "inodes s1 ip"
    have r: "fs_ready ip (m + 1) v1 s1" "sb s1 = sb s" using stepped_ready [OF 1(2)] by simp_all
    then have f: "bitmap_ok (sb s) v1" "file_ok (sb s) v1 ?r" "txn Map.empty (Suc m) v1 s1" "idev ?r = ROOTDEV" by (simp_all add: fs_ready_def file_ok_def)
    have a: "a = slot (sb s) v1 ?r ?q" "slot (sb s) v1 ?r ?q \<noteq> 0" using 1(4) False by auto
    have "unat a < 2 ^ 32" using unsigned_less [of a, where ?'a = nat] by simp
    then obtain bp s2 where 2: "bread ROOTDEV a s1 = Ok bp s2" "txn [unat a \<mapsto> bp] (Suc m) v1 s2" "only_log s1 s2"
      using tx.rd_ok [OF f(3), of "unat a"] by auto
    define g where "g = (\<lambda>d. take (off' mod BSIZE) d @ take p bs @ drop (off' mod BSIZE + length (take p bs)) d)"
    note ek = either_kernel [OF 2(2)]
    obtain s3 where 3: "log_update bp g (settle s2) = Ok () s3" "txn [unat a \<mapsto> bp] m (v1(unat a := g (v1 (unat a)))) s3" "only_log (settle s2) s3"
      using tx.upd_ok [OF ek(3), of "unat a" bp g] by auto
    obtain u where 4: "brelse bp s3 = Ok () u" "txn ([unat a \<mapsto> bp](unat a := None)) m (v1(unat a := g (v1 (unat a)))) u" "only_log s3 u"
      using tx.rl_ok [OF 3(2), of "unat a" bp] by auto
    have fr: "only_log s1 u" using only_log_trans [OF only_log_trans [OF only_log_trans [OF 2(3) ek(4)] 3(3)] 4(3)] .
    have lp: "off' mod BSIZE + length (take p bs) \<le> BSIZE" using p(2) by simp
    note ws = write_step [OF f(1,2) q a(2) lp, folded a(1), unfolded g_def [THEN fun_cong, symmetric]]
    have "unat (of_nat p :: u64) = p" using p(2) by (simp add: sizes unat_of_nat take_bit_nat_eq_self)
    then have c: "either_copyin (FromKernel bs) (of_nat p) s2 = Ok (0, take p bs) (settle s2)" using ek(2) by simp
    have "writei_loop (Suc k) ip (FromKernel bs) (of_nat off') (of_nat n) (of_nat t) s =
       writei_loop k ip (source_add (FromKernel bs) p) (of_nat off' + of_nat p) (of_nat n) (of_nat t + of_nat p) u"
    proof (rule writei_loop_step [OF _ _ False _ c _ 4(1)])
      show "(of_nat t :: u32) < of_nat n" "bmap ip (of_nat off' div of_nat BSIZE) s = Ok a s1" using w' n(1) 1(1) by simp_all
      show "bread (idev ?r) a s1 = Ok bp s2" using 2(1) f(4) by simp
      show "log_update bp (\<lambda>d. take (unat (of_nat off' :: u32) mod BSIZE) d @ take p bs @ drop (unat (of_nat off' :: u32) mod BSIZE + length (take p bs)) d)
        (settle s2) = Ok () s3" using 3(1) unfolding g_def w'(2) .
      show "p = min (unat (of_nat n - of_nat t :: u32)) (BSIZE - unat (of_nat off' :: u32) mod BSIZE)" by (simp only: p(1) piece_def w'(2,3))
    qed
    then have "writei_loop (Suc k) ip (FromKernel bs) (of_nat off') (of_nat n) (of_nat t) s =
       writei_loop k ip (FromKernel (drop p bs)) (of_nat (off' + p)) (of_nat n) (of_nat (t + p)) u" by simp
    moreover have "stepped ip m v s (v1(unat a := g (v1 (unat a)))) u" "inodes u = inodes s1"
      using stepped_block [OF 1(2) _ fr] 4(2) ws(1) by simp_all
    moreover have "contents (sb s) (v1(unat a := g (v1 (unat a)))) ?r = splice (contents (sb s) v (inodes s ip)) off' (take p bs)"
      "isize ?r = isize (inodes s ip)" using ws(2) 1(3) by (simp_all add: kept_def)
    moreover have "slot (sb s) (v1(unat a := g (v1 (unat a)))) ?r ?q \<noteq> 0" using ws(1) q a(2) by (simp add: fstep_def)
    ultimately show ?thesis by metis
  qed
qed

lemma no_holes_step:
  assumes "fstep sp v r v' r'" "no_holes sp v r n" "n \<le> MAXFILE * BSIZE"
  shows "no_holes sp v' r' n"
  unfolding no_holes_def
proof (intro allI impI)
  fix k
  assume k: "k * BSIZE < n"
  then have "k < MAXFILE" using assms(3) by (meson le_less_trans less_le_trans mult_less_cancel2)
  moreover have "slot sp v r k \<noteq> 0" using assms(2) k by (simp add: no_holes_def)
  ultimately show "slot sp v' r' k \<noteq> 0" using assms(1) by (simp add: fstep_def)
qed

end
