(* ===== verification/Writei.thy ===== *)
theory Writei
  imports Fileio
begin

text \<open>
  Writing a file, \<^verbatim>\<open>writei\<close> and \<^verbatim>\<open>iupdate\<close> of \<^verbatim>\<open>kernel/fs.c\<close>: what was written is read back, also
  from the inode on the disk.
\<close>

section \<open>The loop\<close>

lemma no_holes_grow:
  assumes "no_holes sp v r off'" "slot sp v r (off' div BSIZE) \<noteq> 0" "off' mod BSIZE + p \<le> BSIZE"
  shows "no_holes sp v r (off' + p)"
  unfolding no_holes_def
proof (intro allI impI)
  fix k
  assume k: "k * BSIZE < off' + p"
  have o: "off' = off' div BSIZE * BSIZE + off' mod BSIZE" by simp
  then have "k * BSIZE < Suc (off' div BSIZE) * BSIZE" using k assms(3) by (simp only: mult_Suc)
  then have "k \<le> off' div BSIZE" by (simp add: sizes)
  then consider "k = off' div BSIZE" | "Suc k \<le> off' div BSIZE" by linarith
  then show "slot sp v r k \<noteq> 0"
  proof cases
    case 2
    then have "Suc k * BSIZE \<le> off' div BSIZE * BSIZE" by (rule mult_le_mono1)
    then have "k * BSIZE < off'" using o by (simp add: sizes)
    then show ?thesis using assms(1) by (simp add: no_holes_def)
  qed (use assms(2) in simp)
qed

lemma writei_loop_run:
  assumes "fs_ready ip (6 * j + m) v s" "t \<le> n" "off' + (n - t) \<le> MAXFILE * BSIZE" "n \<le> MAXFILE * BSIZE" "length bs = n - t"
    "fuel_for k off' (n - t)" "fuel_for j off' (n - t)" "no_holes (sb s) v (inodes s ip) off'"
  shows "\<exists>w v' u. writei_loop k ip (FromKernel bs) (of_nat off') (of_nat n) (of_nat t) s = Ok (of_nat (t + w), of_nat (off' + w)) u \<and>
    w \<le> n - t \<and> stepped ip m v s v' u \<and> isize (inodes u ip) = isize (inodes s ip) \<and> (w < n - t \<longrightarrow> full (sb s) v') \<and>
    contents (sb s) v' (inodes u ip) = splice (contents (sb s) v (inodes s ip)) off' (take w bs) \<and>
    no_holes (sb s) v' (inodes u ip) (off' + w)"
  using assms
proof (induction k arbitrary: j off' t bs v s)
  case (0 j off' t bs v s)
  then have "t = n" by (auto simp: fuel_for_def)
  moreover have "stepped ip m v s v s" using stepped_log [OF 0(1), of m s] txn_fewer [of Map.empty "6 * j + m" v s m] 0(1) by (simp add: fs_ready_def)
  ultimately show ?case using 0(8) by (intro exI [of _ 0] exI [of _ v] exI [of _ s]) (simp add: writei_loop.simps [of 0])
next
  case (Suc k j off' t bs v s)
  show ?case
  proof (cases "t = n")
    case True
    moreover have "stepped ip m v s v s" using stepped_log [OF Suc.prems(1), of m s] txn_fewer [of Map.empty "6 * j + m" v s m] Suc.prems(1) by (simp add: fs_ready_def)
    ultimately show ?thesis using Suc.prems(8) by (intro exI [of _ 0] exI [of _ v] exI [of _ s]) (simp add: writei_loop.simps [of "Suc k"])
  next
    case False
    then have pos: "0 < n - t" "t < n" using Suc.prems(2) by simp_all
    define p where "p = piece off' (n - t)"
    note f = fuel_step [OF pos(1) Suc.prems(6), folded p_def]
    obtain i where i: "j = Suc i" "fuel_for i (off' + p) (n - t - p)" using fuel_step(1) [OF pos(1) Suc.prems(7), folded p_def] by blast
    have "fs_ready ip ((6 * i + m) + 6) v s" using Suc.prems(1) i(1) by (simp add: ac_simps)
    from write_block [OF this pos(2) Suc.prems(3,4) p_def f(4) Suc.prems(5), of k] obtain v1 s1 where
      1: "stepped ip (6 * i + m) v s v1 s1" "isize (inodes s1 ip) = isize (inodes s ip)" and
      c: "writei_loop (Suc k) ip (FromKernel bs) (of_nat off') (of_nat n) (of_nat t) s = Ok (of_nat t, of_nat off') s1 \<and>
         full (sb s) v1 \<and> contents (sb s) v1 (inodes s1 ip) = contents (sb s) v (inodes s ip) \<or>
       writei_loop (Suc k) ip (FromKernel bs) (of_nat off') (of_nat n) (of_nat t) s =
         writei_loop k ip (FromKernel (drop p bs)) (of_nat (off' + p)) (of_nat n) (of_nat (t + p)) s1 \<and>
       contents (sb s) v1 (inodes s1 ip) = splice (contents (sb s) v (inodes s ip)) off' (take p bs) \<and>
       slot (sb s) v1 (inodes s1 ip) (off' div BSIZE) \<noteq> 0" by blast
    have "off' \<le> MAXFILE * BSIZE" using Suc.prems(3) by simp
    then have h: "no_holes (sb s) v1 (inodes s1 ip) off'" using no_holes_step [OF _ Suc.prems(8)] 1(1) by (simp add: stepped_def)
    from c show ?thesis
    proof (elim disjE conjE, goal_cases)
      case 1
      then show ?case using \<open>stepped ip (6 * i + m) v s v1 s1\<close> stepped_fewer [of ip "6 * i + m" v s v1 s1 m] h \<open>isize (inodes s1 ip) = _\<close>
        by (intro exI [of _ 0] exI [of _ v1] exI [of _ s1]) simp
    next
      case 2
      note r = stepped_ready [OF 1(1)]
      have t': "off' + p + (n - (t + p)) = off' + (n - t)" "n - (t + p) = n - t - p" "t + p \<le> n" "p + (n - (t + p)) = n - t" using f(3) pos by simp_all
      have h: "no_holes (sb s1) v1 (inodes s1 ip) (off' + p)" using no_holes_grow [OF h 2(3) f(4)] r by simp
      obtain w v2 u where w: "writei_loop k ip (FromKernel (drop p bs)) (of_nat (off' + p)) (of_nat n) (of_nat (t + p)) s1
          = Ok (of_nat (t + p + w), of_nat (off' + p + w)) u" "w \<le> n - (t + p)" "stepped ip m v1 s1 v2 u" "isize (inodes u ip) = isize (inodes s1 ip)"
        "w < n - (t + p) \<longrightarrow> full (sb s) v2" "contents (sb s) v2 (inodes u ip) = splice (contents (sb s) v1 (inodes s1 ip)) (off' + p) (take w (drop p bs))"
        "no_holes (sb s) v2 (inodes u ip) (off' + p + w)"
        using Suc.IH [of i v1 s1 "t + p" "off' + p" "drop p bs"] r h Suc.prems(3-5) f(1) i(2) unfolding t'(1) unfolding t'(2) using t'(3) by auto
      have "take p bs @ take w (drop p bs) = take (p + w) bs" by (simp add: take_add)
      moreover have "length (take p bs) = p" using f(3) Suc.prems(5) by simp
      ultimately have "contents (sb s) v2 (inodes u ip) = splice (contents (sb s) v (inodes s ip)) off' (take (p + w) bs)"
        using w(6) 2(2) splice_append [of "contents (sb s) v (inodes s ip)" off' "take p bs" "take w (drop p bs)"] by simp
      then show ?case using 2(1) w 1(2) stepped_trans [OF 1(1) w(3)] t'(4)
        by (intro exI [of _ "p + w"] exI [of _ v2] exI [of _ u]) (simp add: add.assoc)
    qed
  qed
qed

section \<open>The inode on the disk\<close>

lemma dinode_room: "dinode_off i + 64 \<le> BSIZE"
proof -
  have "unat i mod IPB \<le> 15" by (simp add: IPB_def BSIZE_def less_Suc_eq_le [symmetric])
  then show ?thesis by (simp add: dinode_off_def BSIZE_def)
qed

lemma put_dinode_fields:
  assumes "length d = BSIZE" "o' + 64 \<le> BSIZE" "length (iaddrs r) = NDIRECT + 1"
  shows "length (put_dinode r o' d) = BSIZE" "get_dinode (put_dinode r o' d) o' r = r"
proof -
  let ?e = "put32 (put16 (put16 (put16 (put16 d o' (itype r)) (o' + 2) (imajor r)) (o' + 4) (iminor r)) (o' + 6) (inlink r)) (o' + 8) (isize r)"
  have n: "(o' + 12) + 4 * (NDIRECT + 1) \<le> length ?e" using assms by (simp add: sizes)
  note w = put_words [OF n, where f = "\<lambda>k. iaddrs r ! k"]
  have p: "put_dinode r o' d = fold (\<lambda>k d. put32 d (o' + 12 + 4 * k) (iaddrs r ! k)) [0..<NDIRECT + 1] ?e" by (simp add: put_dinode_def)
  show "length (put_dinode r o' d) = BSIZE" unfolding p w(1) using assms(1) by simp
  have "map (\<lambda>k. get32 (put_dinode r o' d) (o' + 12 + 4 * k)) [0..<NDIRECT + 1] = map ((!) (iaddrs r)) [0..<NDIRECT + 1]"
    by (rule map_cong [OF refl]) (simp only: p w(4) set_upt atLeastLessThan_iff)
  then have a: "map (\<lambda>k. get32 (put_dinode r o' d) (o' + 12 + 4 * k)) [0..<NDIRECT + 1] = iaddrs r"
    by (simp only: assms(3) [symmetric] map_nth)
  have "get16 ?e o' = itype r" "get16 ?e (o' + 2) = imajor r" "get16 ?e (o' + 4) = iminor r" "get16 ?e (o' + 6) = inlink r"
    "get32 ?e (o' + 8) = isize r" using assms(1,2) by (simp_all add: sizes)
  then have "get16 (put_dinode r o' d) o' = itype r" "get16 (put_dinode r o' d) (o' + 2) = imajor r"
    "get16 (put_dinode r o' d) (o' + 4) = iminor r" "get16 (put_dinode r o' d) (o' + 6) = inlink r"
    "get32 (put_dinode r o' d) (o' + 8) = isize r" unfolding p using w(2,3) by simp_all
  then show "get_dinode (put_dinode r o' d) o' r = r" using a by (simp add: get_dinode_def)
qed

text \<open>The inode on the disk is the one in memory.\<close>

definition stored :: "superblock \<Rightarrow> blocks \<Rightarrow> inode \<Rightarrow> bool" where
  "stored sp v r \<longleftrightarrow> get_dinode (v (unat (IBLOCK (inum r) sp))) (dinode_off (inum r)) r = r"

lemma iupdate_run:
  assumes "fs_ready ip (Suc m) v s"
  shows "\<exists>t v'. iupdate ip s = Ok () t \<and> stepped ip m v s v' t \<and> kept ip v s v' t \<and> inodes t = inodes s \<and> stored (sb s) v' (inodes s ip)"
proof -
  let ?r = "inodes s ip" let ?k = "MAXFILE + 1" let ?n = "unat (IBLOCK (inum ?r) (sb s))" let ?o = "dinode_off (inum ?r)"
  let ?v = "v(?n := put_dinode ?r ?o (v ?n))"
  have f: "txn Map.empty (Suc m) v s" "bitmap_ok (sb s) v" "file_ok (sb s) v ?r" using assms by (simp_all add: fs_ready_def)
  then have r: "idev ?r = ROOTDEV" "length (iaddrs ?r) = NDIRECT + 1" "IBLOCK (inum ?r) (sb s) \<noteq> 0" by (simp_all add: file_ok_def)
  have sl: "slot (sb s) v ?r ?k = IBLOCK (inum ?r) (sb s)" by (simp add: slot_def sizes)
  have n: "?n < 2 ^ 32" "length (v ?n) = BSIZE" using slotD(4,5) [OF f(3), of ?k] sl r(3) by simp_all
  note d = put_dinode_fields [OF n(2) dinode_room r(2)]
  note u = own_update [OF f(2,3), of ?k "put_dinode ?r ?o (v ?n)", unfolded sl, OF _ _ r(3) d(1)]
  obtain t where t: "iupdate ip s = Ok () t" "txn Map.empty m ?v t" "only_log s t"
    using tx.update [OF f(1) _ n(1), of "put_dinode ?r ?o"] r(1) by (auto simp: iupdate_def log_update_def sq_def bind_assoc)
  note fr = only_log_fsys [OF t(3)]
  have "stepped ip m v s ?v t" using t(2) u(1) fr only_log_only_fs [OF t(3)] by (simp add: stepped_def)
  moreover have "contents (sb s) ?v ?r = contents (sb s) v ?r"
    using u(2,3) by (auto simp: contents_def Let_def fun_eq_iff)
  moreover have "stored (sb s) ?v ?r" using d(2) by (simp add: stored_def)
  ultimately show ?thesis using t(1) fr by (intro exI [of _ t] exI [of _ ?v]) (simp add: kept_def)
qed

section \<open>Writing\<close>

lemma full_step: "fstep sp v r v' r' \<Longrightarrow> full sp v \<Longrightarrow> full sp v'"
  by (simp add: fstep_def full_def)

lemma resize:
  "file_ok sp v (r\<lparr>isize := z\<rparr>) = file_ok sp v r" "contents sp v (r\<lparr>isize := z\<rparr>) = contents sp v r"
  "no_holes sp v (r\<lparr>isize := z\<rparr>) n = no_holes sp v r n" "fstep sp v r v' (r'\<lparr>isize := z\<rparr>) = fstep sp v r v' r'"
proof -
  have s: "slot sp v (r\<lparr>isize := z\<rparr>) = slot sp v r" for v r z by (simp add: slot_def fun_eq_iff)
  have o: "owned sp v (r\<lparr>isize := z\<rparr>) = owned sp v r" for v r z by (simp add: owned_def s)
  show f: "file_ok sp v (r\<lparr>isize := z\<rparr>) = file_ok sp v r" for v r z by (simp add: file_ok_def s o)
  show "contents sp v (r\<lparr>isize := z\<rparr>) = contents sp v r" by (simp add: contents_def s fun_eq_iff)
  show "no_holes sp v (r\<lparr>isize := z\<rparr>) n = no_holes sp v r n" by (simp add: no_holes_def s)
  have "r'\<lparr>isize := z\<rparr> = r\<lparr>iaddrs := iaddrs r', isize := z\<rparr> \<longleftrightarrow> r' = r\<lparr>iaddrs := iaddrs r', isize := isize r'\<rparr>"
    by (cases r, cases r') simp
  then show "fstep sp v r v' (r'\<lparr>isize := z\<rparr>) = fstep sp v r v' r'" by (simp add: fstep_def f s o)
qed

lemma writei_run:
  assumes s: "fs_ready ip (6 * j + (m + 1)) v s" and l: "length bs = n" "off' mod BSIZE + n \<le> j * BSIZE" "off' + n \<le> MAXFILE * BSIZE"
    and z: "off' \<le> unat (isize (inodes s ip))" "unat (isize (inodes s ip)) \<le> MAXFILE * BSIZE"
    "no_holes (sb s) v (inodes s ip) (unat (isize (inodes s ip)))"
  shows "\<exists>w v' t. writei ip (FromKernel bs) (of_nat off') (of_nat n) s = Ok (int w) t \<and> w \<le> n \<and> (w < n \<longrightarrow> full (sb s) v') \<and>
    stepped ip m v s v' t \<and> unat (isize (inodes t ip)) = max (unat (isize (inodes s ip))) (off' + w) \<and>
    contents (sb s) v' (inodes t ip) = splice (contents (sb s) v (inodes s ip)) off' (take w bs) \<and>
    no_holes (sb s) v' (inodes t ip) (unat (isize (inodes t ip))) \<and> stored (sb s) v' (inodes t ip)"
proof -
  let ?r = "inodes s ip" let ?z = "isize ?r"
  have b: "x \<le> MAXFILE * BSIZE \<Longrightarrow> unat (of_nat x :: u32) = x" for x by (simp add: sizes unat_of_nat take_bit_nat_eq_self)
  have u: "unat (of_nat off' :: u32) = off'" "unat (of_nat off' + of_nat n :: u32) = off' + n" "unat (of_nat n :: u32) = n"
    using b [of off'] b [of "off' + n"] b [of n] l(3) by simp_all
  have h0: "no_holes (sb s) v ?r off'" using z(1,3) by (auto simp: no_holes_def)
  have "fuel_for j off' (n - 0)" using l(2) by (simp add: fuel_for_def)
  then obtain w v1 s1 where 1: "writei_loop (n div BSIZE + 2) ip (FromKernel bs) (of_nat off') (of_nat n) 0 s = Ok (of_nat w, of_nat (off' + w)) s1"
    "w \<le> n" "stepped ip (m + 1) v s v1 s1" "isize (inodes s1 ip) = ?z" "w < n \<longrightarrow> full (sb s) v1"
    "contents (sb s) v1 (inodes s1 ip) = splice (contents (sb s) v ?r) off' (take w bs)" "no_holes (sb s) v1 (inodes s1 ip) (off' + w)"
    using writei_loop_run [OF s, of 0 n off' bs "n div BSIZE + 2"] l fuel_enough [of n off'] h0 by auto
  define z' where "z' = (if of_nat off' + of_nat w > ?z then of_nat off' + of_nat w else ?z)"
  let ?s1 = "s1\<lparr>inodes := (inodes s1)(ip := (inodes s1 ip)\<lparr>isize := z'\<rparr>)\<rparr>"
  have z': "unat z' = max (unat ?z) (off' + w)" using b [of "off' + w"] 1(2) l(3) by (auto simp: z'_def word_less_nat_alt)
  have up: "upd_inode ip (\<lambda>r. if of_nat off' + of_nat w > isize r then r\<lparr>isize := of_nat off' + of_nat w\<rparr> else r) s1 = Ok () ?s1"
  proof -
    have "(inodes s1 ip)\<lparr>isize := isize (inodes s1 ip)\<rparr> = inodes s1 ip" by (cases "inodes s1 ip") simp
    then show ?thesis by (simp add: upd_inode_def z'_def 1(4) [symmetric])
  qed
  have 2: "stepped ip (Suc m) v s v1 ?s1" using 1(3) only_fs_trans [OF _ only_fs_upd, of s s1] by (simp add: stepped_def resize)
  have "no_holes (sb s) v1 (inodes s1 ip) (unat ?z)" using no_holes_step [OF _ z(3,2)] 1(3) by (simp add: stepped_def)
  then have h1: "no_holes (sb s) v1 (inodes s1 ip) (unat z')" using 1(7) by (auto simp: no_holes_def z' less_max_iff_disj)
  obtain t v2 where 3: "iupdate ip ?s1 = Ok () t" "stepped ip m v1 ?s1 v2 t" "kept ip v1 ?s1 v2 t" "inodes t = inodes ?s1" "stored (sb ?s1) v2 (inodes ?s1 ip)"
    using iupdate_run [of ip m v1 ?s1] stepped_ready [OF 2] by blast
  have e: "sb s1 = sb s" using stepped_ready [OF 1(3)] by simp
  have f: "fstep (sb s) v1 (inodes ?s1 ip) v2 (inodes t ip)" using 3(2) e by (simp add: stepped_def)
  have "unat z' \<le> MAXFILE * BSIZE" using z' z(2) 1(2) l(3) by simp
  then have "no_holes (sb s) v2 (inodes t ip) (unat z')" using no_holes_step [OF f] h1 by (simp add: resize)
  moreover have "sint (of_nat w :: u32) = int w"
  proof -
    have "sint (word_of_int (int w) :: u32) = int w" using 1(2) l(3) by (subst signed_of_int) (simp add: signed_take_bit_int_eq_self sizes)
    then show ?thesis by simp
  qed
  moreover have "\<not> ?z < of_nat off'" "\<not> (of_nat off' + of_nat n :: u32) < of_nat off'" using u z(1) by (simp_all add: word_less_nat_alt)
  ultimately have "writei ip (FromKernel bs) (of_nat off') (of_nat n) s = Ok (int w) t"
    using 1(1) up 3(1) u l(3) by (simp add: writei_def)
  moreover have "stepped ip m v s v2 t" by (rule stepped_trans [OF 2 3(2)])
  moreover have "contents (sb s) v2 (inodes t ip) = splice (contents (sb s) v ?r) off' (take w bs)"
    using 3(3) 1(6) e by (simp add: kept_def resize)
  ultimately show ?thesis using 1(2,5) full_step [OF f] z' 3(4,5) e \<open>no_holes (sb s) v2 (inodes t ip) (unat z')\<close>
    by (intro exI [of _ w] exI [of _ v2] exI [of _ t]) simp
qed

section \<open>A small file\<close>

text \<open>A file of three bytes on the small disk: inode 1, with block 34.\<close>

definition small_file :: inode where
  "small_file = \<lparr>idev = ROOTDEV, inum = 1, iref = 1, ivalid = True, itype = T_FILE, imajor = 0, iminor = 0, inlink = 1, isize = 3,
     iaddrs = 34 # replicate NDIRECT 0\<rparr>"

lemma small_slot: "k \<le> MAXFILE + 1 \<Longrightarrow> slot small_sb small_disk small_file k = (if k = 0 then 34 else if k = MAXFILE + 1 then 33 else 0)"
  by (auto simp: slot_def small_file_def small_sb_def sizes IBLOCK_def IPB_def nth_Cons')

lemma small_file_ok: "file_ok small_sb small_disk small_file" "no_holes small_sb small_disk small_file 3"
proof -
  have "b \<in> {33, 34}" if "b \<in> owned small_sb small_disk small_file" for b
    using that by (rule ownedE) (auto simp: small_slot split: if_splits)
  moreover have "proper small_sb small_disk b" if "b \<in> {33, 34}" for b
  proof -
    have "used small_sb small_disk b" "b < unat (sb_size small_sb)" using that small_used [of b] by (auto simp: small_sb_def)
    moreover have "b \<notin> bitmap_blocks small_sb" using that by (auto simp: bitmap_blocks_def map_block_def small_sb_def)
    moreover have "length (small_disk b) = BSIZE" using that by (auto simp: small_disk_def)
    ultimately show ?thesis by (simp add: proper_def)
  qed
  moreover have "IBLOCK (inum small_file) small_sb \<noteq> 0" "idev small_file = ROOTDEV" "length (iaddrs small_file) = NDIRECT + 1"
    by (simp_all add: small_file_def small_sb_def IBLOCK_def IPB_def BSIZE_def)
  ultimately show "file_ok small_sb small_disk small_file" by (auto simp: file_ok_def small_slot split: if_splits)
  show "no_holes small_sb small_disk small_file 3" by (auto simp: no_holes_def small_slot sizes)
qed

lemma some_file:
  obtains s :: fsys where "fs_ready 0 25 small_disk s" "sb s = small_sb" "inodes s = (\<lambda>_. small_file)"
proof -
  obtain s :: fsys where "txn Map.empty 25 small_disk s" "sb s = small_sb" "inodes s = (\<lambda>_. small_file)" by (rule some_fs)
  then show thesis using small_bitmap small_file_ok(1) by (intro that [of s]) (simp_all add: fs_ready_def)
qed

lemma small_size: "unat (isize small_file) = 3"
  by (simp add: small_file_def)

text \<open>
  C10. readi into a kernel buffer returns the bytes of the file at the offset, as many as asked for or as the file has, and
  leaves every block of the disk as it was.
\<close>

theorem readi_returns_contents:
  assumes "fs_ready ip m v s" "no_holes (sb s) v (inodes s ip) (unat (isize (inodes s ip)))" "unat (isize (inodes s ip)) \<le> MAXFILE * BSIZE"
    "off' \<le> unat (isize (inodes s ip))" "n \<le> MAXFILE * BSIZE"
  shows "\<exists>t. readi ip KernelBuf (of_nat off') (of_nat n) s =
      Ok (int (min n (unat (isize (inodes s ip)) - off')),
          map (contents (sb s) v (inodes s ip)) [off'..<min (off' + n) (unat (isize (inodes s ip)))]) t \<and>
    fs_ready ip m v t \<and> inodes t = inodes s \<and> sb t = sb s"
proof -
  have "off' + min n (unat (isize (inodes s ip)) - off') = min (off' + n) (unat (isize (inodes s ip)))" using assms(4) by simp
  then show ?thesis using readi_run [OF assms] assms(1) only_log_fsys by (fastforce simp: fs_ready_def)
qed

theorem readi_returns_contents_witness:
  "\<exists>(s :: fsys) t. readi 0 KernelBuf (of_nat 1) (of_nat 5) s = Ok (2, [0, 0]) t"
proof -
  obtain s :: fsys where s: "fs_ready 0 25 small_disk s" "sb s = small_sb" "inodes s = (\<lambda>_. small_file)" by (rule some_file)
  have "contents small_sb small_disk small_file i = 0" for i
    by (auto simp: contents_def small_slot small_disk_def byte_at_def Let_def)
  moreover have "[1..<3] = [1, 2 :: nat]" by (simp add: upt_rec)
  ultimately show ?thesis
    using readi_returns_contents [OF s(1), of 1 5] s(2,3) small_file_ok small_size by (auto simp: sizes)
qed



text \<open>
  C8. What writei wrote, readi reads: the same bytes at the same offset, as many as writei reported.
\<close>

theorem writei_readi_roundtrip:
  assumes "fs_ready ip (6 * j + (m + 1)) v s" "length bs = n" "off' mod BSIZE + n \<le> j * BSIZE" "off' + n \<le> MAXFILE * BSIZE"
    "off' \<le> unat (isize (inodes s ip))" "unat (isize (inodes s ip)) \<le> MAXFILE * BSIZE"
    "no_holes (sb s) v (inodes s ip) (unat (isize (inodes s ip)))"
  shows "\<exists>w t u. writei ip (FromKernel bs) (of_nat off') (of_nat n) s = Ok (int w) t \<and> w \<le> n \<and>
    readi ip KernelBuf (of_nat off') (of_nat w) t = Ok (int w, take w bs) u"
proof -
  obtain w v' t where r: "writei ip (FromKernel bs) (of_nat off') (of_nat n) s = Ok (int w) t" "w \<le> n"
    "stepped ip m v s v' t" "unat (isize (inodes t ip)) = max (unat (isize (inodes s ip))) (off' + w)"
    "contents (sb s) v' (inodes t ip) = splice (contents (sb s) v (inodes s ip)) off' (take w bs)"
    "no_holes (sb s) v' (inodes t ip) (unat (isize (inodes t ip)))"
    using writei_run [OF assms] by blast
  note d = stepped_ready [OF r(3)]
  have h: "no_holes (sb t) v' (inodes t ip) (unat (isize (inodes t ip)))" "unat (isize (inodes t ip)) \<le> MAXFILE * BSIZE"
    "off' \<le> unat (isize (inodes t ip))" "w \<le> MAXFILE * BSIZE" using r(2,4,6) d assms(4,6) by simp_all
  obtain u where "readi ip KernelBuf (of_nat off') (of_nat w) t = Ok (int (min w (unat (isize (inodes t ip)) - off')),
      map (contents (sb t) v' (inodes t ip)) [off'..<off' + min w (unat (isize (inodes t ip)) - off')]) u"
    using readi_run [OF conjunct1 [OF d] h] by blast
  moreover have "min w (unat (isize (inodes t ip)) - off') = w" using r(4) by simp
  moreover have "map (splice c off' (take w bs)) [off'..<off' + w] = take w bs" for c
    using map_splice [of c off' "take w bs"] r(2) assms(2) by simp
  ultimately show ?thesis using r(1,2,5) d by (intro exI [of _ w] exI [of _ t] exI [of _ u]) simp
qed

theorem writei_readi_roundtrip_witness:
  "\<exists>(s :: fsys) w t u. writei 0 (FromKernel [104, 105]) (of_nat 2) (of_nat 2) s = Ok (int w) t \<and>
    readi 0 KernelBuf (of_nat 2) (of_nat w) t = Ok (int w, take w [104, 105]) u"
proof -
  obtain s :: fsys where s: "fs_ready 0 25 small_disk s" "sb s = small_sb" "inodes s = (\<lambda>_. small_file)" by (rule some_file)
  then show ?thesis
    using writei_readi_roundtrip [of 0 4 0 small_disk s "[104, 105]" 2 2] small_file_ok small_size by (auto simp: sizes)
qed

end
