(* ===== verification/Spec2Isabelle.thy ===== *)
theory Spec2Isabelle
  imports Boot Crash Logspace Pipeq Writei
begin

text \<open>
  Verification of the xv6 kernel with copy-on-write fork.
\<close>

end
